(* ===== verification/Prelude.thy ===== *)
theory Prelude
  imports Main "HOL-Library.Word" "HOL-Library.Char_ord" "HOL-Library.List_Lexorder"
begin

text \<open>
  What every component shares: the kinds of failure of the C++ code and the result type that
  carries them, the two collections of facts the proofs use, and the small pieces of the standard
  library the sources call on character ranges (\<open>std::find\<close>, \<open>std::search\<close>, \<open>isspace\<close>, decimal
  printing, \<open>std::stoi\<close>) with their lemmas.
\<close>

section \<open>Failures as values\<close>

text \<open>
  \<open>OutOfBounds\<close> is a read or write outside a vector, \<open>NullDeref\<close> and \<open>UseAfterFree\<close> are bad
  pointers, \<open>AssertFailed\<close> is a failing \<open>assert\<close> (the build does not define \<open>NDEBUG\<close>),
  \<open>InvalidArgument\<close>, \<open>OutOfRange\<close>, \<open>LengthError\<close> and \<open>LogicError\<close> are the standard exceptions, which no
  function of the sources catches, \<open>IntOverflow\<close> is signed overflow or a conversion of a
  number that does not fit, \<open>Hangs\<close> is a loop that never ends, and \<open>BadAlloc\<close> is memory that is
  used up, and \<open>ProcessExit\<close> is a call of \<open>exit\<close>.
\<close>

datatype fault = OutOfBounds | NullDeref | UseAfterFree | AssertFailed
  | InvalidArgument | OutOfRange | LengthError | LogicError
  | IntOverflow | Hangs | BadAlloc | ProcessExit

type_synonym 'a res = "fault + 'a"

definition bind_res :: "'a res \<Rightarrow> ('a \<Rightarrow> 'b res) \<Rightarrow> 'b res" where
  "bind_res m f = (case m of Inl e \<Rightarrow> Inl e | Inr x \<Rightarrow> f x)"

lemma bind_res_Inl [simp]: "bind_res (Inl e) f = Inl e"
  by (simp add: bind_res_def)

lemma bind_res_Inr [simp]: "bind_res (Inr x) f = f x"
  by (simp add: bind_res_def)

lemma bind_res_eq_Inr_iff: "bind_res m f = Inr y \<longleftrightarrow> (\<exists>x. m = Inr x \<and> f x = Inr y)"
  by (cases m) auto

lemma bind_res_assoc: "bind_res (bind_res m f) g = bind_res m (\<lambda>x. bind_res (f x) g)"
  by (cases m) auto

text \<open>
  A result that only fails in one of the given ways and satisfies a postcondition when it does not
  fail.
\<close>

definition res_ok :: "fault set \<Rightarrow> ('a \<Rightarrow> bool) \<Rightarrow> 'a res \<Rightarrow> bool" where
  "res_ok F P r \<longleftrightarrow> (case r of Inl e \<Rightarrow> e \<in> F | Inr x \<Rightarrow> P x)"

abbreviation fails_in :: "fault set \<Rightarrow> 'a res \<Rightarrow> bool" where
  "fails_in F r \<equiv> res_ok F (\<lambda>x. True) r"

lemma res_ok_simps [simp]: "res_ok F P (Inl e) = (e \<in> F)" "res_ok F P (Inr x) = P x"
  by (simp_all add: res_ok_def)

lemma res_ok_bind:
  "res_ok F P m \<Longrightarrow> (\<And>x. m = Inr x \<Longrightarrow> P x \<Longrightarrow> res_ok F Q (f x)) \<Longrightarrow> res_ok F Q (bind_res m f)"
  by (cases m) auto

lemma res_ok_weaken: "res_ok F P r \<Longrightarrow> (\<And>x. P x \<Longrightarrow> Q x) \<Longrightarrow> res_ok F Q r"
  by (cases r) auto

lemma fails_in_bind:
  "fails_in F m \<Longrightarrow> (\<And>x. m = Inr x \<Longrightarrow> fails_in F (f x)) \<Longrightarrow> fails_in F (bind_res m f)"
  by (cases m) auto

lemma fails_in_Inl: "fails_in F m \<Longrightarrow> m = Inl e \<Longrightarrow> e \<in> F"
  by simp

text \<open>
  \<open>inv_intro\<close> collects the preservation lemmas of the component invariants, \<open>abs_simp\<close> the
  equations that say what an operation does to the abstract value of its component.
\<close>

named_theorems inv_intro
named_theorems abs_simp

section \<open>Character ranges: find, search, isspace\<close>

abbreviation CR :: char where "CR \<equiv> CHR 0x0D"
abbreviation LF :: char where "LF \<equiv> CHR 0x0A"
abbreviation SP :: char where "SP \<equiv> CHR 0x20"
abbreviation NUL :: char where "NUL \<equiv> CHR 0x00"
abbreviation crlf :: string where "crlf \<equiv> [CR, LF]"

text \<open>
  \<open>std::find(first, last, c)\<close> splits the range: \<open>None\<close> when it returns \<open>last\<close>, otherwise what
  is before the hit and what is after it.
\<close>

fun find_char :: "char \<Rightarrow> string \<Rightarrow> (string \<times> string) option" where
  "find_char c [] = None"
| "find_char c (x # xs) =
     (if x = c then Some ([], xs)
      else (case find_char c xs of None \<Rightarrow> None | Some (a, b) \<Rightarrow> Some (x # a, b)))"

lemma find_char_None_iff: "find_char c xs = None \<longleftrightarrow> c \<notin> set xs"
  by (induction xs) (auto split: option.splits)

lemma find_char_append [simp]: "c \<notin> set a \<Longrightarrow> find_char c (a @ c # b) = Some (a, b)"
  by (induction a) auto

lemma find_char_absent [simp]: "c \<notin> set xs \<Longrightarrow> find_char c xs = None"
  by (simp add: find_char_None_iff)

lemma find_char_Some_iff: "find_char c xs = Some (a, b) \<longleftrightarrow> xs = a @ c # b \<and> c \<notin> set a"
proof
  show "find_char c xs = Some (a, b) \<Longrightarrow> xs = a @ c # b \<and> c \<notin> set a"
    by (induction xs arbitrary: a) (auto split: if_splits option.splits)
qed auto

text \<open>
  \<open>std::search(first, last, "\r\n", "\r\n" + 2)\<close>: the offset of the first carriage return that
  a line feed follows.
\<close>

fun search_crlf :: "string \<Rightarrow> nat option" where
  "search_crlf (x # y # xs) =
     (if x = CR \<and> y = LF then Some 0 else map_option Suc (search_crlf (y # xs)))"
| "search_crlf [x] = None"
| "search_crlf [] = None"

lemma search_crlf_Some:
  "search_crlf s = Some k \<Longrightarrow>
     s = take k s @ CR # LF # drop (k + 2) s \<and> k + 2 \<le> length s \<and> search_crlf (take k s) = None"
proof (induction s arbitrary: k rule: search_crlf.induct)
  case (1 x y xs)
  show ?case
  proof (cases "x = CR \<and> y = LF")
    case True
    with 1 show ?thesis by simp
  next
    case False
    with 1 obtain j where j: "search_crlf (y # xs) = Some j" and k: "k = Suc j" by auto
    from 1(1)[OF False j] False k show ?thesis by (cases j) auto
  qed
qed auto

lemma search_crlf_append:
  "search_crlf s = Some k \<Longrightarrow> search_crlf (s @ t) = Some k"
  by (induction s arbitrary: k rule: search_crlf.induct) (auto split: if_splits)

lemma search_crlf_line [simp]:
  "search_crlf a = None \<Longrightarrow> search_crlf (a @ CR # LF # b) = Some (length a)"
  by (induction a rule: search_crlf.induct) (auto split: if_splits)

lemma search_crlf_free: "CR \<notin> set a \<Longrightarrow> search_crlf a = None"
  by (induction a rule: search_crlf.induct) auto

text \<open>\<open>isspace\<close> of the C locale; a negative \<open>char\<close> is no space.\<close>

definition is_space :: "char \<Rightarrow> bool" where
  "is_space c \<longleftrightarrow> c \<in> {SP, CHR 0x09, LF, CHR 0x0B, CHR 0x0C, CR}"

lemma is_space_simps [simp]:
  "is_space SP" "is_space CR" "is_space LF"
  by (simp_all add: is_space_def)

section \<open>Decimal numbers\<close>

text \<open>\<open>snprintf\<close> with \<open>%d\<close>, \<open>%u\<close> or \<open>%zd\<close> of a non-negative number.\<close>

definition digit :: "nat \<Rightarrow> char" where
  "digit d = char_of (48 + d)"

definition is_digit :: "char \<Rightarrow> bool" where
  "is_digit c \<longleftrightarrow> 48 \<le> (of_char c :: nat) \<and> (of_char c :: nat) \<le> 57"

definition digit_val :: "char \<Rightarrow> nat" where
  "digit_val c = of_char c - 48"

fun dec :: "nat \<Rightarrow> string" where
  "dec n = (if n < 10 then [digit n] else dec (n div 10) @ [digit (n mod 10)])"

declare dec.simps [simp del]

definition undec :: "string \<Rightarrow> nat" where
  "undec ds = foldl (\<lambda>n c. 10 * n + digit_val c) 0 ds"

lemma digit_roundtrip [simp]: "d < 10 \<Longrightarrow> digit_val (digit d) = d"
  by (simp add: digit_def digit_val_def)

lemma is_digit_digit [simp]: "d < 10 \<Longrightarrow> is_digit (digit d)"
  by (simp add: digit_def is_digit_def)

lemma dec_digits: "\<forall>c \<in> set (dec n). is_digit c"
proof (induction n rule: dec.induct)
  case (1 n)
  then show ?case by (subst dec.simps) auto
qed

lemma dec_nonempty [simp]: "dec n \<noteq> []"
  by (subst dec.simps) simp

lemma undec_dec [simp]: "undec (dec n) = n"
proof (induction n rule: dec.induct)
  case (1 n)
  then show ?case by (subst dec.simps) (auto simp: undec_def)
qed

lemma dec_inject: "dec m = dec n \<longleftrightarrow> m = n"
  by (metis undec_dec)

lemma length_dec: "n < 10 ^ k \<Longrightarrow> 0 < k \<Longrightarrow> length (dec n) \<le> k"
proof (induction n arbitrary: k rule: dec.induct)
  case (1 n)
  show ?case
  proof (cases "n < 10")
    case True
    with "1.prems" show ?thesis by (subst dec.simps) simp
  next
    case False
    with "1.prems" obtain j where k: "k = Suc j" "0 < j"
      by (cases k; cases "k - 1") auto
    with "1.prems" have "n div 10 < 10 ^ j" by (simp add: div_less_iff_less_mult mult.commute)
    with "1.IH" False k show ?thesis by (subst dec.simps) simp
  qed
qed

lemma is_digit_not_space: "is_digit c \<Longrightarrow> \<not> is_space c"
  by (auto simp: is_digit_def is_space_def)

lemma is_digit_not_special [simp]:
  "is_digit c \<Longrightarrow> c \<noteq> CR" "is_digit c \<Longrightarrow> c \<noteq> CHR ''-''" "is_digit c \<Longrightarrow> c \<noteq> CHR ''+''"
  "is_digit c \<Longrightarrow> c \<noteq> CHR ''#''" "is_digit c \<Longrightarrow> c \<noteq> CHR ''.''"
  by (auto simp: is_digit_def)

text \<open>
  \<open>std::stoi\<close>: leading white space, an optional sign, then the longest run of digits; without a
  digit it throws \<open>invalid_argument\<close>, outside the range of \<open>int\<close> it throws \<open>out_of_range\<close>; what
  follows the digits is ignored.
\<close>

definition int_min :: int where "int_min = - (2 ^ 31)"
definition int_max :: int where "int_max = 2 ^ 31 - 1"

definition stoi_digits :: "bool \<Rightarrow> string \<Rightarrow> int res" where
  "stoi_digits neg s =
     (let ds = takeWhile is_digit s; v = int (undec ds); r = (if neg then - v else v)
      in if ds = [] then Inl InvalidArgument
         else if r < int_min \<or> int_max < r then Inl OutOfRange else Inr r)"

definition stoi :: "string \<Rightarrow> int res" where
  "stoi s =
     (case dropWhile is_space s of
        [] \<Rightarrow> Inl InvalidArgument
      | c # cs \<Rightarrow>
          if c = CHR ''-'' then stoi_digits True cs
          else if c = CHR ''+'' then stoi_digits False cs
          else stoi_digits False (c # cs))"

lemma stoi_empty [simp]: "stoi [] = Inl InvalidArgument"
  by (simp add: stoi_def)

lemma stoi_dec:
  assumes "int n \<le> int_max"
  shows "stoi (dec n) = Inr (int n)"
proof -
  obtain c cs where d: "dec n = c # cs" by (cases "dec n") simp_all
  with dec_digits [of n] have c: "is_digit c" by simp
  have "stoi (dec n) = stoi_digits False (dec n)"
    using c by (simp add: stoi_def d is_digit_not_space)
  moreover have "takeWhile is_digit (dec n) = dec n"
    using dec_digits [of n] by simp
  ultimately show ?thesis
    using assms by (simp add: stoi_digits_def int_min_def)
qed

lemma stoi_bounds: "stoi s = Inr v \<Longrightarrow> int_min \<le> v \<and> v \<le> int_max"
  by (auto simp: stoi_def stoi_digits_def Let_def split: list.splits if_splits)

end
