(* ===== verification/Byte_Queue.thy ===== *)
theory Byte_Queue
  imports Prelude
begin

text \<open>
  The contract the clients of \<open>Buffer\<close> rely on (\<open>HttpResponse\<close>, \<open>HttpContext\<close>,
  \<open>TcpConnection\<close>): a queue of bytes with an invariant, whose abstract value is the list of the
  bytes not read yet. The clients' lemmas are proved once, from the laws only.
\<close>

text \<open>A client's sequence of appends, stopped by the first failure.\<close>

fun put_all :: "('b \<Rightarrow> string \<Rightarrow> 'b res) \<Rightarrow> 'b \<Rightarrow> string list \<Rightarrow> 'b res" where
  "put_all put b [] = Inr b"
| "put_all put b (xs # xss) = bind_res (put b xs) (\<lambda>b'. put_all put b' xss)"

text \<open>
  A client's use of a queue: a list of appends and reads; the run returns what the reads
  delivered, in order, and the queue left.
\<close>

datatype queue_op = Put string | Take nat

fun run_ops :: "('b \<Rightarrow> string \<Rightarrow> 'b res) \<Rightarrow> ('b \<Rightarrow> nat \<Rightarrow> (string \<times> 'b) res) \<Rightarrow>
    'b \<Rightarrow> queue_op list \<Rightarrow> (string \<times> 'b) res" where
  "run_ops put tk b [] = Inr ([], b)"
| "run_ops put tk b (Put xs # ops) = bind_res (put b xs) (\<lambda>b'. run_ops put tk b' ops)"
| "run_ops put tk b (Take n # ops) =
     bind_res (tk b n) (\<lambda>(ys, b'). bind_res (run_ops put tk b' ops) (\<lambda>(zs, b''). Inr (ys @ zs, b'')))"

fun ops_put :: "queue_op list \<Rightarrow> string" where
  "ops_put [] = []"
| "ops_put (Put xs # ops) = xs @ ops_put ops"
| "ops_put (Take n # ops) = ops_put ops"

text \<open>No read asks for more than is there: the reads the code makes are guarded this way.\<close>

fun ops_ok :: "nat \<Rightarrow> queue_op list \<Rightarrow> bool" where
  "ops_ok k [] = True"
| "ops_ok k (Put xs # ops) = ops_ok (k + length xs) ops"
| "ops_ok k (Take n # ops) = (n \<le> k \<and> ops_ok (k - n) ops)"

locale byte_queue =
  fixes inv :: "'b \<Rightarrow> bool"
    and bytes :: "'b \<Rightarrow> string"
    and fits :: "string \<Rightarrow> bool"
    and put :: "'b \<Rightarrow> string \<Rightarrow> 'b res"
    and tk :: "'b \<Rightarrow> nat \<Rightarrow> (string \<times> 'b) res"
  assumes put_ok: "inv b \<Longrightarrow> fits xs \<Longrightarrow>
      \<exists>b'. put b xs = Inr b' \<and> inv b' \<and> bytes b' = bytes b @ xs"
    and tk_ok: "inv b \<Longrightarrow> n \<le> length (bytes b) \<Longrightarrow>
      \<exists>b'. tk b n = Inr (take n (bytes b), b') \<and> inv b' \<and> bytes b' = drop n (bytes b)"
begin

lemma put_all_ok:
  "inv b \<Longrightarrow> \<forall>xs \<in> set xss. fits xs \<Longrightarrow>
     \<exists>b'. put_all put b xss = Inr b' \<and> inv b' \<and> bytes b' = bytes b @ concat xss"
proof (induction xss arbitrary: b)
  case (Cons xs xss)
  then obtain b' where b': "put b xs = Inr b'" "inv b'" "bytes b' = bytes b @ xs"
    using put_ok [of b xs] by auto
  with Cons.IH [of b'] Cons.prems show ?case by auto
qed simp

lemma run_ops_fifo:
  "inv b \<Longrightarrow> ops_ok (length (bytes b)) ops \<Longrightarrow> \<forall>xs. Put xs \<in> set ops \<longrightarrow> fits xs \<Longrightarrow>
     \<exists>out b'. run_ops put tk b ops = Inr (out, b') \<and> inv b' \<and>
       out @ bytes b' = bytes b @ ops_put ops"
proof (induction ops arbitrary: b)
  case (Cons op ops)
  show ?case
  proof (cases op)
    case (Put xs)
    with Cons.prems obtain b' where b': "put b xs = Inr b'" "inv b'" "bytes b' = bytes b @ xs"
      using put_ok [of b xs] by auto
    with Cons.IH [of b'] Cons.prems Put show ?thesis by auto
  next
    case (Take n)
    with Cons.prems obtain b' where
      b': "tk b n = Inr (take n (bytes b), b')" "inv b'" "bytes b' = drop n (bytes b)"
      using tk_ok [of b n] by auto
    with Cons.IH [of b'] Cons.prems Take show ?thesis by fastforce
  qed
qed simp

end

end
