(* ===== verification/Buffer.thy ===== *)
theory Buffer
  imports Byte_Queue
begin

text \<open>
  \<open>mymuduo/net/Buffer.h\<close> and \<open>Buffer.cpp\<close>: a vector of bytes with a reader and a writer index.
  Indices and sizes (\<open>size_t\<close>) are naturals; where the code subtracts pointers and the result can
  be negative its conversion to \<open>size_t\<close> is written out. Every access to the vector is checked:
  outside the vector it is \<open>OutOfBounds\<close>, so that "never fails" is memory safety.
\<close>

section \<open>The vector\<close>

definition vec_read :: "string \<Rightarrow> nat \<Rightarrow> nat \<Rightarrow> string res" where
  "vec_read v i n = (if i + n \<le> length v then Inr (take n (drop i v)) else Inl OutOfBounds)"

definition vec_write :: "string \<Rightarrow> nat \<Rightarrow> string \<Rightarrow> string res" where
  "vec_write v i xs =
     (if i + length xs \<le> length v then Inr (take i v @ xs @ drop (i + length xs) v)
      else Inl OutOfBounds)"

definition vec_resize :: "nat \<Rightarrow> string \<Rightarrow> string" where
  "vec_resize n v = take n v @ replicate (n - length v) NUL"

lemma length_vec_resize [simp]: "length (vec_resize n v) = n"
  by (simp add: vec_resize_def)

section \<open>The buffer and its operations\<close>

record buffer =
  buf_store :: string
  readerIndex :: nat
  writerIndex :: nat

definition kCheapPrepend :: nat where "kCheapPrepend = 8"
definition kInitialSize :: nat where "kInitialSize = 1024"

definition new_buffer :: "nat \<Rightarrow> buffer" where
  "new_buffer initialSize =
     \<lparr>buf_store = replicate (kCheapPrepend + initialSize) NUL,
      readerIndex = kCheapPrepend, writerIndex = kCheapPrepend\<rparr>"

definition readableBytes :: "buffer \<Rightarrow> nat" where
  "readableBytes b = writerIndex b - readerIndex b"

definition writableBytes :: "buffer \<Rightarrow> nat" where
  "writableBytes b = length (buf_store b) - writerIndex b"

definition prependableBytes :: "buffer \<Rightarrow> nat" where
  "prependableBytes b = readerIndex b"

text \<open>The bytes between \<open>peek()\<close> and \<open>beginWrite()\<close>: the abstract value of a buffer.\<close>

definition content :: "buffer \<Rightarrow> string" where
  "content b = take (readableBytes b) (drop (readerIndex b) (buf_store b))"

text \<open>Pointers into the buffer are offsets from the start of the vector.\<close>

definition findCRLF :: "buffer \<Rightarrow> nat option" where
  "findCRLF b = map_option ((+) (readerIndex b)) (search_crlf (content b))"

definition retrieveAll :: "buffer \<Rightarrow> buffer" where
  "retrieveAll b = b\<lparr>readerIndex := kCheapPrepend, writerIndex := kCheapPrepend\<rparr>"

definition retrieve :: "buffer \<Rightarrow> nat \<Rightarrow> buffer" where
  "retrieve b len =
     (if len < readableBytes b then b\<lparr>readerIndex := readerIndex b + len\<rparr> else retrieveAll b)"

definition retrieveUntil :: "buffer \<Rightarrow> int \<Rightarrow> buffer" where
  "retrieveUntil b p =
     (let d = p - int (readerIndex b) in retrieve b (nat (if d < 0 then d + 2 ^ 64 else d)))"

definition retrieveAsString :: "buffer \<Rightarrow> nat \<Rightarrow> (string \<times> buffer) res" where
  "retrieveAsString b len =
     bind_res (vec_read (buf_store b) (readerIndex b) len) (\<lambda>s. Inr (s, retrieve b len))"

definition retrieveAllAsString :: "buffer \<Rightarrow> (string \<times> buffer) res" where
  "retrieveAllAsString b = retrieveAsString b (readableBytes b)"

definition makeSpace :: "buffer \<Rightarrow> nat \<Rightarrow> buffer res" where
  "makeSpace b len =
     (if writableBytes b + prependableBytes b < len + kCheapPrepend
      then Inr (b\<lparr>buf_store := vec_resize (writerIndex b + len) (buf_store b)\<rparr>)
      else
        let readable = readableBytes b in
        bind_res (vec_read (buf_store b) (readerIndex b) readable) (\<lambda>xs.
        bind_res (vec_write (buf_store b) kCheapPrepend xs) (\<lambda>v.
        Inr (b\<lparr>buf_store := v, readerIndex := kCheapPrepend,
               writerIndex := kCheapPrepend + readable\<rparr>))))"

definition ensureWritableBytes :: "buffer \<Rightarrow> nat \<Rightarrow> buffer res" where
  "ensureWritableBytes b len = (if writableBytes b < len then makeSpace b len else Inr b)"

definition append_data :: "buffer \<Rightarrow> string \<Rightarrow> buffer res" where
  "append_data b data =
     bind_res (ensureWritableBytes b (length data)) (\<lambda>b1.
     bind_res (vec_write (buf_store b1) (writerIndex b1) data) (\<lambda>v.
     Inr (b1\<lparr>buf_store := v, writerIndex := writerIndex b1 + length data\<rparr>)))"

text \<open>
  \<open>append(std::string)\<close> keeps the size in an \<open>int\<close>: only as many bytes as the low 32 bits of the
  size say are copied. A negative count becomes a huge \<open>size_t\<close> in \<open>ensureWritableBytes\<close>, where
  \<open>resize\<close> throws, unless the sum wraps around; then the copy is over an invalid range.
\<close>

definition vec_max_size :: nat where "vec_max_size = 2 ^ 63 - 1"

definition append_string :: "buffer \<Rightarrow> string \<Rightarrow> buffer res" where
  "append_string b data =
     (let len = sint (word_of_nat (length data) :: 32 word)
      in if len < 0
         then
           let sz = nat (len + 2 ^ 64)
           in if writableBytes b + prependableBytes b < (sz + kCheapPrepend) mod 2 ^ 64 \<and>
                 vec_max_size < (writerIndex b + sz) mod 2 ^ 64
              then Inl LengthError
              else Inl OutOfBounds
         else append_data b (take (nat len) data))"

section \<open>Reading from and writing to a socket\<close>

datatype errno = EWOULDBLOCK | EPIPE | ECONNRESET | EINTR | EMFILE | EOther nat

text \<open>
  What a system call answers: \<open>readv\<close> either fails or delivers bytes the socket holds (none at the
  end of the stream), never more than the two blocks can take; \<open>write\<close> either fails or accepts a
  number of bytes, never more than it was given.
\<close>

datatype read_outcome = ReadErr errno | ReadData string
datatype write_outcome = WriteErr errno | WriteOk nat

definition extrabuf_size :: nat where "extrabuf_size = 65536"

definition iov_capacity :: "buffer \<Rightarrow> nat" where
  "iov_capacity b =
     writableBytes b + (if writableBytes b < extrabuf_size then extrabuf_size else 0)"

definition readFd :: "buffer \<Rightarrow> read_outcome \<Rightarrow> (buffer \<times> (errno + nat)) res" where
  "readFd b r =
     (let writable = writableBytes b in
      case r of
        ReadErr e \<Rightarrow> Inr (b, Inl e)
      | ReadData avail \<Rightarrow>
          let bs = take (iov_capacity b) avail; n = length bs in
          bind_res (vec_write (buf_store b) (writerIndex b) (take writable bs)) (\<lambda>v.
            if n \<le> writable
            then Inr (b\<lparr>buf_store := v, writerIndex := writerIndex b + n\<rparr>, Inr n)
            else bind_res (append_data (b\<lparr>buf_store := v, writerIndex := length v\<rparr>) (drop writable bs))
                   (\<lambda>b'. Inr (b', Inr n))))"

definition sys_write :: "string \<Rightarrow> write_outcome \<Rightarrow> errno + string" where
  "sys_write data w = (case w of WriteErr e \<Rightarrow> Inl e | WriteOk n \<Rightarrow> Inr (take n data))"

definition writeFd :: "buffer \<Rightarrow> write_outcome \<Rightarrow> (errno + string) res" where
  "writeFd b w =
     bind_res (vec_read (buf_store b) (readerIndex b) (readableBytes b)) (\<lambda>data.
     Inr (sys_write data w))"

section \<open>The invariant and what the operations do to the content\<close>

definition buf_inv :: "buffer \<Rightarrow> bool" where
  "buf_inv b \<longleftrightarrow> kCheapPrepend \<le> readerIndex b \<and> readerIndex b \<le> writerIndex b \<and>
     writerIndex b \<le> length (buf_store b)"

lemmas buffer_size_defs = readableBytes_def writableBytes_def prependableBytes_def

lemma contentI:
  "buf_store b = pre @ xs @ post \<Longrightarrow> readerIndex b = length pre \<Longrightarrow>
     writerIndex b = length pre + length xs \<Longrightarrow> content b = xs"
  by (simp add: content_def readableBytes_def)

lemma new_buffer_inv [inv_intro]: "buf_inv (new_buffer n)"
  by (simp add: buf_inv_def new_buffer_def)

lemma new_buffer_content [abs_simp]: "content (new_buffer n) = []"
  by (simp add: content_def new_buffer_def readableBytes_def)

lemma length_content: "buf_inv b \<Longrightarrow> length (content b) = readableBytes b"
  by (auto simp: buf_inv_def content_def readableBytes_def)

lemma content_empty_iff: "buf_inv b \<Longrightarrow> content b = [] \<longleftrightarrow> readableBytes b = 0"
  by (simp add: length_content flip: length_0_conv)

lemma store_split:
  "buf_inv b \<Longrightarrow> buf_store b =
     take (readerIndex b) (buf_store b) @ content b @ drop (writerIndex b) (buf_store b)"
proof -
  assume "buf_inv b"
  then have "writerIndex b = readableBytes b + readerIndex b"
    by (simp add: buf_inv_def readableBytes_def)
  then have "drop (readerIndex b) (buf_store b) = content b @ drop (writerIndex b) (buf_store b)"
    by (metis append_take_drop_id content_def drop_drop)
  then show ?thesis by (metis append_take_drop_id)
qed

text \<open>Reading inside the readable bytes.\<close>

lemma vec_read_content:
  "buf_inv b \<Longrightarrow> n \<le> readableBytes b \<Longrightarrow>
     vec_read (buf_store b) (readerIndex b) n = Inr (take n (content b))"
  by (auto simp: vec_read_def content_def buf_inv_def readableBytes_def min_absorb1)

lemma retrieve_inv [inv_intro]: "buf_inv b \<Longrightarrow> buf_inv (retrieve b n)"
  by (auto simp: buf_inv_def retrieve_def retrieveAll_def readableBytes_def)

lemma retrieve_content [abs_simp]: "buf_inv b \<Longrightarrow> content (retrieve b n) = drop n (content b)"
  by (auto simp: buf_inv_def retrieve_def retrieveAll_def content_def readableBytes_def
      drop_take add.commute)

lemma retrieveUntil_ahead:
  "retrieveUntil b (int (readerIndex b) + int n) = retrieve b n"
  by (simp add: retrieveUntil_def)

lemma retrieveAsString_ok:
  "buf_inv b \<Longrightarrow> n \<le> length (content b) \<Longrightarrow>
     retrieveAsString b n = Inr (take n (content b), retrieve b n)"
  by (simp add: retrieveAsString_def vec_read_content length_content)

lemma retrieveAllAsString_ok [abs_simp]:
  "buf_inv b \<Longrightarrow> retrieveAllAsString b = Inr (content b, retrieveAll b)"
  by (simp add: retrieveAllAsString_def retrieveAsString_ok length_content retrieve_def
      flip: length_content)

lemma findCRLF_Some:
  "buf_inv b \<Longrightarrow> findCRLF b = Some p \<Longrightarrow>
     \<exists>k. search_crlf (content b) = Some k \<and> p = readerIndex b + k \<and> p + 2 \<le> writerIndex b"
  using search_crlf_Some [of "content b"]
  by (auto simp: findCRLF_def length_content readableBytes_def buf_inv_def)

section \<open>Appending\<close>

text \<open>Making room changes neither the content nor the invariant, and there is room afterwards.\<close>

lemma makeSpace_grow:
  assumes "buf_inv b" "writableBytes b < len"
  shows "let b' = b\<lparr>buf_store := vec_resize (writerIndex b + len) (buf_store b)\<rparr>
    in buf_inv b' \<and> content b' = content b \<and> len \<le> writableBytes b'"
  using assms by (auto simp: buf_inv_def content_def buffer_size_defs vec_resize_def Let_def)

lemma makeSpace_move:
  assumes "buf_inv b" "len + kCheapPrepend \<le> writableBytes b + prependableBytes b"
  shows "\<exists>b'. makeSpace b len = Inr b' \<and> buf_inv b' \<and> content b' = content b \<and>
    len \<le> writableBytes b' \<and> length (buf_store b') = length (buf_store b)"
proof -
  have rd: "vec_read (buf_store b) (readerIndex b) (readableBytes b) = Inr (content b)"
    using assms(1) vec_read_content [of b "readableBytes b"] by (simp add: length_content)
  have fit: "kCheapPrepend + length (content b) \<le> length (buf_store b)"
    using assms(1) by (auto simp: length_content buf_inv_def readableBytes_def)
  let ?v = "take kCheapPrepend (buf_store b) @ content b @
    drop (kCheapPrepend + length (content b)) (buf_store b)"
  let ?b = "b\<lparr>buf_store := ?v, readerIndex := kCheapPrepend,
    writerIndex := kCheapPrepend + readableBytes b\<rparr>"
  have "makeSpace b len = Inr ?b"
    using assms(2) rd fit by (simp add: makeSpace_def vec_write_def Let_def)
  moreover have "buf_inv ?b" "length (buf_store ?b) = length (buf_store b)"
    using fit assms(1) by (auto simp: buf_inv_def length_content)
  moreover have "content ?b = content b"
    using fit assms(1)
    by (intro contentI [where pre = "take kCheapPrepend (buf_store b)"
          and post = "drop (kCheapPrepend + length (content b)) (buf_store b)"])
      (auto simp: length_content)
  moreover have "len \<le> writableBytes ?b"
    using assms fit by (auto simp: buf_inv_def buffer_size_defs length_content)
  ultimately show ?thesis by blast
qed

lemma ensureWritableBytes_ok:
  assumes "buf_inv b"
  shows "\<exists>b'. ensureWritableBytes b len = Inr b' \<and> buf_inv b' \<and> content b' = content b \<and>
    len \<le> writableBytes b'"
proof (cases "writableBytes b < len")
  case True
  show ?thesis
  proof (cases "writableBytes b + prependableBytes b < len + kCheapPrepend")
    case grow: True
    with True makeSpace_grow [OF assms True] show ?thesis
      by (simp add: ensureWritableBytes_def makeSpace_def Let_def)
  next
    case False
    with True makeSpace_move [OF assms, of len] show ?thesis
      by (auto simp: ensureWritableBytes_def)
  qed
qed (use assms in \<open>simp add: ensureWritableBytes_def\<close>)

lemma write_at_end:
  assumes "buf_inv b" "length data \<le> writableBytes b"
  shows "\<exists>v. vec_write (buf_store b) (writerIndex b) data = Inr v \<and> length v = length (buf_store b) \<and>
    buf_inv (b\<lparr>buf_store := v, writerIndex := writerIndex b + length data\<rparr>) \<and>
    content (b\<lparr>buf_store := v, writerIndex := writerIndex b + length data\<rparr>) = content b @ data"
proof -
  let ?v = "take (writerIndex b) (buf_store b) @ data @
    drop (writerIndex b + length data) (buf_store b)"
  let ?b = "b\<lparr>buf_store := ?v, writerIndex := writerIndex b + length data\<rparr>"
  from assms have le: "writerIndex b + length data \<le> length (buf_store b)"
    by (auto simp: buf_inv_def writableBytes_def)
  then have "vec_write (buf_store b) (writerIndex b) data = Inr ?v"
    by (simp add: vec_write_def)
  moreover from le have "length ?v = length (buf_store b)" by simp
  moreover from assms(1) le have "buf_inv ?b" by (simp add: buf_inv_def)
  moreover have "content ?b = content b @ data"
  proof -
    have "drop (readerIndex b) ?v = content b @ data @
        drop (writerIndex b + length data) (buf_store b)"
      using assms(1) by (simp add: buf_inv_def content_def readableBytes_def drop_take)
    then show ?thesis
      using assms(1) length_content [OF assms(1)]
      by (simp add: content_def [of ?b] readableBytes_def buf_inv_def)
  qed
  ultimately show ?thesis by blast
qed

lemma append_data_ok:
  assumes "buf_inv b"
  shows "\<exists>b'. append_data b xs = Inr b' \<and> buf_inv b' \<and> content b' = content b @ xs"
proof -
  obtain b1 where b1: "ensureWritableBytes b (length xs) = Inr b1" "buf_inv b1"
      "content b1 = content b" "length xs \<le> writableBytes b1"
    using ensureWritableBytes_ok [OF assms] by blast
  with write_at_end [of b1 xs] show ?thesis by (auto simp: append_data_def)
qed

lemma append_data_eq:
  "buf_inv b \<Longrightarrow> append_data b xs = Inr b' \<Longrightarrow> buf_inv b' \<and> content b' = content b @ xs"
  using append_data_ok [of b xs] by auto

lemma small_int_length:
  "n < 2 ^ 31 \<Longrightarrow> sint (word_of_nat n :: 32 word) = int n"
  by (simp add: signed_of_nat signed_take_bit_int_eq_self)

lemma int_length_high:
  assumes "k < 2 ^ 31" "n = 2 ^ 31 + k"
  shows "sint (word_of_nat n :: 32 word) = int k - 2 ^ 31"
proof -
  have "(2 ^ 31 :: 32 word) = - (2 ^ 31)" by simp
  then have "(word_of_nat n :: 32 word) = word_of_int (int k - 2 ^ 31)"
    using assms(2) by simp
  then have "sint (word_of_nat n :: 32 word) = signed_take_bit 31 (int k - 2 ^ 31)"
    by (simp only: signed_of_int) simp
  then show ?thesis using assms(1) by (simp add: signed_take_bit_int_eq_self)
qed

lemma int_length_wrapped:
  assumes "k < 2 ^ 31" "n = 2 ^ 32 + k"
  shows "sint (word_of_nat n :: 32 word) = int k"
proof -
  have "(2 ^ 32 :: 32 word) = 0" by simp
  then have "(word_of_nat n :: 32 word) = word_of_nat k" using assms(2) by simp
  then show ?thesis using assms(1) by (simp only: small_int_length)
qed

lemma append_string_small:
  "length xs < 2 ^ 31 \<Longrightarrow> append_string b xs = append_data b xs"
  by (simp add: append_string_def small_int_length)

lemma readFd_ok:
  assumes "buf_inv b"
  shows "\<exists>b' . readFd b (ReadData avail) = Inr (b', Inr (length (take (iov_capacity b) avail))) \<and>
    buf_inv b' \<and> content b' = content b @ take (iov_capacity b) avail"
proof -
  define bs where "bs = take (iov_capacity b) avail"
  let ?d = "take (writableBytes b) bs"
  obtain v where v: "vec_write (buf_store b) (writerIndex b) ?d = Inr v"
      "length v = length (buf_store b)"
    and b1: "buf_inv (b\<lparr>buf_store := v, writerIndex := writerIndex b + length ?d\<rparr>)"
    and c1: "content (b\<lparr>buf_store := v, writerIndex := writerIndex b + length ?d\<rparr>) = content b @ ?d"
    using write_at_end [OF assms, of ?d] by auto
  show ?thesis
  proof (cases "length bs \<le> writableBytes b")
    case True
    with v b1 c1 show ?thesis by (simp add: readFd_def Let_def flip: bs_def)
  next
    case False
    then have "writerIndex b + length ?d = length v"
      using assms v(2) by (auto simp: buf_inv_def writableBytes_def)
    with b1 c1 append_data_ok [of "b\<lparr>buf_store := v, writerIndex := length v\<rparr>" "drop (writableBytes b) bs"]
    obtain b' where "append_data (b\<lparr>buf_store := v, writerIndex := length v\<rparr>) (drop (writableBytes b) bs) = Inr b'"
      "buf_inv b'" "content b' = content b @ bs" by auto
    with False v show ?thesis by (simp add: readFd_def Let_def flip: bs_def)
  qed
qed

lemma readFd_inv [inv_intro]: "buf_inv b \<Longrightarrow> readFd b r = Inr (b', n) \<Longrightarrow> buf_inv b'"
proof (cases r)
  case (ReadErr e)
  then show "buf_inv b \<Longrightarrow> readFd b r = Inr (b', n) \<Longrightarrow> buf_inv b'" by (simp add: readFd_def)
next
  case (ReadData avail)
  then show "buf_inv b \<Longrightarrow> readFd b r = Inr (b', n) \<Longrightarrow> buf_inv b'"
    using readFd_ok [of b avail] by auto
qed

lemma readFd_total: "buf_inv b \<Longrightarrow> \<exists>b' n. readFd b r = Inr (b', n) \<and> buf_inv b'"
proof (cases r)
  case (ReadErr e)
  then show "buf_inv b \<Longrightarrow> \<exists>b' n. readFd b r = Inr (b', n) \<and> buf_inv b'" by (simp add: readFd_def)
next
  case (ReadData avail)
  then show "buf_inv b \<Longrightarrow> \<exists>b' n. readFd b r = Inr (b', n) \<and> buf_inv b'"
    using readFd_ok [of b avail] by blast
qed

lemma writeFd_ok:
  "buf_inv b \<Longrightarrow> writeFd b w = Inr (sys_write (content b) w)"
  using vec_read_content [of b "readableBytes b"]
  by (simp add: writeFd_def length_content)

section \<open>Growth\<close>

text \<open>
  The vector is enlarged only when the content, the new bytes and the eight bytes in front do not
  fit together; otherwise the content is moved to the front and the size stays.
\<close>

lemma append_data_size:
  assumes "buf_inv b" "append_data b xs = Inr b'"
  shows "length (buf_store b') =
    (if length (buf_store b) < kCheapPrepend + readableBytes b + length xs
     then writerIndex b + length xs else length (buf_store b))"
proof -
  obtain b1 where e: "ensureWritableBytes b (length xs) = Inr b1"
      and b1: "buf_inv b1" "length xs \<le> writableBytes b1"
    using ensureWritableBytes_ok [OF assms(1)] by blast
  with write_at_end [of b1 xs] assms(2) have same: "length (buf_store b') = length (buf_store b1)"
    by (auto simp: append_data_def)
  show ?thesis
  proof (cases "length (buf_store b) < kCheapPrepend + readableBytes b + length xs")
    case True
    then have "writableBytes b < length xs"
        "writableBytes b + prependableBytes b < length xs + kCheapPrepend"
      using assms(1) by (auto simp: buf_inv_def buffer_size_defs)
    with e have "buf_store b1 = vec_resize (writerIndex b + length xs) (buf_store b)"
      by (auto simp: ensureWritableBytes_def makeSpace_def)
    with True same show ?thesis by simp
  next
    case False
    then have "length xs + kCheapPrepend \<le> writableBytes b + prependableBytes b"
      using assms(1) by (auto simp: buf_inv_def buffer_size_defs)
    with makeSpace_move [OF assms(1), of "length xs"] e have "length (buf_store b1) = length (buf_store b)"
      by (auto simp: ensureWritableBytes_def split: if_splits)
    with False same show ?thesis by simp
  qed
qed

section \<open>The buffer is a byte queue\<close>

interpretation raw_buf: byte_queue buf_inv content "\<lambda>_. True" append_data retrieveAsString
  by unfold_locales
    (auto simp: append_data_ok retrieveAsString_ok abs_simp intro: inv_intro)

interpretation str_buf: byte_queue buf_inv content "\<lambda>xs. length xs < 2 ^ 31" append_string retrieveAsString
  by unfold_locales
    (auto simp: append_string_small append_data_ok retrieveAsString_ok abs_simp intro: inv_intro)

text \<open>A buffer that holds given bytes, for examples.\<close>

definition buffer_of :: "string \<Rightarrow> buffer" where
  "buffer_of s = \<lparr>buf_store = replicate kCheapPrepend NUL @ s, readerIndex = kCheapPrepend,
     writerIndex = kCheapPrepend + length s\<rparr>"

lemma buffer_of_inv [inv_intro, simp]: "buf_inv (buffer_of s)"
  by (simp add: buf_inv_def buffer_of_def)

lemma content_buffer_of [abs_simp, simp]: "content (buffer_of s) = s"
  by (rule contentI [where pre = "replicate kCheapPrepend NUL" and post = "[]"])
    (simp_all add: buffer_of_def)

lemma buffer_of_simps [simp]:
  "readerIndex (buffer_of s) = kCheapPrepend" "writerIndex (buffer_of s) = kCheapPrepend + length s"
  "length (buf_store (buffer_of s)) = kCheapPrepend + length s" "readableBytes (buffer_of s) = length s"
  by (simp_all add: buffer_of_def readableBytes_def)

section \<open>Properties\<close>

text \<open>Appending to a well-formed buffer never leaves the vector: it succeeds, keeps the
  indices in order with at least eight bytes in front, adds exactly the given bytes behind the
  unread ones, and enlarges the vector only when the unread bytes, the new ones and the eight
  bytes in front do not fit together.\<close>

theorem buffer_append_correct:
  assumes "buf_inv b"
  shows "\<exists>b'. append_data b xs = Inr b' \<and> buf_inv b' \<and> content b' = content b @ xs \<and>
    length (buf_store b') =
      (if length (buf_store b) < kCheapPrepend + readableBytes b + length xs
       then writerIndex b + length xs else length (buf_store b))"
  using append_data_ok [OF assms, of xs] append_data_size [OF assms, of xs] by blast

theorem buffer_append_correct_witness:
  "buf_inv (buffer_of ''GET'') \<and> (\<exists>b'. append_data (buffer_of ''GET'') ''/x'' = Inr b' \<and>
     content b' = ''GET/x'' \<and> length (buf_store b') = 13)"
  using buffer_append_correct [of "buffer_of ''GET''" "''/x''"]
  by (auto simp: kCheapPrepend_def)

text \<open>C17. A buffer is a first-in first-out byte queue: for every sequence of appends and guarded
  reads on a new buffer, all operations succeed and what the reads delivered, followed by what is
  still unread, is exactly what was appended, in order.\<close>

theorem buffer_fifo:
  assumes "ops_ok 0 ops"
  shows "\<exists>out b'. run_ops append_data retrieveAsString (new_buffer n) ops = Inr (out, b') \<and>
    buf_inv b' \<and> out @ content b' = ops_put ops"
  using raw_buf.run_ops_fifo [OF new_buffer_inv [of n], of ops] assms by (simp add: abs_simp)

theorem buffer_fifo_witness:
  "ops_ok 0 [Put ''abc'', Take 2, Put ''de'', Take 3] \<and>
   (\<exists>out b'. run_ops append_data retrieveAsString (new_buffer 2)
      [Put ''abc'', Take 2, Put ''de'', Take 3] = Inr (out, b') \<and> out @ content b' = ''abcde'')"
  using buffer_fifo [of "[Put ''abc'', Take 2, Put ''de'', Take 3]" 2] by auto

text \<open>C35. Reading from a socket loses nothing: the buffer takes the first bytes the socket
  offers, as many as the free part of the vector and the extra block hold (never fewer than
  65536 of them), appends exactly those, even when they overflow into the extra block, and reports
  their number; a failed read changes nothing.\<close>

theorem readFd_lossless:
  assumes "buf_inv b"
  shows "(\<exists>b' k. readFd b (ReadData avail) = Inr (b', Inr k) \<and> buf_inv b' \<and>
      k = min (length avail) (iov_capacity b) \<and> content b' = content b @ take k avail) \<and>
    65536 \<le> iov_capacity b \<and> readFd b (ReadErr e) = Inr (b, Inl e)"
proof -
  have "take (min (length avail) (iov_capacity b)) avail = take (iov_capacity b) avail"
    by (simp add: min_def)
  with readFd_ok [OF assms, of avail] show ?thesis
    by (auto simp: readFd_def iov_capacity_def extrabuf_size_def min.commute)
qed

theorem readFd_lossless_witness:
  "buf_inv (buffer_of ''ab'') \<and> (\<exists>b' k. readFd (buffer_of ''ab'') (ReadData ''xyz'') = Inr (b', Inr k) \<and>
     content b' = ''ab'' @ take k ''xyz'')"
  using readFd_lossless [of "buffer_of ''ab''" "''xyz''" EINTR] by auto

text \<open>\<open>append(std::string)\<close> keeps the size in an \<open>int\<close>: below 2 GiB it appends the whole
  string, from 2 GiB to 4 GiB the count is negative and the call throws or copies over an invalid range, and
  past 4 GiB it silently appends a prefix only.\<close>

theorem append_string_int_size:
  assumes "buf_inv b" "k < 2 ^ 31"
  shows "(length xs = k \<longrightarrow> (\<exists>b'. append_string b xs = Inr b' \<and> content b' = content b @ xs)) \<and>
    (length xs = 2 ^ 31 + k \<longrightarrow> (\<exists>e. append_string b xs = Inl e)) \<and>
    (length xs = 2 ^ 32 + k \<longrightarrow>
       (\<exists>b'. append_string b xs = Inr b' \<and> content b' = content b @ take k xs))"
proof (intro conjI impI)
  assume "length xs = k"
  with assms append_data_ok [OF assms(1), of xs]
  show "\<exists>b'. append_string b xs = Inr b' \<and> content b' = content b @ xs"
    by (auto simp: append_string_small)
next
  assume "length xs = 2 ^ 31 + k"
  then have "sint (word_of_nat (length xs) :: 32 word) = int k - 2 ^ 31"
    using assms(2) by (intro int_length_high)
  with assms(2) show "\<exists>e. append_string b xs = Inl e" unfolding append_string_def Let_def by auto
next
  assume len: "length xs = 2 ^ 32 + k"
  have "append_string b xs = append_data b (take k xs)"
    unfolding append_string_def using int_length_wrapped [OF assms(2) len] by simp
  with append_data_ok [OF assms(1), of "take k xs"]
  show "\<exists>b'. append_string b xs = Inr b' \<and> content b' = content b @ take k xs" by auto
qed

theorem append_string_int_size_witness:
  "\<exists>e. append_string (buffer_of []) (replicate (2 ^ 31 + 7) NUL) = Inl e"
  using append_string_int_size [of "buffer_of []" 7 "replicate (2 ^ 31 + 7) NUL"] by simp

end
