(* ===== verification/Std_Map.thy ===== *)
theory Std_Map
  imports Prelude
begin

text \<open>
  \<open>std::map\<close> as its sorted list of entries (the order in which a range-for visits them), with
  \<open>operator[]\<close> followed by an assignment as an upsert, and the contract its users rely on.
\<close>

type_synonym ('k, 'v) std_map = "('k \<times> 'v) list"

fun smap_put :: "'k::linorder \<Rightarrow> 'v \<Rightarrow> ('k, 'v) std_map \<Rightarrow> ('k, 'v) std_map" where
  "smap_put k v [] = [(k, v)]"
| "smap_put k v ((k', v') # m) =
     (if k < k' then (k, v) # (k', v') # m
      else if k = k' then (k, v) # m
      else (k', v') # smap_put k v m)"

definition smap_get :: "('k, 'v) std_map \<Rightarrow> 'k \<Rightarrow> 'v option" where
  "smap_get m k = map_of m k"

definition smap_ok :: "('k::linorder, 'v) std_map \<Rightarrow> bool" where
  "smap_ok m \<longleftrightarrow> sorted_wrt (<) (map fst m)"

lemma smap_get_put [abs_simp]: "smap_get (smap_put k v m) = (smap_get m)(k \<mapsto> v)"
  by (induction k v m rule: smap_put.induct) (auto simp: smap_get_def)

lemma smap_put_keys: "fst ` set (smap_put k v m) = insert k (fst ` set m)"
  by (induction k v m rule: smap_put.induct) auto

lemma smap_put_ok [inv_intro]: "smap_ok m \<Longrightarrow> smap_ok (smap_put k v m)"
proof (induction k v m rule: smap_put.induct)
  case (2 k v k' v' m)
  have "fst ` set (smap_put k v m) = insert k (fst ` set m)" by (rule smap_put_keys)
  with 2 show ?case by (auto simp: smap_ok_def)
qed (simp add: smap_ok_def)

text \<open>A key-value store: what a lookup sees after an upsert, and the last of several wins.\<close>

fun put_list :: "('k \<Rightarrow> 'v \<Rightarrow> 'm \<Rightarrow> 'm) \<Rightarrow> ('k \<times> 'v) list \<Rightarrow> 'm \<Rightarrow> 'm" where
  "put_list upd [] m = m"
| "put_list upd ((k, v) # kvs) m = put_list upd kvs (upd k v m)"

locale kv_store =
  fixes ok :: "'m \<Rightarrow> bool"
    and look :: "'m \<Rightarrow> 'k \<Rightarrow> 'v option"
    and upd :: "'k \<Rightarrow> 'v \<Rightarrow> 'm \<Rightarrow> 'm"
  assumes look_upd: "look (upd k v m) = (look m)(k \<mapsto> v)"
    and ok_upd: "ok m \<Longrightarrow> ok (upd k v m)"
begin

lemma ok_put_list: "ok m \<Longrightarrow> ok (put_list upd kvs m)"
  by (induction kvs arbitrary: m) (auto simp: ok_upd)

lemma look_put_list: "look (put_list upd kvs m) = look m ++ map_of (rev kvs)"
  by (induction kvs arbitrary: m) (auto simp: look_upd fun_eq_iff map_add_def split: option.splits)

end

interpretation smap: kv_store smap_ok smap_get smap_put
  by unfold_locales (auto simp: abs_simp intro: inv_intro)

end
