(* ===== verification/HttpRequest.thy ===== *)
theory HttpRequest
  imports Std_Map
begin

text \<open>
  \<open>mymuduo/http/HttpRequest.h\<close>: the request object the parser fills in. A pair of pointers into
  the buffer is the string between them.
\<close>

datatype Method = kInvalid | kGet | kPost | kHead | kPut | kDelete
datatype Version = kUnknownVersion | kHttp10 | kHttp11

record http_request =
  req_method :: Method
  req_version :: Version
  req_path :: string
  req_query :: string
  req_body :: string
  req_time :: int
  req_headers :: "(string, string) std_map"

definition new_request :: http_request where
  "new_request = \<lparr>req_method = kInvalid, req_version = kUnknownVersion, req_path = [],
     req_query = [], req_body = [], req_time = 0, req_headers = []\<rparr>"

definition setVersion :: "http_request \<Rightarrow> Version \<Rightarrow> http_request" where
  "setVersion r v = r\<lparr>req_version := v\<rparr>"

text \<open>\<open>setMethod\<close> begins with \<open>assert(method_ == kInvalid)\<close>.\<close>

definition setMethod :: "http_request \<Rightarrow> string \<Rightarrow> (http_request \<times> bool) res" where
  "setMethod r m =
     (if req_method r \<noteq> kInvalid then Inl AssertFailed
      else
        let k = (if m = ''GET'' then kGet
                 else if m = ''POST'' then kPost
                 else if m = ''HEAD'' then kHead
                 else if m = ''PUT'' then kPut
                 else if m = ''DELETE'' then kDelete
                 else kInvalid)
        in Inr (r\<lparr>req_method := k\<rparr>, k \<noteq> kInvalid))"

fun methodString :: "Method \<Rightarrow> string" where
  "methodString kGet = ''GET''"
| "methodString kPost = ''POST''"
| "methodString kHead = ''HEAD''"
| "methodString kPut = ''PUT''"
| "methodString kDelete = ''DELETE''"
| "methodString kInvalid = ''UNKNOWN''"

definition setPath :: "http_request \<Rightarrow> string \<Rightarrow> http_request" where
  "setPath r s = r\<lparr>req_path := s\<rparr>"

definition setQuery :: "http_request \<Rightarrow> string \<Rightarrow> http_request" where
  "setQuery r s = r\<lparr>req_query := s\<rparr>"

definition setBody :: "http_request \<Rightarrow> string \<Rightarrow> http_request" where
  "setBody r s = r\<lparr>req_body := s\<rparr>"

definition setReceiveTime :: "http_request \<Rightarrow> int \<Rightarrow> http_request" where
  "setReceiveTime r t = r\<lparr>req_time := t\<rparr>"

text \<open>The two loops of \<open>addHeader\<close>: skip leading white space, drop trailing white space.\<close>

definition trim :: "string \<Rightarrow> string" where
  "trim v = rev (dropWhile is_space (rev (dropWhile is_space v)))"

definition addHeader :: "http_request \<Rightarrow> string \<Rightarrow> string \<Rightarrow> http_request" where
  "addHeader r field v = r\<lparr>req_headers := smap_put field (trim v) (req_headers r)\<rparr>"

text \<open>A missing header reads as the empty string.\<close>

definition getHeader :: "http_request \<Rightarrow> string \<Rightarrow> string" where
  "getHeader r field = (case smap_get (req_headers r) field of None \<Rightarrow> [] | Some v \<Rightarrow> v)"

text \<open>\<open>swap\<close> exchanges every field.\<close>

definition swap_request :: "http_request \<Rightarrow> http_request \<Rightarrow> http_request \<times> http_request" where
  "swap_request r s =
     (r\<lparr>req_method := req_method s, req_version := req_version s, req_path := req_path s,
        req_query := req_query s, req_body := req_body s, req_time := req_time s,
        req_headers := req_headers s\<rparr>,
      s\<lparr>req_method := req_method r, req_version := req_version r, req_path := req_path r,
        req_query := req_query r, req_body := req_body r, req_time := req_time r,
        req_headers := req_headers r\<rparr>)"

section \<open>Lemmas\<close>

lemmas request_setters = setVersion_def setPath_def setQuery_def setBody_def setReceiveTime_def

lemma setMethod_ok:
  "req_method r = kInvalid \<Longrightarrow> m \<noteq> kInvalid \<Longrightarrow>
     setMethod r (methodString m) = Inr (r\<lparr>req_method := m\<rparr>, True)"
  by (cases m) (auto simp: setMethod_def)

lemma setMethod_eq:
  "setMethod r s = Inr (r', ok) \<Longrightarrow> req_method r = kInvalid \<and>
     r' = r\<lparr>req_method := req_method r'\<rparr> \<and> ok = (req_method r' \<noteq> kInvalid) \<and>
     (ok \<longrightarrow> s = methodString (req_method r'))"
  by (auto simp: setMethod_def Let_def split: if_splits)

lemma methodString_no_space [simp]: "SP \<notin> set (methodString m)" "CR \<notin> set (methodString m)"
  by (cases m; simp)+

lemma swap_request_eq: "swap_request r s = (s, r)"
  by (simp add: swap_request_def)

lemma dropWhile_hd: "dropWhile P xs = [] \<or> \<not> P (hd (dropWhile P xs))"
  by (induction xs) auto

lemma dropWhile_id: "xs = [] \<or> \<not> P (hd xs) \<Longrightarrow> dropWhile P xs = xs"
  by (cases xs) auto

lemma trim_id:
  "v = [] \<or> \<not> is_space (hd v) \<and> \<not> is_space (last v) \<Longrightarrow> trim v = v"
  by (cases "v = []") (simp_all add: trim_def dropWhile_id hd_rev)

text \<open>A trimmed value neither starts nor ends with white space.\<close>

lemma trim_trimmed:
  "trim v = [] \<or> \<not> is_space (hd (trim v)) \<and> \<not> is_space (last (trim v))"
proof -
  define w where "w = dropWhile is_space v"
  define u where "u = dropWhile is_space (rev w)"
  have t: "trim v = rev u" by (simp add: trim_def w_def u_def)
  show ?thesis
  proof (cases "u = []")
    case False
    then have "\<not> is_space (hd u)" using dropWhile_hd [of is_space "rev w"] unfolding u_def by blast
    moreover obtain z where "rev w = z @ u" by (metis takeWhile_dropWhile_id u_def)
    then have "w = rev u @ rev z" by (metis rev_append rev_rev_ident)
    then have "hd (rev u) = hd w" "w \<noteq> []" using False by auto
    moreover have "\<not> is_space (hd w)" using dropWhile_hd [of is_space v] \<open>w \<noteq> []\<close> unfolding w_def by blast
    ultimately show ?thesis by (simp add: t last_rev)
  qed (simp add: t)
qed

lemma getHeader_addHeader [abs_simp]:
  "getHeader (addHeader r f v) g = (if g = f then trim v else getHeader r g)"
  by (simp add: getHeader_def addHeader_def abs_simp)

lemma addHeader_fields [simp]:
  "req_method (addHeader r f v) = req_method r" "req_version (addHeader r f v) = req_version r"
  "req_path (addHeader r f v) = req_path r" "req_query (addHeader r f v) = req_query r"
  "req_body (addHeader r f v) = req_body r" "req_time (addHeader r f v) = req_time r"
  by (simp_all add: addHeader_def)

lemma addHeader_ok [inv_intro]:
  "smap_ok (req_headers r) \<Longrightarrow> smap_ok (req_headers (addHeader r f v))"
  by (simp add: addHeader_def inv_intro)

end
