(* ===== verification/HttpContext.thy ===== *)
theory HttpContext
  imports Buffer HttpRequest
begin

text \<open>
  \<open>mymuduo/http/HttpContext.h\<close> and \<open>HttpContext.cpp\<close>: the parser state machine that runs over
  the input buffer of a connection, its specification on byte strings, and what relates the two.
\<close>

section \<open>The parser as written\<close>

datatype HttpRequestParseState = kExpectRequestLine | kExpectHeaders | kExpectBody | kGotAll

record http_context =
  ctx_state :: HttpRequestParseState
  ctx_request :: http_request

definition new_context :: http_context where
  "new_context = \<lparr>ctx_state = kExpectRequestLine, ctx_request = new_request\<rparr>"

definition gotAll :: "http_context \<Rightarrow> bool" where
  "gotAll c \<longleftrightarrow> ctx_state c = kGotAll"

definition reset_context :: "http_context \<Rightarrow> http_context" where
  "reset_context c = c\<lparr>ctx_state := kExpectRequestLine,
     ctx_request := fst (swap_request (ctx_request c) new_request)\<rparr>"

definition processRequestLine :: "http_request \<Rightarrow> string \<Rightarrow> (http_request \<times> bool) res" where
  "processRequestLine r line =
     (case find_char SP line of
        None \<Rightarrow> Inr (r, False)
      | Some (m, rest) \<Rightarrow>
          bind_res (setMethod r m) (\<lambda>(r1, known).
            if \<not> known then Inr (r1, False)
            else
              (case find_char SP rest of
                 None \<Rightarrow> Inr (r1, False)
               | Some (url, ver) \<Rightarrow>
                   let r2 = (case find_char (CHR ''?'') url of
                               Some (p, q) \<Rightarrow> setQuery (setPath r1 p) (CHR ''?'' # q)
                             | None \<Rightarrow> setPath r1 url)
                   in if length ver = 8 \<and> butlast ver = ''HTTP/1.''
                      then if last ver = CHR ''1'' then Inr (setVersion r2 kHttp11, True)
                           else if last ver = CHR ''0'' then Inr (setVersion r2 kHttp10, True)
                           else Inr (r2, False)
                      else Inr (r2, False))))"

text \<open>
  \<open>setBody(peek(), peek() + contentlen)\<close>: a negative length makes \<open>std::string::assign\<close> throw;
  a length beyond the received bytes reads on in the vector.
\<close>

definition read_body :: "buffer \<Rightarrow> int \<Rightarrow> string res" where
  "read_body b n =
     (if n < 0 then Inl LengthError else vec_read (buf_store b) (readerIndex b) (nat n))"

text \<open>
  The loop of \<open>parseRequest\<close>. \<open>None\<close> is a loop that never ends: in state \<open>kGotAll\<close> no branch
  is taken and \<open>hasMore\<close> stays true.
\<close>

partial_function (option) parse_loop ::
    "http_context \<Rightarrow> buffer \<Rightarrow> int \<Rightarrow> (bool \<times> http_context \<times> buffer) res option" where
  "parse_loop c b t =
     (if ctx_state c = kExpectRequestLine then
        (case findCRLF b of
           None \<Rightarrow> Some (Inr (True, c, b))
         | Some p \<Rightarrow>
             (case bind_res (vec_read (buf_store b) (readerIndex b) (p - readerIndex b))
                     (processRequestLine (ctx_request c)) of
                Inl e \<Rightarrow> Some (Inl e)
              | Inr (r, ok) \<Rightarrow>
                  if ok
                  then parse_loop
                         (c\<lparr>ctx_request := setReceiveTime r t, ctx_state := kExpectHeaders\<rparr>)
                         (retrieveUntil b (int p + 2)) t
                  else Some (Inr (False, c\<lparr>ctx_request := r\<rparr>, b))))
      else if ctx_state c = kExpectHeaders then
        (case findCRLF b of
           None \<Rightarrow> Some (Inr (True, c, b))
         | Some p \<Rightarrow>
             (case vec_read (buf_store b) (readerIndex b) (p - readerIndex b) of
                Inl e \<Rightarrow> Some (Inl e)
              | Inr line \<Rightarrow>
                  (case find_char (CHR '':'') line of
                     Some (field, v) \<Rightarrow>
                       parse_loop (c\<lparr>ctx_request := addHeader (ctx_request c) field v\<rparr>)
                         (retrieveUntil b (int p + 2)) t
                   | None \<Rightarrow>
                       if req_method (ctx_request c) = kPost
                       then parse_loop (c\<lparr>ctx_state := kExpectBody\<rparr>) (retrieveUntil b (int p + 2)) t
                       else Some (Inr (True, c\<lparr>ctx_state := kGotAll\<rparr>, retrieveUntil b (int p + 2))))))
      else if ctx_state c = kExpectBody then
        (case stoi (getHeader (ctx_request c) ''Content-Length'') of
           Inl e \<Rightarrow> Some (Inl e)
         | Inr n \<Rightarrow>
             (case read_body b n of
                Inl e \<Rightarrow> Some (Inl e)
              | Inr body \<Rightarrow>
                  Some (Inr (True,
                    c\<lparr>ctx_request := setBody (ctx_request c) body, ctx_state := kGotAll\<rparr>,
                    retrieveUntil b (int (readerIndex b) + n)))))
      else parse_loop c b t)"

definition parseRequest ::
    "http_context \<Rightarrow> buffer \<Rightarrow> int \<Rightarrow> (bool \<times> http_context \<times> buffer) res option" where
  "parseRequest c b receiveTime = parse_loop c b receiveTime"

section \<open>The specification on byte strings\<close>

text \<open>
  The same protocol as a function of the bytes received: it knows nothing of indices or of the
  vector, and taking a body longer than what was received is \<open>OutOfBounds\<close>.
\<close>

definition body_spec :: "http_request \<Rightarrow> string \<Rightarrow> (http_request \<times> string) res" where
  "body_spec r s =
     bind_res (stoi (getHeader r ''Content-Length'')) (\<lambda>n.
       if n < 0 then Inl LengthError
       else if nat n \<le> length s then Inr (setBody r (take (nat n) s), drop (nat n) s)
       else Inl OutOfBounds)"

definition next_line :: "string \<Rightarrow> (string \<times> string) option" where
  "next_line s = map_option (\<lambda>k. (take k s, drop (k + 2) s)) (search_crlf s)"

lemma next_line_shorter: "next_line s = Some (line, rest) \<Longrightarrow> length rest < length s"
  by (auto simp: next_line_def dest: search_crlf_Some)

function parse_spec :: "http_context \<Rightarrow> int \<Rightarrow> string \<Rightarrow> (bool \<times> http_context \<times> string) res" where
  "parse_spec c t s =
     (case ctx_state c of
        kExpectRequestLine \<Rightarrow>
          (case next_line s of
             None \<Rightarrow> Inr (True, c, s)
           | Some (line, rest) \<Rightarrow>
               (case processRequestLine (ctx_request c) line of
                  Inl e \<Rightarrow> Inl e
                | Inr (r, ok) \<Rightarrow>
                    if ok
                    then parse_spec (c\<lparr>ctx_request := setReceiveTime r t, ctx_state := kExpectHeaders\<rparr>)
                           t rest
                    else Inr (False, c\<lparr>ctx_request := r\<rparr>, s)))
      | kExpectHeaders \<Rightarrow>
          (case next_line s of
             None \<Rightarrow> Inr (True, c, s)
           | Some (line, rest) \<Rightarrow>
               (case find_char (CHR '':'') line of
                  Some (field, v) \<Rightarrow>
                    parse_spec (c\<lparr>ctx_request := addHeader (ctx_request c) field v\<rparr>) t rest
                | None \<Rightarrow>
                    if req_method (ctx_request c) = kPost
                    then bind_res (body_spec (ctx_request c) rest)
                           (\<lambda>(r, rest). Inr (True, c\<lparr>ctx_request := r, ctx_state := kGotAll\<rparr>, rest))
                    else Inr (True, c\<lparr>ctx_state := kGotAll\<rparr>, rest)))
      | kExpectBody \<Rightarrow>
          bind_res (body_spec (ctx_request c) s)
            (\<lambda>(r, rest). Inr (True, c\<lparr>ctx_request := r, ctx_state := kGotAll\<rparr>, rest))
      | kGotAll \<Rightarrow> Inr (True, c, s))"
  by pat_completeness auto
termination
  by (relation "measure (\<lambda>(c, t, s). length s)") (auto dest: next_line_shorter)

declare parse_spec.simps [simp del]

section \<open>The parser implements the specification\<close>

lemma processRequestLine_fault: "processRequestLine r line = Inl e \<Longrightarrow> e = AssertFailed"
  by (auto simp: processRequestLine_def setMethod_def bind_res_def Let_def
      split: option.splits sum.splits if_splits)

lemma findCRLF_next_line: "findCRLF b = None \<longleftrightarrow> next_line (content b) = None"
  by (simp add: findCRLF_def next_line_def)

lemma parse_step_line:
  assumes "buf_inv b" "next_line (content b) = Some (line, rest)"
  shows "\<exists>k. findCRLF b = Some (readerIndex b + k) \<and>
    vec_read (buf_store b) (readerIndex b) k = Inr line \<and>
    (let b' = retrieveUntil b (int (readerIndex b + k) + 2) in buf_inv b' \<and> content b' = rest)"
proof -
  from assms(2) obtain k where k: "search_crlf (content b) = Some k"
      "line = take k (content b)" "rest = drop (k + 2) (content b)"
    by (auto simp: next_line_def)
  have "k + 2 \<le> length (content b)" using search_crlf_Some [OF k(1)] by simp
  then have "vec_read (buf_store b) (readerIndex b) k = Inr line"
    using assms(1) k(2) by (simp add: vec_read_content length_content)
  moreover have "retrieveUntil b (int (readerIndex b + k) + 2) = retrieve b (k + 2)"
    using retrieveUntil_ahead [of b "k + 2"] by (simp add: algebra_simps)
  ultimately show ?thesis
    using assms(1) k by (auto simp: findCRLF_def Let_def abs_simp intro: inv_intro)
qed

text \<open>
  Where the specification answers, the loop answers the same and leaves the same bytes; where it
  fails the loop fails the same way, except that a read past the received bytes stays unspecified.
  In every case the loop ends.
\<close>

definition parse_rel ::
    "(bool \<times> http_context \<times> string) res \<Rightarrow> (bool \<times> http_context \<times> buffer) res option \<Rightarrow> bool" where
  "parse_rel sp im =
     (case sp of
        Inr (ok, c, rest) \<Rightarrow> \<exists>b. im = Some (Inr (ok, c, b)) \<and> buf_inv b \<and> content b = rest
      | Inl e \<Rightarrow> im \<noteq> None \<and> (e \<noteq> OutOfBounds \<longrightarrow> im = Some (Inl e)))"

lemma parse_rel_simps [simp]:
  "parse_rel (Inr (ok, c, rest)) (Some (Inr (ok', c', b))) \<longleftrightarrow>
     ok' = ok \<and> c' = c \<and> buf_inv b \<and> content b = rest"
  "parse_rel (Inl e) (Some (Inl e))"
  "parse_rel (Inl OutOfBounds) (Some r)"
  by (auto simp: parse_rel_def)

lemma parse_rel_body:
  assumes "buf_inv b" "ctx_state c = kExpectBody"
  shows "parse_rel (bind_res (body_spec (ctx_request c) (content b))
      (\<lambda>(r, rest). Inr (True, c\<lparr>ctx_request := r, ctx_state := kGotAll\<rparr>, rest))) (parse_loop c b t)"
proof (cases "stoi (getHeader (ctx_request c) ''Content-Length'')")
  case (Inl e)
  with assms(2) show ?thesis by (simp add: body_spec_def parse_loop.simps [of c])
next
  case (Inr n)
  show ?thesis
  proof (cases "0 \<le> n \<and> nat n \<le> length (content b)")
    case True
    then have "read_body b n = Inr (take (nat n) (content b))"
      using assms(1) by (simp add: read_body_def vec_read_content length_content)
    moreover have "retrieveUntil b (int (readerIndex b) + n) = retrieve b (nat n)"
      using True retrieveUntil_ahead [of b "nat n"] by simp
    ultimately show ?thesis
      using True Inr assms by (auto simp: body_spec_def parse_loop.simps [of c] abs_simp intro: inv_intro)
  next
    case False
    with Inr assms show ?thesis
      by (cases "n < 0") (auto simp: body_spec_def parse_loop.simps [of c] read_body_def split: sum.splits)
  qed
qed

lemma parse_loop_refines:
  "buf_inv b \<Longrightarrow> content b = s \<Longrightarrow> ctx_state c \<noteq> kGotAll \<Longrightarrow>
     parse_rel (parse_spec c t s) (parse_loop c b t)"
proof (induction c t s arbitrary: b rule: parse_spec.induct)
  case (1 c t s)
  consider (idle) "ctx_state c = kExpectRequestLine \<or> ctx_state c = kExpectHeaders" "next_line s = None"
    | (line) line rest where "ctx_state c = kExpectRequestLine \<or> ctx_state c = kExpectHeaders"
        "next_line s = Some (line, rest)"
    | (body) "ctx_state c = kExpectBody"
    using "1.prems"(3) by (cases "ctx_state c"; cases "next_line s") auto
  then show ?case
  proof cases
    case idle
    then have "findCRLF b = None" using "1.prems" by (simp add: findCRLF_next_line)
    with idle "1.prems" show ?thesis
      by (elim disjE) (simp_all add: parse_spec.simps [of c t s] parse_loop.simps [of c b t])
  next
    case (line l rest)
    with parse_step_line [OF "1.prems"(1), unfolded "1.prems"(2), OF line(2)]
    obtain k where k: "findCRLF b = Some (readerIndex b + k)"
        "vec_read (buf_store b) (readerIndex b) k = Inr l"
      and b': "buf_inv (retrieveUntil b (int (readerIndex b + k) + 2))"
        "content (retrieveUntil b (int (readerIndex b + k) + 2)) = rest"
      by (auto simp: Let_def)
    show ?thesis
    proof (cases "ctx_state c = kExpectRequestLine")
      case st: True
      show ?thesis
      proof (cases "processRequestLine (ctx_request c) l")
        case (Inl e)
        with st line k show ?thesis by (simp add: parse_spec.simps [of c] parse_loop.simps [of c])
      next
        case (Inr p)
        obtain r ok where p: "p = (r, ok)" by (cases p)
        show ?thesis
          using "1.IH"(1) [OF st line(2) refl Inr p [symmetric] _ b'] st line k Inr p "1.prems"
          by (simp add: parse_spec.simps [of c] parse_loop.simps [of c])
      qed
    next
      case False
      with line have st: "ctx_state c = kExpectHeaders" by simp
      show ?thesis
      proof (cases "find_char (CHR '':'') l")
        case None
        with st line k b' parse_rel_body [OF b'(1), of "c\<lparr>ctx_state := kExpectBody\<rparr>" t]
        show ?thesis by (simp add: parse_spec.simps [of c] parse_loop.simps [of c])
      next
        case (Some p)
        obtain field v where p: "p = (field, v)" by (cases p)
        show ?thesis
          using "1.IH"(2) [OF st line(2) refl Some p [symmetric] b'] st line k Some p
          by (simp add: parse_spec.simps [of c] parse_loop.simps [of c])
      qed
    qed
  next
    case body
    with parse_rel_body [OF "1.prems"(1) body, of t] "1.prems"
    show ?thesis by (simp add: parse_spec.simps [of c])
  qed
qed

text \<open>A completed context makes the loop spin for ever.\<close>

lemma parse_loop_gotAll:
  assumes "ctx_state c = kGotAll"
  shows "parse_loop c b t = None"
proof (rule ccontr)
  assume "parse_loop c b t \<noteq> None"
  then obtain r where ret: "parse_loop c b t = Some r" by auto
  have "ctx_state c \<noteq> kGotAll"
    by (rule parse_loop.raw_induct [where P = "\<lambda>c b t r. ctx_state c \<noteq> kGotAll", OF _ ret])
      (auto split: if_splits)
  with assms show False by simp
qed

section \<open>How the specification behaves when more bytes arrive\<close>

text \<open>One equation per branch, and the induction that follows them.\<close>

lemma parse_spec_eqs:
  "ctx_state c = kExpectRequestLine \<Longrightarrow> next_line s = None \<Longrightarrow> parse_spec c t s = Inr (True, c, s)"
  "ctx_state c = kExpectRequestLine \<Longrightarrow> next_line s = Some (line, rest) \<Longrightarrow>
     processRequestLine (ctx_request c) line = Inl e \<Longrightarrow> parse_spec c t s = Inl e"
  "ctx_state c = kExpectRequestLine \<Longrightarrow> next_line s = Some (line, rest) \<Longrightarrow>
     processRequestLine (ctx_request c) line = Inr (r, False) \<Longrightarrow>
     parse_spec c t s = Inr (False, c\<lparr>ctx_request := r\<rparr>, s)"
  "ctx_state c = kExpectRequestLine \<Longrightarrow> next_line s = Some (line, rest) \<Longrightarrow>
     processRequestLine (ctx_request c) line = Inr (r, True) \<Longrightarrow>
     parse_spec c t s =
       parse_spec (c\<lparr>ctx_request := setReceiveTime r t, ctx_state := kExpectHeaders\<rparr>) t rest"
  "ctx_state c = kExpectHeaders \<Longrightarrow> next_line s = None \<Longrightarrow> parse_spec c t s = Inr (True, c, s)"
  "ctx_state c = kExpectHeaders \<Longrightarrow> next_line s = Some (line, rest) \<Longrightarrow>
     find_char (CHR '':'') line = Some (field, v) \<Longrightarrow>
     parse_spec c t s = parse_spec (c\<lparr>ctx_request := addHeader (ctx_request c) field v\<rparr>) t rest"
  "ctx_state c = kExpectHeaders \<Longrightarrow> next_line s = Some (line, rest) \<Longrightarrow>
     find_char (CHR '':'') line = None \<Longrightarrow> req_method (ctx_request c) = kPost \<Longrightarrow>
     parse_spec c t s = bind_res (body_spec (ctx_request c) rest)
       (\<lambda>(r, rest). Inr (True, c\<lparr>ctx_request := r, ctx_state := kGotAll\<rparr>, rest))"
  "ctx_state c = kExpectHeaders \<Longrightarrow> next_line s = Some (line, rest) \<Longrightarrow>
     find_char (CHR '':'') line = None \<Longrightarrow> req_method (ctx_request c) \<noteq> kPost \<Longrightarrow>
     parse_spec c t s = Inr (True, c\<lparr>ctx_state := kGotAll\<rparr>, rest)"
  "ctx_state c = kExpectBody \<Longrightarrow> parse_spec c t s =
     bind_res (body_spec (ctx_request c) s)
       (\<lambda>(r, rest). Inr (True, c\<lparr>ctx_request := r, ctx_state := kGotAll\<rparr>, rest))"
  "ctx_state c = kGotAll \<Longrightarrow> parse_spec c t s = Inr (True, c, s)"
  by (subst parse_spec.simps, simp)+

lemma parse_spec_induct [case_names line_none line_fault line_bad line_ok head_none head_field
    head_post head_end body got]:
  assumes line_none: "\<And>c t s. ctx_state c = kExpectRequestLine \<Longrightarrow> next_line s = None \<Longrightarrow> P c t s"
    and line_fault: "\<And>c t s line rest e. ctx_state c = kExpectRequestLine \<Longrightarrow>
      next_line s = Some (line, rest) \<Longrightarrow> processRequestLine (ctx_request c) line = Inl e \<Longrightarrow> P c t s"
    and line_bad: "\<And>c t s line rest r. ctx_state c = kExpectRequestLine \<Longrightarrow>
      next_line s = Some (line, rest) \<Longrightarrow> processRequestLine (ctx_request c) line = Inr (r, False) \<Longrightarrow>
      P c t s"
    and line_ok: "\<And>c t s line rest r. ctx_state c = kExpectRequestLine \<Longrightarrow>
      next_line s = Some (line, rest) \<Longrightarrow> processRequestLine (ctx_request c) line = Inr (r, True) \<Longrightarrow>
      P (c\<lparr>ctx_request := setReceiveTime r t, ctx_state := kExpectHeaders\<rparr>) t rest \<Longrightarrow> P c t s"
    and head_none: "\<And>c t s. ctx_state c = kExpectHeaders \<Longrightarrow> next_line s = None \<Longrightarrow> P c t s"
    and head_field: "\<And>c t s line rest field v. ctx_state c = kExpectHeaders \<Longrightarrow>
      next_line s = Some (line, rest) \<Longrightarrow> find_char (CHR '':'') line = Some (field, v) \<Longrightarrow>
      P (c\<lparr>ctx_request := addHeader (ctx_request c) field v\<rparr>) t rest \<Longrightarrow> P c t s"
    and head_post: "\<And>c t s line rest. ctx_state c = kExpectHeaders \<Longrightarrow>
      next_line s = Some (line, rest) \<Longrightarrow> find_char (CHR '':'') line = None \<Longrightarrow>
      req_method (ctx_request c) = kPost \<Longrightarrow> P c t s"
    and head_end: "\<And>c t s line rest. ctx_state c = kExpectHeaders \<Longrightarrow>
      next_line s = Some (line, rest) \<Longrightarrow> find_char (CHR '':'') line = None \<Longrightarrow>
      req_method (ctx_request c) \<noteq> kPost \<Longrightarrow> P c t s"
    and body: "\<And>c t s. ctx_state c = kExpectBody \<Longrightarrow> P c t s"
    and got: "\<And>c t s. ctx_state c = kGotAll \<Longrightarrow> P c t s"
  shows "P c t s"
proof (induction "length s" arbitrary: c s rule: less_induct)
  case less
  show ?case
  proof (cases "next_line s")
    case None
    then show ?thesis using line_none head_none body got by (cases "ctx_state c") blast+
  next
    case (Some p)
    then obtain line rest where nl: "next_line s = Some (line, rest)" by (cases p) simp
    note IH = less [OF next_line_shorter [OF nl]]
    show ?thesis
    proof (cases "ctx_state c")
      case kExpectRequestLine
      note st = kExpectRequestLine nl
      show ?thesis
      proof (cases "processRequestLine (ctx_request c) line")
        case (Inl e)
        then show ?thesis by (rule line_fault [OF st])
      next
        case (Inr q)
        obtain r ok where "q = (r, ok)" by (cases q)
        with Inr line_bad [OF st] line_ok [OF st _ IH] show ?thesis by (cases ok) auto
      qed
    next
      case kExpectHeaders
      note st = kExpectHeaders nl
      show ?thesis
      proof (cases "find_char (CHR '':'') line")
        case None
        with head_post [OF st] head_end [OF st] show ?thesis by blast
      next
        case (Some q)
        obtain field v where "q = (field, v)" by (cases q)
        with Some head_field [OF st _ IH] show ?thesis by simp
      qed
    next
      case kExpectBody
      then show ?thesis by (rule body)
    next
      case kGotAll
      then show ?thesis by (rule got)
    qed
  qed
qed

lemma body_spec_append:
  "body_spec r s = Inr (r', rest) \<Longrightarrow> body_spec r (s @ x) = Inr (r', rest @ x)"
  by (cases "stoi (getHeader r ''Content-Length'')") (auto simp: body_spec_def split: if_splits)

lemma body_spec_fault_append:
  "body_spec r s = Inl e \<Longrightarrow> e \<noteq> OutOfBounds \<Longrightarrow> body_spec r (s @ x) = Inl e"
  by (cases "stoi (getHeader r ''Content-Length'')") (auto simp: body_spec_def split: if_splits)

lemma next_line_append:
  "next_line s = Some (line, rest) \<Longrightarrow> next_line (s @ x) = Some (line, rest @ x)"
proof -
  assume "next_line s = Some (line, rest)"
  then obtain k where k: "search_crlf s = Some k" "line = take k s" "rest = drop (k + 2) s"
    by (auto simp: next_line_def)
  moreover have "k + 2 \<le> length s" using search_crlf_Some [OF k(1)] by simp
  ultimately show ?thesis by (simp add: next_line_def search_crlf_append)
qed

text \<open>A verdict, once given, stands; so does a failure other than running out of bytes.\<close>

lemma parse_spec_done_append:
  "parse_spec c t s = Inr (ok, c1, rest) \<Longrightarrow> ok \<longrightarrow> gotAll c1 \<Longrightarrow>
     parse_spec c t (s @ x) = Inr (ok, c1, rest @ x)"
proof (induction c t s rule: parse_spec_induct)
  case (line_ok c t s line rest' r)
  then show ?case by (simp add: parse_spec_eqs next_line_append)
next
  case (head_field c t s line rest' field v)
  then show ?case by (simp add: parse_spec_eqs next_line_append)
qed (auto simp: parse_spec_eqs(1-3,5,7-) next_line_append gotAll_def bind_res_eq_Inr_iff body_spec_append)

lemma parse_spec_fault_append:
  "parse_spec c t s = Inl e \<Longrightarrow> e \<noteq> OutOfBounds \<Longrightarrow> parse_spec c t (s @ x) = Inl e"
proof (induction c t s rule: parse_spec_induct)
  case (line_ok c t s line rest' r)
  then show ?case by (simp add: parse_spec_eqs next_line_append)
next
  case (head_field c t s line rest' field v)
  then show ?case by (simp add: parse_spec_eqs next_line_append)
qed (auto simp: parse_spec_eqs(1-3,5,7-) next_line_append bind_res_def body_spec_fault_append split: sum.splits)

text \<open>A parse that stopped for want of bytes can be taken up where it stopped.\<close>

lemma parse_spec_resume:
  "parse_spec c t s = Inr (True, c1, rest) \<Longrightarrow> \<not> gotAll c1 \<Longrightarrow>
     parse_spec c t (s @ x) = parse_spec c1 t (rest @ x)"
proof (induction c t s rule: parse_spec_induct)
  case (line_ok c t s line rest' r)
  then show ?case by (simp add: parse_spec_eqs next_line_append)
next
  case (head_field c t s line rest' field v)
  then show ?case by (simp add: parse_spec_eqs next_line_append)
qed (auto simp: parse_spec_eqs(1-3,5,7-) gotAll_def bind_res_eq_Inr_iff)

text \<open>The states a parse can stop in: it never waits for a body.\<close>

lemma parse_spec_states:
  "parse_spec c t s = Inr (ok, c1, rest) \<Longrightarrow>
     (\<not> ok \<longrightarrow> ctx_state c1 = kExpectRequestLine) \<and> ctx_state c1 \<noteq> kExpectBody"
  by (induction c t s rule: parse_spec_induct) (auto simp: parse_spec_eqs bind_res_eq_Inr_iff)

text \<open>Only a POST request is followed by a body.\<close>

lemma body_spec_method: "body_spec r s = Inr (r', rest) \<Longrightarrow> req_method r' = req_method r"
  by (auto simp: body_spec_def bind_res_eq_Inr_iff setBody_def split: if_splits)

lemma parse_spec_method:
  "parse_spec c t s = Inr (ok, c1, rest) \<Longrightarrow> ctx_state c \<noteq> kExpectRequestLine \<Longrightarrow>
     req_method (ctx_request c1) = req_method (ctx_request c)"
  by (induction c t s rule: parse_spec_induct)
    (auto simp: parse_spec_eqs bind_res_eq_Inr_iff dest: body_spec_method)

lemma parse_spec_overread_post:
  "parse_spec c t s = Inl OutOfBounds \<Longrightarrow> parse_spec c t (s @ x) = Inr (ok, c1, rest) \<Longrightarrow>
     ctx_state c = kExpectBody \<longrightarrow> req_method (ctx_request c) = kPost \<Longrightarrow>
     req_method (ctx_request c1) = kPost"
proof (induction c t s rule: parse_spec_induct)
  case (line_ok c t s line rest' r)
  then show ?case by (simp add: parse_spec_eqs next_line_append)
next
  case (line_fault c t s line rest' e)
  then show ?case using processRequestLine_fault [of "ctx_request c" line e]
    by (simp add: parse_spec_eqs)
next
  case (head_field c t s line rest' field v)
  then show ?case by (simp add: parse_spec_eqs next_line_append)
next
  case (head_post c t s line rest')
  then show ?case
    by (auto simp: parse_spec_eqs next_line_append bind_res_eq_Inr_iff dest: body_spec_method)
qed (auto simp: parse_spec_eqs bind_res_eq_Inr_iff dest: body_spec_method)

section \<open>Requests arriving in pieces\<close>

text \<open>
  What \<open>TcpConnection::handleRead\<close> and \<open>HttpServer::onMessage\<close> do to the parser while a request
  is incomplete: each chunk is read into the buffer and parsed; the first verdict ends the run, and
  the chunks not read yet are returned.
\<close>

fun feed :: "http_context \<Rightarrow> buffer \<Rightarrow> int \<Rightarrow> string list \<Rightarrow>
    (bool \<times> http_context \<times> buffer \<times> string list) res option" where
  "feed c b t [] = Some (Inr (True, c, b, []))"
| "feed c b t (x # xs) =
     (case readFd b (ReadData x) of
        Inl e \<Rightarrow> Some (Inl e)
      | Inr (b1, _) \<Rightarrow>
          (case parseRequest c b1 t of
             None \<Rightarrow> None
           | Some (Inl e) \<Rightarrow> Some (Inl e)
           | Some (Inr (ok, c1, b2)) \<Rightarrow>
               if ok \<and> \<not> gotAll c1 then feed c1 b2 t xs else Some (Inr (ok, c1, b2, xs))))"

lemma readFd_chunk:
  assumes "buf_inv b" "length x \<le> extrabuf_size"
  shows "\<exists>b1 n. readFd b (ReadData x) = Inr (b1, n) \<and> buf_inv b1 \<and> content b1 = content b @ x"
proof -
  have "extrabuf_size \<le> iov_capacity b" by (simp add: iov_capacity_def)
  with assms(2) have "take (iov_capacity b) x = x" by simp
  with readFd_ok [OF assms(1), of x] show ?thesis by auto
qed

lemma parseRequest_refines:
  assumes "buf_inv b" "\<not> gotAll c" "parse_spec c t (content b) = Inr (ok, c', rest)"
  shows "\<exists>b'. parseRequest c b t = Some (Inr (ok, c', b')) \<and> buf_inv b' \<and> content b' = rest"
  using parse_loop_refines [OF assms(1) refl, of c t] assms(2,3)
  by (simp add: parse_rel_def parseRequest_def gotAll_def)

lemma parse_spec_stable:
  assumes "parse_spec c t s = Inr (True, c1, rest)" "\<not> gotAll c1"
  shows "parse_spec c1 t rest = Inr (True, c1, rest)"
  using parse_spec_resume [OF assms, of "[]"] assms(1) by simp

lemma feed_spec:
  assumes "buf_inv b" "\<forall>x \<in> set chunks. length x \<le> extrabuf_size"
    and "\<not> gotAll c" "ctx_state c \<noteq> kExpectBody"
    and "parse_spec c t (content b) = Inr (True, c, content b)"
    and "parse_spec c t (content b @ concat chunks) = Inr (ok, c', rest)"
    and "req_method (ctx_request c') \<noteq> kPost"
  shows "\<exists>b' left. feed c b t chunks = Some (Inr (ok, c', b', left)) \<and> buf_inv b' \<and>
    content b' @ concat left = rest"
  using assms
proof (induction chunks arbitrary: c b)
  case (Cons x xs)
  from Cons.prems obtain b1 n where rd: "readFd b (ReadData x) = Inr (b1, n)"
      and b1: "buf_inv b1" "content b1 = content b @ x"
    using readFd_chunk [of b x] by auto
  have whole: "parse_spec c t (content b1 @ concat xs) = Inr (ok, c', rest)"
    using Cons.prems(6) b1 by simp
  show ?case
  proof (cases "parse_spec c t (content b1)")
    case (Inl e)
    with whole Cons.prems(4,7) parse_spec_fault_append [OF Inl, of "concat xs"]
      parse_spec_overread_post [of c t "content b1" "concat xs"]
    show ?thesis by (cases "e = OutOfBounds") auto
  next
    case (Inr p)
    obtain ok1 c1 rest1 where p: "p = (ok1, c1, rest1)" by (cases p)
    from parseRequest_refines [OF b1(1) Cons.prems(3)] Inr p obtain b2 where
      b2: "parseRequest c b1 t = Some (Inr (ok1, c1, b2))" "buf_inv b2" "content b2 = rest1"
      by blast
    show ?thesis
    proof (cases "ok1 \<and> \<not> gotAll c1")
      case True
      with Inr p have step: "parse_spec c t (content b1) = Inr (True, c1, rest1)" by simp
      have "parse_spec c1 t (content b2 @ concat xs) = Inr (ok, c', rest)"
        using parse_spec_resume [OF step] True whole b2 by simp
      with Cons.IH [OF b2(2)] Cons.prems(2,7) True b2 rd parse_spec_stable [OF step]
        parse_spec_states [OF step]
      show ?thesis by simp
    next
      case False
      with parse_spec_done_append [of c t "content b1" ok1 c1 rest1 "concat xs"] Inr p whole b2 rd
      show ?thesis by auto
    qed
  qed
qed simp

section \<open>Writing a request\<close>

fun versionString :: "Version \<Rightarrow> string" where
  "versionString kHttp10 = ''HTTP/1.0''"
| "versionString kHttp11 = ''HTTP/1.1''"
| "versionString kUnknownVersion = []"

definition print_line :: "Method \<Rightarrow> string \<Rightarrow> string \<Rightarrow> Version \<Rightarrow> string" where
  "print_line m p q v = methodString m @ SP # (p @ q) @ SP # versionString v"

fun print_headers :: "(string \<times> string) list \<Rightarrow> string" where
  "print_headers [] = []"
| "print_headers ((k, v) # hs) = k @ CHR '':'' # SP # v @ CR # LF # print_headers hs"

definition print_request ::
    "Method \<Rightarrow> string \<Rightarrow> string \<Rightarrow> Version \<Rightarrow> (string \<times> string) list \<Rightarrow> string \<Rightarrow> string" where
  "print_request m p q v hs body =
     print_line m p q v @ CR # LF # print_headers hs @ CR # LF # body"

definition wf_line :: "Method \<Rightarrow> string \<Rightarrow> string \<Rightarrow> Version \<Rightarrow> bool" where
  "wf_line m p q v \<longleftrightarrow> m \<noteq> kInvalid \<and> v \<noteq> kUnknownVersion \<and>
     SP \<notin> set p \<and> CR \<notin> set p \<and> CHR ''?'' \<notin> set p \<and>
     (q = [] \<or> hd q = CHR ''?'') \<and> SP \<notin> set q \<and> CR \<notin> set q"

definition wf_header :: "string \<times> string \<Rightarrow> bool" where
  "wf_header kv \<longleftrightarrow> CHR '':'' \<notin> set (fst kv) \<and> CR \<notin> set (fst kv) \<and> CR \<notin> set (snd kv) \<and>
     trim (snd kv) = snd kv"

definition wf_request ::
    "Method \<Rightarrow> string \<Rightarrow> string \<Rightarrow> Version \<Rightarrow> (string \<times> string) list \<Rightarrow> string \<Rightarrow> bool" where
  "wf_request m p q v hs body \<longleftrightarrow> wf_line m p q v \<and> list_all wf_header hs \<and>
     (if m = kPost
      then map_of (rev hs) ''Content-Length'' = Some (dec (length body)) \<and> int (length body) \<le> int_max
      else body = [])"

lemma next_line_print [simp]: "CR \<notin> set a \<Longrightarrow> next_line (a @ CR # LF # b) = Some (a, b)"
  by (simp add: next_line_def search_crlf_free)

lemma next_line_empty [simp]: "next_line (CR # LF # b) = Some ([], b)"
  using next_line_print [of "[]" b] by simp

lemma print_line_no_CR: "wf_line m p q v \<Longrightarrow> CR \<notin> set (print_line m p q v)"
  by (cases v) (auto simp: wf_line_def print_line_def)

lemma processRequestLine_print:
  assumes "wf_line m p q v"
  shows "processRequestLine new_request (print_line m p q v) =
    Inr (new_request\<lparr>req_method := m, req_path := p, req_query := q, req_version := v\<rparr>, True)"
proof -
  have m: "setMethod new_request (methodString m) = Inr (new_request\<lparr>req_method := m\<rparr>, True)"
    using assms by (intro setMethod_ok) (auto simp: wf_line_def new_request_def)
  let ?r = "new_request\<lparr>req_method := m\<rparr>"
  have "SP \<notin> set (p @ q)" using assms by (auto simp: wf_line_def)
  then have url: "find_char SP ((p @ q) @ SP # versionString v) = Some (p @ q, versionString v)"
    by (rule find_char_append)
  have ver: "length (versionString v) = 8" "butlast (versionString v) = ''HTTP/1.''"
      "last (versionString v) = (if v = kHttp11 then CHR ''1'' else CHR ''0'')"
    using assms by (cases v; simp add: wf_line_def)+
  have query: "(case find_char (CHR ''?'') (p @ q) of
      Some (p', q') \<Rightarrow> setQuery (setPath ?r p') (CHR ''?'' # q') | None \<Rightarrow> setPath ?r (p @ q)) =
      ?r\<lparr>req_path := p, req_query := q\<rparr>"
    using assms by (cases q) (auto simp: wf_line_def request_setters new_request_def)
  have "v \<noteq> kHttp11 \<Longrightarrow> v = kHttp10" using assms by (cases v) (auto simp: wf_line_def)
  with m url ver query show ?thesis
    by (auto simp: print_line_def processRequestLine_def setVersion_def simp del: append_assoc)
qed

text \<open>The header lines of a request are upserts, in order, of the trimmed values.\<close>

definition add_headers :: "(string \<times> string) list \<Rightarrow> http_request \<Rightarrow> http_request" where
  "add_headers hs r = r\<lparr>req_headers := put_list smap_put hs (req_headers r)\<rparr>"

lemma add_headers_Cons: "trim v = v \<Longrightarrow> add_headers ((k, v) # hs) r = add_headers hs (addHeader r k (SP # v))"
  by (simp add: add_headers_def addHeader_def trim_def)

lemma getHeader_add_headers [abs_simp]:
  "getHeader (add_headers hs r) k = (case map_of (rev hs) k of None \<Rightarrow> getHeader r k | Some v \<Rightarrow> v)"
  by (simp add: getHeader_def add_headers_def smap.look_put_list map_add_def split: option.splits)

lemma parse_headers:
  "list_all wf_header hs \<Longrightarrow> ctx_state c = kExpectHeaders \<Longrightarrow>
     parse_spec c t (print_headers hs @ s) =
     parse_spec (c\<lparr>ctx_request := add_headers hs (ctx_request c)\<rparr>) t s"
proof (induction hs arbitrary: c)
  case Nil
  then show ?case by (simp add: add_headers_def)
next
  case (Cons kv hs)
  obtain k v where kv: "kv = (k, v)" by (cases kv)
  let ?line = "k @ CHR '':'' # SP # v"
  from Cons.prems kv have h: "CR \<notin> set ?line" "find_char (CHR '':'') ?line = Some (k, SP # v)" "trim v = v"
    by (auto simp: wf_header_def)
  have "print_headers (kv # hs) @ s = ?line @ CR # LF # (print_headers hs @ s)" by (simp add: kv)
  then have "next_line (print_headers (kv # hs) @ s) = Some (?line, print_headers hs @ s)"
    using next_line_print [OF h(1)] by metis
  from parse_spec_eqs(6) [OF Cons.prems(2) this h(2)] Cons.IH [of "c\<lparr>ctx_request := addHeader (ctx_request c) k (SP # v)\<rparr>"]
    Cons.prems h(3) kv
  show ?case by (simp add: add_headers_Cons)
qed

definition parsed_request ::
    "Method \<Rightarrow> string \<Rightarrow> string \<Rightarrow> Version \<Rightarrow> (string \<times> string) list \<Rightarrow> string \<Rightarrow> int \<Rightarrow> http_request" where
  "parsed_request m p q v hs body t =
     \<lparr>req_method = m, req_version = v, req_path = p, req_query = q, req_body = body,
      req_time = t, req_headers = put_list smap_put hs []\<rparr>"

lemma parse_print:
  assumes "wf_request m p q v hs body"
  shows "parse_spec new_context t (print_request m p q v hs body @ after) =
    Inr (True, \<lparr>ctx_state = kGotAll, ctx_request = parsed_request m p q v hs body t\<rparr>, after)"
proof -
  define r0 where "r0 = new_request\<lparr>req_method := m, req_path := p, req_query := q, req_version := v\<rparr>"
  define c1 where "c1 = new_context\<lparr>ctx_request := setReceiveTime r0 t, ctx_state := kExpectHeaders\<rparr>"
  define c2 where "c2 = c1\<lparr>ctx_request := add_headers hs (ctx_request c1)\<rparr>"
  have wl: "wf_line m p q v" and wh: "list_all wf_header hs" using assms by (auto simp: wf_request_def)
  let ?rest = "CR # LF # body @ after"
  have nl: "next_line (print_request m p q v hs body @ after) =
      Some (print_line m p q v, print_headers hs @ ?rest)"
    using next_line_print [OF print_line_no_CR [OF wl], of "print_headers hs @ ?rest"]
    by (simp add: print_request_def)
  have "parse_spec new_context t (print_request m p q v hs body @ after) =
      parse_spec c1 t (print_headers hs @ ?rest)"
    using parse_spec_eqs(4) [of new_context, OF _ nl, of r0 t] processRequestLine_print [OF wl]
    by (simp add: new_context_def c1_def r0_def)
  also have "\<dots> = parse_spec c2 t ?rest"
    using parse_headers [OF wh, of c1 t ?rest] by (simp add: c1_def c2_def)
  also have "\<dots> = Inr (True, \<lparr>ctx_state = kGotAll, ctx_request = parsed_request m p q v hs body t\<rparr>, after)"
  proof (cases "m = kPost")
    case True
    have "getHeader (ctx_request c2) ''Content-Length'' = dec (length body)"
      using assms True by (simp add: c2_def abs_simp wf_request_def)
    then have "body_spec (ctx_request c2) (body @ after) = Inr (setBody (ctx_request c2) body, after)"
      using assms True by (simp add: body_spec_def stoi_dec wf_request_def)
    with True show ?thesis
      by (simp add: parse_spec_eqs(7) c2_def c1_def r0_def new_context_def new_request_def
          request_setters add_headers_def parsed_request_def)
  next
    case False
    with assms show ?thesis
      by (simp add: parse_spec_eqs(8) c2_def c1_def r0_def new_context_def new_request_def
          request_setters add_headers_def parsed_request_def wf_request_def)
  qed
  finally show ?thesis .
qed

section \<open>Verdicts on the request line\<close>

text \<open>A rejected request line stays in the buffer, and only the request has changed.\<close>

lemma parse_spec_rejected:
  "parse_spec c t s = Inr (False, c1, rest) \<Longrightarrow>
     ctx_state c = kExpectRequestLine \<and> rest = s \<and> c1 = c\<lparr>ctx_request := ctx_request c1\<rparr> \<and>
     (\<exists>line s'. next_line s = Some (line, s') \<and>
        processRequestLine (ctx_request c) line = Inr (ctx_request c1, False))"
  by (induction c t s rule: parse_spec_induct)
    (auto simp: parse_spec_eqs(1-3,5,7-) bind_res_eq_Inr_iff parse_spec_eqs(4,6))

lemma processRequestLine_again:
  assumes "processRequestLine r line = Inr (r1, ok)" "req_method r = kInvalid"
    and "req_method r1 \<noteq> kInvalid"
  shows "processRequestLine r1 line = Inl AssertFailed"
  using assms by (auto simp: processRequestLine_def setMethod_def split: option.splits)

lemma parse_spec_again:
  assumes "parse_spec c t s = Inr (False, c1, rest)" "req_method (ctx_request c) = kInvalid"
    and "req_method (ctx_request c1) \<noteq> kInvalid"
  shows "parse_spec c1 t' (rest @ x) = Inl AssertFailed"
proof -
  from parse_spec_rejected [OF assms(1)] obtain line s' where
    "ctx_state c1 = kExpectRequestLine" "rest = s" "next_line s = Some (line, s')"
    "processRequestLine (ctx_request c) line = Inr (ctx_request c1, False)"
    by (metis http_context.select_convs(1) http_context.surjective http_context.update_convs(2))
  with processRequestLine_again [OF this(4) assms(2,3)] show ?thesis
    by (simp add: parse_spec_eqs(2) next_line_append)
qed

section \<open>Properties\<close>

text \<open>C1. The parser over the buffer implements the specification on byte strings: on every
  well-formed buffer and every context that is not complete, where the specification gives a
  verdict, a context and the bytes left, the code returns the same verdict and context and leaves a
  well-formed buffer with exactly these bytes; where it fails with an exception or an assertion the
  code fails the same way.\<close>

theorem parse_implements_spec:
  assumes "buf_inv b" "\<not> gotAll c"
  shows "(\<forall>ok c' rest. parse_spec c t (content b) = Inr (ok, c', rest) \<longrightarrow>
      (\<exists>b'. parseRequest c b t = Some (Inr (ok, c', b')) \<and> buf_inv b' \<and> content b' = rest)) \<and>
    (\<forall>e. parse_spec c t (content b) = Inl e \<and> e \<noteq> OutOfBounds \<longrightarrow>
      parseRequest c b t = Some (Inl e))"
  using parse_loop_refines [OF assms(1) refl, of c t] assms(2)
  by (auto simp: parse_rel_def parseRequest_def gotAll_def)

theorem parse_implements_spec_witness:
  "parseRequest (new_context\<lparr>ctx_state := kExpectHeaders,
      ctx_request := new_request\<lparr>req_method := kPost\<rparr>\<rparr>) (buffer_of (crlf @ ''abc'')) 5 =
     Some (Inl InvalidArgument)"
proof -
  let ?c = "new_context\<lparr>ctx_state := kExpectHeaders, ctx_request := new_request\<lparr>req_method := kPost\<rparr>\<rparr>"
  have "parse_spec ?c 5 (content (buffer_of (crlf @ ''abc''))) = Inl InvalidArgument"
    by (simp add: parse_spec_eqs(7) body_spec_def getHeader_def smap_get_def new_request_def)
  then show ?thesis
    using parse_implements_spec [of "buffer_of (crlf @ ''abc'')" ?c 5] by (simp add: gotAll_def)
qed

text \<open>C20. \<open>parseRequest\<close> returns, with a verdict or a failure, exactly when the context it is
  given is not complete already; on a complete context its loop never ends.\<close>

theorem parse_returns_iff:
  assumes "buf_inv b"
  shows "(\<exists>r. parseRequest c b t = Some r) \<longleftrightarrow> \<not> gotAll c"
proof (cases "gotAll c")
  case True
  then show ?thesis by (simp add: parseRequest_def gotAll_def parse_loop_gotAll)
next
  case False
  with parse_loop_refines [OF assms refl, of c t] show ?thesis
    by (auto simp: parse_rel_def parseRequest_def gotAll_def split: sum.splits)
qed

theorem parse_returns_iff_witness:
  "\<not> (\<exists>r. parseRequest (new_context\<lparr>ctx_state := kGotAll\<rparr>) (buffer_of ''x'') 0 = Some r)"
  using parse_returns_iff [of "buffer_of ''x''" "new_context\<lparr>ctx_state := kGotAll\<rparr>" 0]
  by (simp add: gotAll_def)

text \<open>C8. Segmentation does not matter for a request without a body: however the byte stream is
  cut into chunks (each within what one read takes), feeding the chunks one by one to a fresh
  parser gives the verdict and the context that parsing the whole stream at once gives, and the
  bytes left over, in the buffer and in the unread chunks, are the same.\<close>

theorem parse_segmentation:
  assumes "\<forall>x \<in> set chunks. length x \<le> 65536"
    and "parse_spec new_context t (concat chunks) = Inr (ok, c', rest)"
    and "req_method (ctx_request c') \<noteq> kPost"
  shows "\<exists>b' left. feed new_context (new_buffer kInitialSize) t chunks = Some (Inr (ok, c', b', left)) \<and>
    buf_inv b' \<and> content b' @ concat left = rest"
  using feed_spec [OF new_buffer_inv [of kInitialSize], of chunks new_context t ok c' rest] assms
  by (simp add: abs_simp extrabuf_size_def gotAll_def new_context_def parse_spec_eqs(1) next_line_def)

theorem parse_segmentation_witness:
  "\<exists>b' left. feed new_context (new_buffer kInitialSize) 9 [''GET / HT'', ''TP/1.0'' @ [CR], [LF, CR], [LF]] =
     Some (Inr (True, \<lparr>ctx_state = kGotAll,
        ctx_request = parsed_request kGet ''/'' [] kHttp10 [] [] 9\<rparr>, b', left)) \<and> content b' @ concat left = []"
proof -
  let ?cs = "[''GET / HT'', ''TP/1.0'' @ [CR], [LF, CR], [LF]]"
  have "concat ?cs = print_request kGet ''/'' [] kHttp10 [] [] @ []"
    by (simp add: print_request_def print_line_def)
  then have "parse_spec new_context 9 (concat ?cs) =
      Inr (True, \<lparr>ctx_state = kGotAll, ctx_request = parsed_request kGet ''/'' [] kHttp10 [] [] 9\<rparr>, [])"
    using parse_print [of kGet "''/''" "[]" kHttp10 "[]" "[]" 9 "[]"]
    by (simp only: wf_request_def wf_line_def) simp
  from parse_segmentation [OF _ this] show ?thesis by (auto simp: parsed_request_def)
qed

text \<open>C21. Round trip: a well-formed request written out and received in full is parsed into
  exactly its method, path, query, version, body and receive time, each header reads as the last
  value written under its name, and the bytes behind the request stay in the buffer.\<close>

theorem parse_print_roundtrip:
  assumes "wf_request m p q v hs body" "buf_inv b"
    and "content b = print_request m p q v hs body @ after"
  shows "\<exists>r b'. parseRequest new_context b t = Some (Inr (True, \<lparr>ctx_state = kGotAll, ctx_request = r\<rparr>, b')) \<and>
    content b' = after \<and> buf_inv b' \<and>
    req_method r = m \<and> req_path r = p \<and> req_query r = q \<and> req_version r = v \<and> req_body r = body \<and>
    req_time r = t \<and>
    (\<forall>k. getHeader r k = (case map_of (rev hs) k of None \<Rightarrow> [] | Some x \<Rightarrow> x))"
proof -
  have "\<not> gotAll new_context" by (simp add: gotAll_def new_context_def)
  from parseRequest_refines [OF assms(2) this, unfolded assms(3), OF parse_print [OF assms(1)]]
  obtain b' where "parseRequest new_context b t =
      Some (Inr (True, \<lparr>ctx_state = kGotAll, ctx_request = parsed_request m p q v hs body t\<rparr>, b'))"
    "buf_inv b'" "content b' = after" by blast
  moreover have "getHeader (parsed_request m p q v hs body t) k =
      (case map_of (rev hs) k of None \<Rightarrow> [] | Some x \<Rightarrow> x)" for k
    by (simp add: getHeader_def parsed_request_def smap.look_put_list smap_get_def map_add_def
        split: option.splits)
  ultimately show ?thesis by (auto simp: parsed_request_def)
qed

theorem parse_print_roundtrip_witness:
  "\<exists>r b'. parseRequest new_context
       (buffer_of (''POST /login?a=b HTTP/1.1'' @ crlf @ ''Content-Length: 4'' @ crlf @ crlf @ ''n=p&next'')) 7 =
     Some (Inr (True, \<lparr>ctx_state = kGotAll, ctx_request = r\<rparr>, b')) \<and>
     content b' = ''next'' \<and> req_body r = ''n=p&'' \<and> req_path r = ''/login'' \<and> req_query r = ''?a=b'' \<and>
     getHeader r ''Content-Length'' = ''4''"
proof -
  let ?s = "''POST /login?a=b HTTP/1.1'' @ crlf @ ''Content-Length: 4'' @ crlf @ crlf @ ''n=p&next''"
  have "dec 4 = ''4''" by code_simp
  then have "wf_request kPost ''/login'' ''?a=b'' kHttp11 [(''Content-Length'', ''4'')] ''n=p&''"
    by (simp add: wf_request_def wf_line_def wf_header_def trim_def is_space_def int_max_def
        numeral_eq_Suc)
  moreover have "content (buffer_of ?s) =
      print_request kPost ''/login'' ''?a=b'' kHttp11 [(''Content-Length'', ''4'')] ''n=p&'' @ ''next''"
    by (simp add: print_request_def print_line_def)
  ultimately obtain r b' where "parseRequest new_context (buffer_of ?s) 7 =
       Some (Inr (True, \<lparr>ctx_state = kGotAll, ctx_request = r\<rparr>, b'))" "content b' = ''next''"
      "req_body r = ''n=p&''" "req_path r = ''/login''" "req_query r = ''?a=b''"
      "\<forall>k. getHeader r k = (case map_of (rev [(''Content-Length'', ''4'')]) k of None \<Rightarrow> [] | Some x \<Rightarrow> x)"
    using parse_print_roundtrip [OF _ buffer_of_inv] by metis
  then show ?thesis by auto
qed



text \<open>C39. A rejected request line kills the process when more bytes arrive: if a fresh parser
  rejects a request line after its method was recognised, then reading any further bytes and
  parsing again runs into the assertion of \<open>setMethod\<close>.\<close>

theorem rejected_line_then_data_asserts:
  assumes "buf_inv b" "parse_spec new_context t (content b) = Inr (False, c1, rest)"
    and "req_method (ctx_request c1) \<noteq> kInvalid"
  shows "\<exists>b1. parseRequest new_context b t = Some (Inr (False, c1, b1)) \<and>
    (\<forall>x b2 n t'. readFd b1 (ReadData x) = Inr (b2, n) \<longrightarrow> parseRequest c1 b2 t' = Some (Inl AssertFailed))"
proof -
  have "\<not> gotAll new_context" by (simp add: gotAll_def new_context_def)
  from parseRequest_refines [OF assms(1) this assms(2)] obtain b1 where
    b1: "parseRequest new_context b t = Some (Inr (False, c1, b1))" "buf_inv b1" "content b1 = rest"
    by blast
  have "parseRequest c1 b2 t' = Some (Inl AssertFailed)"
    if rd: "readFd b1 (ReadData x) = Inr (b2, n)" for x b2 n t'
  proof -
    from rd readFd_ok [OF b1(2), of x] b1(3) have b2: "buf_inv b2"
        "content b2 = rest @ take (iov_capacity b1) x" by auto
    have "parse_spec c1 t' (content b2) = Inl AssertFailed"
      using parse_spec_again [OF assms(2) _ assms(3)] b2(2) by (simp add: new_context_def new_request_def)
    moreover have "ctx_state c1 \<noteq> kGotAll" using parse_spec_states [OF assms(2)] by simp
    ultimately show ?thesis
      using parse_loop_refines [OF b2(1) refl, of c1 t'] by (simp add: parse_rel_def parseRequest_def)
  qed
  with b1(1) show ?thesis by blast
qed

theorem rejected_line_then_data_asserts_witness:
  "\<exists>b1 c1. parseRequest new_context (buffer_of (''GET / HTTP/2.0'' @ crlf)) 0 = Some (Inr (False, c1, b1)) \<and>
     (\<forall>x b2 n t'. readFd b1 (ReadData x) = Inr (b2, n) \<longrightarrow> parseRequest c1 b2 t' = Some (Inl AssertFailed))"
proof -
  let ?c1 = "new_context\<lparr>ctx_request := new_request\<lparr>req_method := kGet, req_path := ''/''\<rparr>\<rparr>"
  let ?s = "''GET / HTTP/2.0'' @ crlf"
  have nl: "next_line ?s = Some (''GET / HTTP/2.0'', [])"
    using next_line_print [of "''GET / HTTP/2.0''" "[]"] by simp
  have line: "processRequestLine (ctx_request new_context) ''GET / HTTP/2.0'' = Inr (ctx_request ?c1, False)"
    by (simp add: processRequestLine_def new_context_def new_request_def setMethod_def request_setters)
  have st: "ctx_state new_context = kExpectRequestLine" by (simp add: new_context_def)
  have "parse_spec new_context 0 (content (buffer_of ?s)) = Inr (False, ?c1, ?s)"
    using parse_spec_eqs(3) [OF st nl line] by (simp del: append.simps)
  from rejected_line_then_data_asserts [OF buffer_of_inv this] show ?thesis by auto
qed

text \<open>Any header line without a colon ends the header section, not only the empty line: for a
  request without a body the parser completes the request there and leaves the following header
  lines in the buffer as the beginning of the next request.\<close>

theorem colonless_line_ends_headers:
  assumes "buf_inv b" "ctx_state c = kExpectHeaders" "req_method (ctx_request c) \<noteq> kPost"
    and "content b = junk @ CR # LF # after" "CR \<notin> set junk" "CHR '':'' \<notin> set junk"
  shows "\<exists>b'. parseRequest c b t = Some (Inr (True, c\<lparr>ctx_state := kGotAll\<rparr>, b')) \<and> content b' = after"
proof -
  have "parse_spec c t (content b) = Inr (True, c\<lparr>ctx_state := kGotAll\<rparr>, after)"
    using assms by (simp add: parse_spec_eqs(8) [OF assms(2)])
  moreover have "\<not> gotAll c" using assms(2) by (simp add: gotAll_def)
  ultimately show ?thesis using parseRequest_refines [OF assms(1)] by blast
qed

theorem colonless_line_ends_headers_witness:
  "\<exists>b'. parseRequest (new_context\<lparr>ctx_state := kExpectHeaders\<rparr>)
      (buffer_of (''junk'' @ CR # LF # ''Host: a'' @ crlf @ crlf)) 0 =
     Some (Inr (True, new_context\<lparr>ctx_state := kGotAll\<rparr>, b')) \<and> content b' = ''Host: a'' @ crlf @ crlf"
  using colonless_line_ends_headers [of "buffer_of (''junk'' @ CR # LF # ''Host: a'' @ crlf @ crlf)"
      "new_context\<lparr>ctx_state := kExpectHeaders\<rparr>" "''junk''" "''Host: a'' @ crlf @ crlf" 0]
  by (simp add: new_context_def new_request_def)

end
