(* ===== verification/HttpResponse.thy ===== *)
theory HttpResponse
  imports Buffer Std_Map
begin

text \<open>
  \<open>mymuduo/http/HttpResponse.h\<close> and \<open>HttpResponse.cpp\<close>: the response object and its
  serialisation into an output buffer, with the text it has to produce as the specification.
\<close>

section \<open>The response and its setters\<close>

datatype HttpStatusCode = kUnknownStatus | k200Ok | k301MovedPermanently | k400BadRequest | k404NotFound

fun status_number :: "HttpStatusCode \<Rightarrow> nat" where
  "status_number kUnknownStatus = 0"
| "status_number k200Ok = 200"
| "status_number k301MovedPermanently = 301"
| "status_number k400BadRequest = 400"
| "status_number k404NotFound = 404"

record http_response =
  rsp_headers :: "(string, string) std_map"
  rsp_status :: HttpStatusCode
  rsp_message :: string
  rsp_close :: bool
  rsp_body :: string

definition new_response :: "bool \<Rightarrow> http_response" where
  "new_response close = \<lparr>rsp_headers = [], rsp_status = kUnknownStatus, rsp_message = [],
     rsp_close = close, rsp_body = []\<rparr>"

definition setStatusCode :: "http_response \<Rightarrow> HttpStatusCode \<Rightarrow> http_response" where
  "setStatusCode r c = r\<lparr>rsp_status := c\<rparr>"

definition setStatusMessage :: "http_response \<Rightarrow> string \<Rightarrow> http_response" where
  "setStatusMessage r m = r\<lparr>rsp_message := m\<rparr>"

definition setCloseConnection :: "http_response \<Rightarrow> bool \<Rightarrow> http_response" where
  "setCloseConnection r on = r\<lparr>rsp_close := on\<rparr>"

definition addResponseHeader :: "http_response \<Rightarrow> string \<Rightarrow> string \<Rightarrow> http_response" where
  "addResponseHeader r key val = r\<lparr>rsp_headers := smap_put key val (rsp_headers r)\<rparr>"

definition setContentType :: "http_response \<Rightarrow> string \<Rightarrow> http_response" where
  "setContentType r t = addResponseHeader r ''Content-Type'' t"

definition setResponseBody :: "http_response \<Rightarrow> string \<Rightarrow> http_response" where
  "setResponseBody r b = r\<lparr>rsp_body := b\<rparr>"

section \<open>Serialisation\<close>

text \<open>\<open>snprintf\<close> into a \<open>char[32]\<close> keeps at most 31 characters.\<close>

definition snprintf32 :: "string \<Rightarrow> string" where
  "snprintf32 s = take 31 s"

definition header_chunks :: "string \<times> string \<Rightarrow> string list" where
  "header_chunks kv = [fst kv, '': '', snd kv, crlf]"

text \<open>The strings \<open>appendToBuffer\<close> appends, in its order.\<close>

definition response_chunks :: "http_response \<Rightarrow> string list" where
  "response_chunks r =
     [snprintf32 (''HTTP/1.1 '' @ dec (status_number (rsp_status r)) @ '' ''), rsp_message r, crlf] @
     (if rsp_close r then [''Connection: close'' @ crlf]
      else [snprintf32 (''Content-Length: '' @ dec (length (rsp_body r)) @ crlf),
            ''Connection: Keep-Alive'' @ crlf]) @
     concat (map header_chunks (rsp_headers r)) @
     [crlf, rsp_body r]"

definition appendToBuffer :: "http_response \<Rightarrow> buffer \<Rightarrow> buffer res" where
  "appendToBuffer r out = put_all append_string out (response_chunks r)"

section \<open>The text of a response\<close>

definition status_line :: "http_response \<Rightarrow> string" where
  "status_line r = ''HTTP/1.1 '' @ dec (status_number (rsp_status r)) @ SP # rsp_message r"

definition connection_lines :: "http_response \<Rightarrow> string list" where
  "connection_lines r =
     (if rsp_close r then [''Connection: close'']
      else [''Content-Length: '' @ dec (length (rsp_body r)), ''Connection: Keep-Alive''])"

definition header_line :: "string \<times> string \<Rightarrow> string" where
  "header_line kv = fst kv @ '': '' @ snd kv"

definition head_lines :: "http_response \<Rightarrow> string list" where
  "head_lines r = status_line r # connection_lines r @ map header_line (rsp_headers r)"

definition render :: "http_response \<Rightarrow> string" where
  "render r = concat (map (\<lambda>l. l @ crlf) (head_lines r)) @ crlf @ rsp_body r"

definition fits_int :: "http_response \<Rightarrow> bool" where
  "fits_int r \<longleftrightarrow> length (rsp_body r) < 2 ^ 31 \<and> length (rsp_message r) < 2 ^ 31 \<and>
     (\<forall>(k, v) \<in> set (rsp_headers r). length k < 2 ^ 31 \<and> length v < 2 ^ 31)"

lemma snprintf32_id: "length s \<le> 31 \<Longrightarrow> snprintf32 s = s"
  by (simp add: snprintf32_def)

lemma snprintf32_status:
  "snprintf32 (''HTTP/1.1 '' @ dec (status_number c) @ '' '') = ''HTTP/1.1 '' @ dec (status_number c) @ '' ''"
proof (rule snprintf32_id)
  have "length (dec (status_number c)) \<le> 3" by (rule length_dec) (cases c; simp)+
  then show "length (''HTTP/1.1 '' @ dec (status_number c) @ '' '') \<le> 31" by simp
qed

lemma snprintf32_length:
  assumes "n < 2 ^ 31"
  shows "snprintf32 (''Content-Length: '' @ dec n @ crlf) = ''Content-Length: '' @ dec n @ crlf"
proof (rule snprintf32_id)
  have "length (dec n) \<le> 10" by (rule length_dec) (use assms in simp_all)
  then show "length (''Content-Length: '' @ dec n @ crlf) \<le> 31" by simp
qed

lemma concat_header_chunks:
  "concat (concat (map header_chunks hs)) = concat (map (\<lambda>l. l @ crlf) (map header_line hs))"
  by (induction hs) (auto simp: header_chunks_def header_line_def)

lemma concat_response_chunks:
  assumes "fits_int r"
  shows "concat (response_chunks r) = render r"
proof -
  have len: "length (rsp_body r) < 2 ^ 31" using assms by (simp add: fits_int_def)
  show ?thesis
    unfolding response_chunks_def snprintf32_status snprintf32_length [OF len]
    by (simp add: render_def head_lines_def status_line_def connection_lines_def concat_header_chunks)
qed

lemma response_chunks_short:
  "fits_int r \<Longrightarrow> \<forall>s \<in> set (response_chunks r). length s < 2 ^ 31"
  by (auto simp: response_chunks_def fits_int_def snprintf32_def header_chunks_def)

lemma appendToBuffer_ok:
  assumes "buf_inv b" "fits_int r"
  shows "\<exists>b'. appendToBuffer r b = Inr b' \<and> buf_inv b' \<and> content b' = content b @ render r"
  using str_buf.put_all_ok [OF assms(1) response_chunks_short [OF assms(2)]]
  by (simp add: appendToBuffer_def concat_response_chunks [OF assms(2)])

section \<open>Reading a response back\<close>

text \<open>What a client does: read lines up to the empty line; the rest starts with the body.\<close>

function read_head :: "string \<Rightarrow> (string list \<times> string) option" where
  "read_head s =
     (case search_crlf s of
        None \<Rightarrow> None
      | Some k \<Rightarrow>
          if k = 0 then Some ([], drop 2 s)
          else map_option (\<lambda>(ls, rest). (take k s # ls, rest)) (read_head (drop (k + 2) s)))"
  by pat_completeness auto
termination
  by (relation "measure length") (auto dest: search_crlf_Some)

declare read_head.simps [simp del]

lemma read_head_lines:
  "\<forall>l \<in> set ls. l \<noteq> [] \<and> CR \<notin> set l \<Longrightarrow>
     read_head (concat (map (\<lambda>l. l @ crlf) ls) @ crlf @ rest) = Some (ls, rest)"
proof (induction ls)
  case Nil
  show ?case by (simp add: read_head.simps [of "CR # LF # rest"])
next
  case (Cons l ls)
  let ?s = "concat (map (\<lambda>l. l @ crlf) ls) @ CR # LF # rest"
  have "search_crlf (l @ CR # LF # ?s) = Some (length l)"
    using Cons.prems by (intro search_crlf_line search_crlf_free) simp
  with Cons show ?case by (simp add: read_head.simps [of "l @ CR # LF # ?s"])
qed

definition clean_head :: "http_response \<Rightarrow> bool" where
  "clean_head r \<longleftrightarrow> CR \<notin> set (rsp_message r) \<and>
     (\<forall>(k, v) \<in> set (rsp_headers r). CR \<notin> set k \<and> CR \<notin> set v)"

lemma dec_no_CR [simp]: "CR \<notin> set (dec n)"
  using dec_digits [of n] is_digit_not_special(1) by blast

lemma head_lines_clean:
  "clean_head r \<Longrightarrow> \<forall>l \<in> set (head_lines r). l \<noteq> [] \<and> CR \<notin> set l"
  by (auto simp: clean_head_def head_lines_def status_line_def connection_lines_def header_line_def)

lemma read_head_render:
  "clean_head r \<Longrightarrow> read_head (render r @ after) = Some (head_lines r, rsp_body r @ after)"
  using read_head_lines [OF head_lines_clean, of r "rsp_body r @ after"]
  by (simp add: render_def)

section \<open>Properties\<close>

text \<open>Serialising a response whose strings are below 2 GiB always succeeds and appends to the
  output buffer exactly the text of the response: status line, connection lines, headers in the
  order of their names, an empty line and the body; the 32-byte formatting buffers never truncate.\<close>

theorem response_serialised:
  assumes "buf_inv b" "fits_int r"
  shows "\<exists>b'. appendToBuffer r b = Inr b' \<and> buf_inv b' \<and> content b' = content b @ render r"
  using appendToBuffer_ok [OF assms] .

theorem response_serialised_witness:
  "\<exists>b'. appendToBuffer (setResponseBody (new_response True) ''hi'') (buffer_of []) = Inr b' \<and>
     content b' = ''HTTP/1.1 0 '' @ crlf @ ''Connection: close'' @ crlf @ crlf @ ''hi''"
proof -
  let ?r = "setResponseBody (new_response True) ''hi''"
  have "fits_int ?r" by (simp add: fits_int_def setResponseBody_def new_response_def)
  moreover have "dec 0 = ''0''" by code_simp
  then have "render ?r = ''HTTP/1.1 0 '' @ crlf @ ''Connection: close'' @ crlf @ crlf @ ''hi''"
    by (simp add: render_def head_lines_def status_line_def connection_lines_def setResponseBody_def
        new_response_def)
  ultimately show ?thesis using response_serialised [of "buffer_of []" ?r] by auto
qed



end
