(* ===== verification/Channel.thy ===== *)
theory Channel
  imports Prelude
begin

unbundle bit_operations_syntax

text \<open>
  \<open>mymuduo/net/Channel.h\<close> and \<open>Channel.cpp\<close>: the event masks of one descriptor and the dispatch
  of returned events to the callbacks. The operations that also inform the poller
  (\<open>enableReading\<close> and the like) are in the theory of the poller.
\<close>

section \<open>Event masks\<close>

type_synonym evmask = "32 word"

text \<open>The constants of \<open><sys/epoll.h>\<close>.\<close>

definition EPOLLIN :: evmask where "EPOLLIN = 1"
definition EPOLLPRI :: evmask where "EPOLLPRI = 2"
definition EPOLLOUT :: evmask where "EPOLLOUT = 4"
definition EPOLLERR :: evmask where "EPOLLERR = 8"
definition EPOLLHUP :: evmask where "EPOLLHUP = 16"

lemmas epoll_masks = EPOLLIN_def EPOLLPRI_def EPOLLOUT_def EPOLLERR_def EPOLLHUP_def

definition kNoneEvent :: evmask where "kNoneEvent = 0"
definition kReadEvent :: evmask where "kReadEvent = EPOLLIN OR EPOLLPRI"
definition kWriteEvent :: evmask where "kWriteEvent = EPOLLOUT"

lemmas event_masks = kNoneEvent_def kReadEvent_def kWriteEvent_def epoll_masks

section \<open>The channel\<close>

text \<open>\<open>ch_ptr\<close> stands for the address of the object, \<open>ch_tied\<close> for the tie to its owner.\<close>

record channel =
  ch_ptr :: nat
  ch_fd :: int
  ch_events :: evmask
  ch_revents :: evmask
  ch_index :: int
  ch_tied :: bool

definition new_channel :: "nat \<Rightarrow> int \<Rightarrow> channel" where
  "new_channel ptr fd = \<lparr>ch_ptr = ptr, ch_fd = fd, ch_events = 0, ch_revents = 0, ch_index = -1,
     ch_tied = False\<rparr>"

definition tie :: "channel \<Rightarrow> channel" where
  "tie ch = ch\<lparr>ch_tied := True\<rparr>"

definition set_revents :: "channel \<Rightarrow> evmask \<Rightarrow> channel" where
  "set_revents ch rv = ch\<lparr>ch_revents := rv\<rparr>"

definition set_index :: "channel \<Rightarrow> int \<Rightarrow> channel" where
  "set_index ch i = ch\<lparr>ch_index := i\<rparr>"

definition isNoneEvent :: "channel \<Rightarrow> bool" where
  "isNoneEvent ch \<longleftrightarrow> ch_events ch = kNoneEvent"

definition isWriting :: "channel \<Rightarrow> bool" where
  "isWriting ch \<longleftrightarrow> ch_events ch AND kWriteEvent \<noteq> 0"

definition isReading :: "channel \<Rightarrow> bool" where
  "isReading ch \<longleftrightarrow> ch_events ch AND kReadEvent \<noteq> 0"

section \<open>Dispatching events\<close>

text \<open>
  The callbacks act on the state of the owner; an empty \<open>std::function\<close> is \<open>None\<close>. The returned
  events are fixed while the callbacks run: only the poller writes them.
\<close>

record 's callbacks =
  cb_close :: "('s \<Rightarrow> 's res) option"
  cb_error :: "('s \<Rightarrow> 's res) option"
  cb_read :: "(int \<Rightarrow> 's \<Rightarrow> 's res) option"
  cb_write :: "('s \<Rightarrow> 's res) option"

definition setReadCallback :: "(int \<Rightarrow> 's \<Rightarrow> 's res) option \<Rightarrow> 's callbacks \<Rightarrow> 's callbacks" where
  "setReadCallback cb cbs = cbs\<lparr>cb_read := cb\<rparr>"

definition setWriteCallback :: "('s \<Rightarrow> 's res) option \<Rightarrow> 's callbacks \<Rightarrow> 's callbacks" where
  "setWriteCallback cb cbs = cbs\<lparr>cb_write := cb\<rparr>"

definition setCloseCallback :: "('s \<Rightarrow> 's res) option \<Rightarrow> 's callbacks \<Rightarrow> 's callbacks" where
  "setCloseCallback cb cbs = cbs\<lparr>cb_close := cb\<rparr>"

definition setErrorCallback :: "('s \<Rightarrow> 's res) option \<Rightarrow> 's callbacks \<Rightarrow> 's callbacks" where
  "setErrorCallback cb cbs = cbs\<lparr>cb_error := cb\<rparr>"

definition call_if :: "bool \<Rightarrow> ('s \<Rightarrow> 's res) option \<Rightarrow> 's \<Rightarrow> 's res" where
  "call_if g cb s = (if g then (case cb of None \<Rightarrow> Inr s | Some f \<Rightarrow> f s) else Inr s)"

definition handleEventWithGuard :: "'s callbacks \<Rightarrow> evmask \<Rightarrow> int \<Rightarrow> 's \<Rightarrow> 's res" where
  "handleEventWithGuard cbs revents receiveTime s =
     bind_res (call_if (revents AND EPOLLHUP \<noteq> 0 \<and> \<not> revents AND EPOLLIN \<noteq> 0) (cb_close cbs) s) (\<lambda>s.
     bind_res (call_if (revents AND EPOLLERR \<noteq> 0) (cb_error cbs) s) (\<lambda>s.
     bind_res (call_if (revents AND (EPOLLIN OR EPOLLPRI) \<noteq> 0)
                 (map_option (\<lambda>f. f receiveTime) (cb_read cbs)) s) (\<lambda>s.
     call_if (revents AND EPOLLOUT \<noteq> 0) (cb_write cbs) s)))"

text \<open>\<open>alive\<close> is whether locking the weak pointer to the owner succeeds.\<close>

definition handleEvent :: "'s callbacks \<Rightarrow> channel \<Rightarrow> bool \<Rightarrow> int \<Rightarrow> 's \<Rightarrow> 's res" where
  "handleEvent cbs ch alive receiveTime s =
     (if ch_tied ch
      then if alive then handleEventWithGuard cbs (ch_revents ch) receiveTime s else Inr s
      else handleEventWithGuard cbs (ch_revents ch) receiveTime s)"

section \<open>Lemmas on masks\<close>

lemma new_channel_simps [simp]:
  "ch_ptr (new_channel p fd) = p" "ch_fd (new_channel p fd) = fd" "ch_events (new_channel p fd) = 0"
  "ch_index (new_channel p fd) = -1" "ch_tied (new_channel p fd) = False"
  by (simp_all add: new_channel_def)

lemma new_channel_idle [simp]: "\<not> isWriting (new_channel p fd)" "\<not> isReading (new_channel p fd)"
  by (simp_all add: isWriting_def isReading_def)

lemma set_index_simps [simp]:
  "ch_index (set_index ch i) = i" "ch_events (set_index ch i) = ch_events ch"
  "ch_fd (set_index ch i) = ch_fd ch" "ch_ptr (set_index ch i) = ch_ptr ch"
  "isWriting (set_index ch i) = isWriting ch" "isReading (set_index ch i) = isReading ch"
  by (simp_all add: set_index_def isWriting_def isReading_def)

lemma tie_simps [simp]:
  "ch_index (tie ch) = ch_index ch" "ch_events (tie ch) = ch_events ch"
  "ch_fd (tie ch) = ch_fd ch" "ch_ptr (tie ch) = ch_ptr ch"
  "isWriting (tie ch) = isWriting ch" "isReading (tie ch) = isReading ch"
  by (simp_all add: tie_def isWriting_def isReading_def)

lemma mask_bit2: "(w :: evmask) AND 4 \<noteq> 0 \<longleftrightarrow> bit w 2"
  using and_exp_eq_0_iff_not_bit [of w 2] by simp

lemma masks_bits:
  "w AND EPOLLIN \<noteq> 0 \<longleftrightarrow> bit w 0" "w AND EPOLLPRI \<noteq> 0 \<longleftrightarrow> bit w 1" "w AND EPOLLOUT \<noteq> 0 \<longleftrightarrow> bit w 2"
  "w AND EPOLLERR \<noteq> 0 \<longleftrightarrow> bit w 3" "w AND EPOLLHUP \<noteq> 0 \<longleftrightarrow> bit w 4"
  using and_exp_eq_0_iff_not_bit [of w 0] and_exp_eq_0_iff_not_bit [of w 1]
    and_exp_eq_0_iff_not_bit [of w 2] and_exp_eq_0_iff_not_bit [of w 3] and_exp_eq_0_iff_not_bit [of w 4]
  by (simp_all add: epoll_masks)

lemma or_zero_iff: "(a :: evmask) OR b = 0 \<longleftrightarrow> a = 0 \<and> b = 0"
  by (metis or.left_neutral or.right_neutral or_eq_0_iff)

lemma read_mask_bits:
  "w AND (EPOLLIN OR EPOLLPRI) \<noteq> 0 \<longleftrightarrow> bit w 0 \<or> bit w 1"
  by (metis bit.conj_disj_distrib masks_bits(1,2) or_zero_iff)

section \<open>Which callbacks run\<close>

text \<open>Callbacks that record their names; the events the kernel may report for a channel.\<close>

datatype dispatch = DClose | DError | DRead | DWrite

definition recorders :: "dispatch list callbacks" where
  "recorders = \<lparr>cb_close = Some (\<lambda>s. Inr (s @ [DClose])), cb_error = Some (\<lambda>s. Inr (s @ [DError])),
     cb_read = Some (\<lambda>t s. Inr (s @ [DRead])), cb_write = Some (\<lambda>s. Inr (s @ [DWrite]))\<rparr>"

fun wanted :: "evmask \<Rightarrow> dispatch \<Rightarrow> bool" where
  "wanted w DClose = (bit w 4 \<and> \<not> bit w 0)"
| "wanted w DError = bit w 3"
| "wanted w DRead = (bit w 0 \<or> bit w 1)"
| "wanted w DWrite = bit w 2"

lemma handleEventWithGuard_trace:
  "handleEventWithGuard recorders w t s = Inr (s @ filter (wanted w) [DClose, DError, DRead, DWrite])"
  by (simp add: handleEventWithGuard_def call_if_def recorders_def masks_bits read_mask_bits)

lemma reported_bits:
  assumes "\<forall>n. bit (ch_revents ch) n \<longrightarrow> bit (ch_events ch) n \<or> n = 3 \<or> n = 4"
  shows "wanted (ch_revents ch) DRead \<Longrightarrow> isReading ch" "wanted (ch_revents ch) DWrite \<Longrightarrow> isWriting ch"
  using assms
  by (auto simp: isReading_def isWriting_def kReadEvent_def kWriteEvent_def read_mask_bits masks_bits
      simp del: neq_commute)

section \<open>Properties\<close>

text \<open>A channel whose owner is alive (or that is not tied) runs, in the order close, error, read,
  write, exactly the callbacks its returned events ask for: close on a hang-up without input, error
  on an error, read on input or urgent input, write on writability. A tied channel whose owner is
  gone runs none. If the kernel reports only events of the interest set besides errors and hang-ups,
  the read callback runs only on a reading and the write callback only on a writing channel.\<close>

theorem dispatch_events:
  assumes "\<forall>n. bit (ch_revents ch) n \<longrightarrow> bit (ch_events ch) n \<or> n = 3 \<or> n = 4"
  shows "\<exists>ds. handleEvent recorders ch alive t s = Inr (s @ ds) \<and>
    ds = (if ch_tied ch \<and> \<not> alive then []
          else filter (wanted (ch_revents ch)) [DClose, DError, DRead, DWrite]) \<and>
    (DRead \<in> set ds \<longrightarrow> isReading ch) \<and> (DWrite \<in> set ds \<longrightarrow> isWriting ch)"
  using reported_bits [OF assms]
  by (auto simp: handleEvent_def handleEventWithGuard_trace simp del: wanted.simps)

theorem dispatch_events_witness:
  "\<exists>ds. handleEvent recorders ((new_channel 0 5)\<lparr>ch_events := 7, ch_revents := 21\<rparr>) True 0 [] = Inr ds \<and>
     ds = [DRead, DWrite]"
proof -
  let ?ch = "(new_channel 0 5)\<lparr>ch_events := 7, ch_revents := 21\<rparr>"
  have bits: "bit (21 :: evmask) n \<longleftrightarrow> n \<in> {0, 2, 4}" "bit (7 :: evmask) n \<longleftrightarrow> n \<in> {0, 1, 2}" for n
    by (auto simp: numeral_eq_Suc bit_simps bit_numeral_rec split: nat.splits)
  then have "\<forall>n. bit (ch_revents ?ch) n \<longrightarrow> bit (ch_events ?ch) n \<or> n = 3 \<or> n = 4" by simp
  from dispatch_events [OF this, of True 0 "[]"] show ?thesis by (simp add: bits)
qed

end
