(* ===== verification/EPollPoller.thy ===== *)
theory EPollPoller
  imports Channel
begin

unbundle bit_operations_syntax

text \<open>
  \<open>mymuduo/net/Poller.h\<close>, \<open>Poller.cpp\<close>, \<open>EPollPoller.h\<close> and \<open>EPollPoller.cpp\<close>: which channels the
  poller knows and the \<open>epoll_ctl\<close> calls it makes. The outcome of such a call decides only what is
  logged, so the calls are recorded in order and the kernel is a parameter of the properties.
\<close>

section \<open>The poller\<close>

definition kNew :: int where "kNew = -1"
definition kAdded :: int where "kAdded = 1"
definition kDeleted :: int where "kDeleted = 2"

lemmas index_values = kNew_def kAdded_def kDeleted_def

datatype ctl_op = EPOLL_CTL_ADD | EPOLL_CTL_MOD | EPOLL_CTL_DEL

record poller =
  pl_channels :: "int \<rightharpoonup> nat"
  pl_events_size :: nat
  pl_calls :: "(ctl_op \<times> int \<times> evmask) list"

definition kInitEventListSize :: nat where "kInitEventListSize = 16"

definition new_poller :: poller where
  "new_poller = \<lparr>pl_channels = Map.empty, pl_events_size = kInitEventListSize, pl_calls = []\<rparr>"

definition update_ctl :: "ctl_op \<Rightarrow> channel \<Rightarrow> poller \<Rightarrow> poller" where
  "update_ctl operation ch p = p\<lparr>pl_calls := pl_calls p @ [(operation, ch_fd ch, ch_events ch)]\<rparr>"

definition updateChannel :: "poller \<Rightarrow> channel \<Rightarrow> poller \<times> channel" where
  "updateChannel p ch =
     (let index = ch_index ch in
      if index = kNew \<or> index = kDeleted
      then
        let p1 = (if index = kNew then p\<lparr>pl_channels := (pl_channels p)(ch_fd ch \<mapsto> ch_ptr ch)\<rparr> else p);
            ch1 = set_index ch kAdded
        in (update_ctl EPOLL_CTL_ADD ch1 p1, ch1)
      else if isNoneEvent ch then (update_ctl EPOLL_CTL_DEL ch p, set_index ch kDeleted)
      else (update_ctl EPOLL_CTL_MOD ch p, ch))"

definition removeChannel :: "poller \<Rightarrow> channel \<Rightarrow> poller \<times> channel" where
  "removeChannel p ch =
     (let p1 = p\<lparr>pl_channels := (pl_channels p)(ch_fd ch := None)\<rparr>;
          p2 = (if ch_index ch = kAdded then update_ctl EPOLL_CTL_DEL ch p1 else p1)
      in (p2, set_index ch kNew))"

definition hasChannel :: "poller \<Rightarrow> channel \<Rightarrow> bool" where
  "hasChannel p ch \<longleftrightarrow> pl_channels p (ch_fd ch) = Some (ch_ptr ch)"

section \<open>Channel operations that reach the poller\<close>

definition enableReading :: "poller \<Rightarrow> channel \<Rightarrow> poller \<times> channel" where
  "enableReading p ch = updateChannel p (ch\<lparr>ch_events := ch_events ch OR kReadEvent\<rparr>)"

definition disableReading :: "poller \<Rightarrow> channel \<Rightarrow> poller \<times> channel" where
  "disableReading p ch = updateChannel p (ch\<lparr>ch_events := ch_events ch AND NOT kReadEvent\<rparr>)"

definition enableWriting :: "poller \<Rightarrow> channel \<Rightarrow> poller \<times> channel" where
  "enableWriting p ch = updateChannel p (ch\<lparr>ch_events := ch_events ch OR kWriteEvent\<rparr>)"

definition disableWriting :: "poller \<Rightarrow> channel \<Rightarrow> poller \<times> channel" where
  "disableWriting p ch = updateChannel p (ch\<lparr>ch_events := ch_events ch AND NOT kWriteEvent\<rparr>)"

definition disableAll :: "poller \<Rightarrow> channel \<Rightarrow> poller \<times> channel" where
  "disableAll p ch = updateChannel p (ch\<lparr>ch_events := kNoneEvent\<rparr>)"

definition remove_channel :: "poller \<Rightarrow> channel \<Rightarrow> poller \<times> channel" where
  "remove_channel p ch = removeChannel p ch"

section \<open>Polling\<close>

text \<open>
  \<open>epoll_wait\<close> fails or returns at most as many entries as the event list holds, each with the
  channel pointer and the events; \<open>fillActiveChannels\<close> stores the events in the channels and
  lists them; a full event list is doubled.
\<close>

datatype wait_outcome = WaitErr nat | WaitEvents "(nat \<times> evmask) list"

fun fillActiveChannels :: "(nat \<times> evmask) list \<Rightarrow> (nat \<Rightarrow> channel) \<Rightarrow> (nat \<Rightarrow> channel) \<times> nat list" where
  "fillActiveChannels [] chans = (chans, [])"
| "fillActiveChannels ((ptr, ev) # evs) chans =
     (let (chans', act) = fillActiveChannels evs (chans(ptr := set_revents (chans ptr) ev))
      in (chans', ptr # act))"

definition poll :: "poller \<Rightarrow> (nat \<Rightarrow> channel) \<Rightarrow> wait_outcome \<Rightarrow>
    poller \<times> (nat \<Rightarrow> channel) \<times> nat list" where
  "poll p chans w =
     (case w of
        WaitErr e \<Rightarrow> (p, chans, [])
      | WaitEvents evs \<Rightarrow>
          let ready = take (pl_events_size p) evs; (chans', act) = fillActiveChannels ready chans in
          (if 0 < length ready \<and> length ready = pl_events_size p
           then p\<lparr>pl_events_size := pl_events_size p * 2\<rparr> else p, chans', act))"

section \<open>Lemmas\<close>

lemma update_ctl_simps [simp]:
  "pl_channels (update_ctl op ch p) = pl_channels p"
  "pl_events_size (update_ctl op ch p) = pl_events_size p"
  "pl_calls (update_ctl op ch p) = pl_calls p @ [(op, ch_fd ch, ch_events ch)]"
  by (simp_all add: update_ctl_def)

lemmas channel_ops = enableReading_def disableReading_def enableWriting_def disableWriting_def
  disableAll_def remove_channel_def

lemma updateChannel_fields [simp]:
  "ch_events (snd (updateChannel p ch)) = ch_events ch"
  "ch_fd (snd (updateChannel p ch)) = ch_fd ch" "ch_ptr (snd (updateChannel p ch)) = ch_ptr ch"
  by (simp_all add: updateChannel_def Let_def)

lemma removeChannel_fields [simp]:
  "ch_events (snd (removeChannel p ch)) = ch_events ch"
  "ch_fd (snd (removeChannel p ch)) = ch_fd ch" "ch_ptr (snd (removeChannel p ch)) = ch_ptr ch"
  "ch_index (snd (removeChannel p ch)) = kNew"
  by (simp_all add: removeChannel_def Let_def)

text \<open>What an operation does to the two interest bits.\<close>

lemma isWriting_ops [simp]:
  "isWriting (snd (enableWriting p ch))" "\<not> isWriting (snd (disableWriting p ch))"
  "\<not> isWriting (snd (disableAll p ch))"
  "isWriting (snd (enableReading p ch)) = isWriting ch"
  "isWriting (snd (disableReading p ch)) = isWriting ch"
  "isWriting (snd (remove_channel p ch)) = isWriting ch"
  by (simp_all add: channel_ops isWriting_def event_masks mask_bit2 bit_simps)

section \<open>The calls against a kernel\<close>

text \<open>
  The operations of the channels of one loop, in any order, on any descriptors.
\<close>

datatype chan_op = EnableReading | DisableReading | EnableWriting | DisableWriting | DisableAll | Remove

fun chan_apply :: "chan_op \<Rightarrow> poller \<Rightarrow> channel \<Rightarrow> poller \<times> channel" where
  "chan_apply EnableReading = enableReading"
| "chan_apply DisableReading = disableReading"
| "chan_apply EnableWriting = enableWriting"
| "chan_apply DisableWriting = disableWriting"
| "chan_apply DisableAll = disableAll"
| "chan_apply Remove = remove_channel"

fun run_chan_ops :: "(int \<times> chan_op) list \<Rightarrow> poller \<Rightarrow> (int \<Rightarrow> channel) \<Rightarrow> poller \<times> (int \<Rightarrow> channel)" where
  "run_chan_ops [] p chans = (p, chans)"
| "run_chan_ops ((fd, op) # ops) p chans =
     (let (p', ch') = chan_apply op p (chans fd) in run_chan_ops ops p' (chans(fd := ch')))"

text \<open>
  The manual page of \<open>epoll_ctl\<close>: adding succeeds for a descriptor that is not registered,
  modifying and deleting for one that is, with the obvious effect on the interest list.
  \<open>replay\<close> makes the recorded calls and stops at the first that fails.
\<close>

definition epoll_laws ::
    "(ctl_op \<Rightarrow> int \<Rightarrow> evmask \<Rightarrow> 'k \<Rightarrow> 'k option) \<Rightarrow> ('k \<Rightarrow> int \<rightharpoonup> evmask) \<Rightarrow> bool" where
  "epoll_laws ctl interest \<longleftrightarrow>
     (\<forall>k fd ev. interest k fd = None \<longrightarrow>
        (\<exists>k'. ctl EPOLL_CTL_ADD fd ev k = Some k' \<and> interest k' = (interest k)(fd \<mapsto> ev))) \<and>
     (\<forall>k fd ev. interest k fd \<noteq> None \<longrightarrow>
        (\<exists>k'. ctl EPOLL_CTL_MOD fd ev k = Some k' \<and> interest k' = (interest k)(fd \<mapsto> ev))) \<and>
     (\<forall>k fd ev. interest k fd \<noteq> None \<longrightarrow>
        (\<exists>k'. ctl EPOLL_CTL_DEL fd ev k = Some k' \<and> interest k' = (interest k)(fd := None)))"

fun replay :: "(ctl_op \<Rightarrow> int \<Rightarrow> evmask \<Rightarrow> 'k \<Rightarrow> 'k option) \<Rightarrow> (ctl_op \<times> int \<times> evmask) list \<Rightarrow> 'k \<Rightarrow> 'k option" where
  "replay ctl [] k = Some k"
| "replay ctl ((op, fd, ev) # cs) k =
     (case ctl op fd ev k of None \<Rightarrow> None | Some k' \<Rightarrow> replay ctl cs k')"

lemma replay_snoc:
  "replay ctl cs k = Some k1 \<Longrightarrow> replay ctl (cs @ [(op, fd, ev)]) k = ctl op fd ev k1"
  by (induction cs arbitrary: k) (auto split: option.splits)

text \<open>
  A descriptor is registered with the current events of its channel exactly when the index of the
  channel says so, and the poller lists exactly the channels it has seen and not removed.
\<close>

definition chan_ok :: "poller \<Rightarrow> (int \<rightharpoonup> evmask) \<Rightarrow> int \<Rightarrow> channel \<Rightarrow> bool" where
  "chan_ok p reg fd ch \<longleftrightarrow> ch_fd ch = fd \<and> ch_index ch \<in> {kNew, kAdded, kDeleted} \<and>
     reg fd = (if ch_index ch = kAdded then Some (ch_events ch) else None) \<and>
     pl_channels p fd = (if ch_index ch = kNew then None else Some (ch_ptr ch))"

definition poller_ok ::
    "(ctl_op \<Rightarrow> int \<Rightarrow> evmask \<Rightarrow> 'k \<Rightarrow> 'k option) \<Rightarrow> ('k \<Rightarrow> int \<rightharpoonup> evmask) \<Rightarrow> 'k \<Rightarrow>
      poller \<Rightarrow> (int \<Rightarrow> channel) \<Rightarrow> bool" where
  "poller_ok ctl interest k0 p chans \<longleftrightarrow>
     (\<exists>k. replay ctl (pl_calls p) k0 = Some k \<and> (\<forall>fd. chan_ok p (interest k) fd (chans fd)))"

lemma updateChannel_ok:
  assumes laws: "epoll_laws ctl interest" and ok: "poller_ok ctl interest k0 p chans"
    and st: "updateChannel p ((chans fd)\<lparr>ch_events := ev\<rparr>) = (p', ch')"
  shows "poller_ok ctl interest k0 p' (chans(fd := ch'))"
proof -
  from ok obtain k where k: "replay ctl (pl_calls p) k0 = Some k"
      and chs: "\<And>fd. chan_ok p (interest k) fd (chans fd)" by (auto simp: poller_ok_def)
  define ch where "ch = (chans fd)\<lparr>ch_events := ev\<rparr>"
  from chs [of fd] have fd: "ch_fd ch = fd" by (simp add: chan_ok_def ch_def)
  consider (add) "ch_index ch = kNew \<or> ch_index ch = kDeleted" | (reg) "ch_index ch = kAdded"
    using chs [of fd] by (auto simp: chan_ok_def ch_def)
  then show ?thesis
  proof cases
    case add
    then have "interest k fd = None" using chs [of fd] by (auto simp: chan_ok_def ch_def index_values)
    then obtain k' where k': "ctl EPOLL_CTL_ADD fd ev k = Some k'" "interest k' = (interest k)(fd \<mapsto> ev)"
      using laws unfolding epoll_laws_def by blast
    have "replay ctl (pl_calls p') k0 = Some k'"
      using st add fd k'(1) replay_snoc [OF k, of EPOLL_CTL_ADD fd ev]
      by (auto simp: updateChannel_def Let_def ch_def split: if_splits)
    moreover have "chan_ok p' (interest k') fd' ((chans(fd := ch')) fd')" for fd'
      using st add fd k'(2) chs [of fd'] chs [of fd]
      by (auto simp: updateChannel_def Let_def ch_def chan_ok_def index_values split: if_splits)
    ultimately show ?thesis by (auto simp: poller_ok_def)
  next
    case reg
    then have some: "interest k fd \<noteq> None" using chs [of fd] by (auto simp: chan_ok_def ch_def)
    show ?thesis
    proof (cases "isNoneEvent ch")
      case True
      from laws some obtain k' where k': "ctl EPOLL_CTL_DEL fd ev k = Some k'"
          "interest k' = (interest k)(fd := None)" unfolding epoll_laws_def by blast
      have "replay ctl (pl_calls p') k0 = Some k'"
        using st reg True fd k'(1) replay_snoc [OF k, of EPOLL_CTL_DEL fd ev]
        by (auto simp: updateChannel_def Let_def ch_def index_values split: if_splits)
      moreover have "chan_ok p' (interest k') fd' ((chans(fd := ch')) fd')" for fd'
        using st reg True fd k'(2) chs [of fd'] chs [of fd]
        by (auto simp: updateChannel_def Let_def ch_def chan_ok_def index_values split: if_splits)
      ultimately show ?thesis by (auto simp: poller_ok_def)
    next
      case False
      from laws some obtain k' where k': "ctl EPOLL_CTL_MOD fd ev k = Some k'"
          "interest k' = (interest k)(fd \<mapsto> ev)" unfolding epoll_laws_def by blast
      have "replay ctl (pl_calls p') k0 = Some k'"
        using st reg False fd k'(1) replay_snoc [OF k, of EPOLL_CTL_MOD fd ev]
        by (auto simp: updateChannel_def Let_def ch_def index_values split: if_splits)
      moreover have "chan_ok p' (interest k') fd' ((chans(fd := ch')) fd')" for fd'
        using st reg False fd k'(2) chs [of fd'] chs [of fd]
        by (auto simp: updateChannel_def Let_def ch_def chan_ok_def index_values split: if_splits)
      ultimately show ?thesis by (auto simp: poller_ok_def)
    qed
  qed
qed

lemma removeChannel_ok:
  assumes laws: "epoll_laws ctl interest" and ok: "poller_ok ctl interest k0 p chans"
    and st: "removeChannel p (chans fd) = (p', ch')"
  shows "poller_ok ctl interest k0 p' (chans(fd := ch'))"
proof -
  from ok obtain k where k: "replay ctl (pl_calls p) k0 = Some k"
      and chs: "\<And>fd. chan_ok p (interest k) fd (chans fd)" by (auto simp: poller_ok_def)
  from chs [of fd] have fd: "ch_fd (chans fd) = fd" by (simp add: chan_ok_def)
  show ?thesis
  proof (cases "ch_index (chans fd) = kAdded")
    case True
    then have "interest k fd \<noteq> None" using chs [of fd] by (simp add: chan_ok_def)
    with laws obtain k' where k': "ctl EPOLL_CTL_DEL fd (ch_events (chans fd)) k = Some k'"
        "interest k' = (interest k)(fd := None)" unfolding epoll_laws_def by blast
    have "replay ctl (pl_calls p') k0 = Some k'"
      using st True fd k'(1) replay_snoc [OF k, of EPOLL_CTL_DEL fd "ch_events (chans fd)"]
      by (auto simp: removeChannel_def Let_def)
    moreover have "chan_ok p' (interest k') fd' ((chans(fd := ch')) fd')" for fd'
      using st True fd k'(2) chs [of fd'] chs [of fd]
      by (auto simp: removeChannel_def Let_def chan_ok_def index_values)
    ultimately show ?thesis by (auto simp: poller_ok_def)
  next
    case False
    have "chan_ok p' (interest k) fd' ((chans(fd := ch')) fd')" for fd'
      using st False fd chs [of fd'] chs [of fd]
      by (auto simp: removeChannel_def Let_def chan_ok_def index_values)
    moreover have "pl_calls p' = pl_calls p" using st False by (auto simp: removeChannel_def)
    ultimately show ?thesis using k by (auto simp: poller_ok_def)
  qed
qed

lemma chan_apply_ok:
  assumes "epoll_laws ctl interest" "poller_ok ctl interest k0 p chans"
    and "chan_apply op p (chans fd) = (p', ch')"
  shows "poller_ok ctl interest k0 p' (chans(fd := ch'))"
  using assms by (cases op) (auto simp: channel_ops intro: updateChannel_ok removeChannel_ok)

lemma run_chan_ops_ok:
  "epoll_laws ctl interest \<Longrightarrow> poller_ok ctl interest k0 p chans \<Longrightarrow>
     run_chan_ops ops p chans = (p', chans') \<Longrightarrow> poller_ok ctl interest k0 p' chans'"
proof (induction ops arbitrary: p chans)
  case (Cons o1 ops)
  obtain fd op where o1: "o1 = (fd, op)" by (cases o1)
  obtain p1 ch1 where st: "chan_apply op p (chans fd) = (p1, ch1)" by fastforce
  have "poller_ok ctl interest k0 p1 (chans(fd := ch1))"
    using chan_apply_ok [OF Cons.prems(1,2) st] .
  then show ?case by (rule Cons.IH [OF Cons.prems(1)]) (use Cons.prems(3) o1 st in \<open>simp add: fun_upd_def\<close>)
qed simp

lemma new_poller_ok:
  "interest k0 = Map.empty \<Longrightarrow> poller_ok ctl interest k0 new_poller (\<lambda>fd. new_channel (addr fd) fd)"
  by (auto simp: poller_ok_def new_poller_def chan_ok_def index_values)

text \<open>A kernel that keeps the interest list as a map, for examples.\<close>

fun map_ctl :: "ctl_op \<Rightarrow> int \<Rightarrow> evmask \<Rightarrow> (int \<rightharpoonup> evmask) \<Rightarrow> (int \<rightharpoonup> evmask) option" where
  "map_ctl EPOLL_CTL_ADD fd ev k = (if k fd = None then Some (k(fd \<mapsto> ev)) else None)"
| "map_ctl EPOLL_CTL_MOD fd ev k = (if k fd = None then None else Some (k(fd \<mapsto> ev)))"
| "map_ctl EPOLL_CTL_DEL fd ev k = (if k fd = None then None else Some (k(fd := None)))"

lemma map_ctl_laws: "epoll_laws map_ctl (\<lambda>k. k)"
  by (auto simp: epoll_laws_def)

section \<open>Properties\<close>

text \<open>C16. For any sequence of enabling, disabling and removing operations on any channels of a
  loop, no \<open>epoll_ctl\<close> call the poller makes ever fails on a kernel that follows the manual page,
  and in the end the kernel watches exactly the descriptors whose channels are marked as added,
  each with the current events of its channel, while the poller lists exactly the channels that are
  not marked as new.\<close>

theorem poller_tracks_kernel:
  assumes "epoll_laws ctl interest" "interest k0 = Map.empty"
    and "run_chan_ops ops new_poller (\<lambda>fd. new_channel (addr fd) fd) = (p, chans)"
  shows "\<exists>k. replay ctl (pl_calls p) k0 = Some k \<and>
    (\<forall>fd. interest k fd = (if ch_index (chans fd) = kAdded then Some (ch_events (chans fd)) else None) \<and>
       (hasChannel p (chans fd) \<longleftrightarrow> ch_index (chans fd) \<noteq> kNew))"
proof -
  have "poller_ok ctl interest k0 p chans"
    by (rule run_chan_ops_ok [OF assms(1) _ assms(3)]) (rule new_poller_ok [of interest, OF assms(2)])
  then obtain k where "replay ctl (pl_calls p) k0 = Some k"
      and "\<And>fd. chan_ok p (interest k) fd (chans fd)" by (auto simp: poller_ok_def)
  then show ?thesis by (auto simp: chan_ok_def hasChannel_def)
qed

theorem poller_tracks_kernel_witness:
  "\<exists>k. replay map_ctl (pl_calls (fst (run_chan_ops
      [(7, EnableReading), (7, EnableWriting), (7, DisableAll), (7, EnableReading)] new_poller
      (\<lambda>fd. new_channel 0 fd)))) Map.empty = Some k \<and> k 7 = Some kReadEvent \<and> k 8 = None"
proof -
  let ?ops = "[(7, EnableReading), (7, EnableWriting), (7, DisableAll), (7, EnableReading)]"
  let ?ch0 = "\<lambda>fd. new_channel 0 fd"
  obtain p chans where run: "run_chan_ops ?ops new_poller ?ch0 = (p, chans)" by fastforce
  then have "ch_index (chans 7) = kAdded" "ch_events (chans 7) = kReadEvent" "ch_index (chans 8) \<noteq> kAdded"
    by (auto simp: channel_ops updateChannel_def Let_def isNoneEvent_def event_masks index_values)
  with poller_tracks_kernel [OF map_ctl_laws _ run, of Map.empty] run show ?thesis by auto
qed

end
