(* ===== verification/InetAddress.thy ===== *)
theory InetAddress
  imports Prelude
begin

unbundle bit_operations_syntax

text \<open>
  \<open>mymuduo/net/InetAddress.h\<close> and \<open>InetAddress.cpp\<close>: an IPv4 address and port in network byte order.
  Parsing a dotted address (\<open>inet_addr\<close> of the C library) is an argument.
\<close>

section \<open>Byte order\<close>

text \<open>\<open>htons\<close> and \<open>ntohs\<close> on a little-endian machine swap the two bytes.\<close>

definition htons :: "16 word \<Rightarrow> 16 word" where
  "htons w = push_bit 8 w OR drop_bit 8 w"

definition ntohs :: "16 word \<Rightarrow> 16 word" where
  "ntohs w = htons w"

lemma ntohs_htons [simp]: "ntohs (htons w) = w"
  by (rule bit_word_eqI) (auto simp: ntohs_def htons_def bit_simps)

section \<open>Addresses\<close>

record sockaddr_in =
  sin_port :: "16 word"
  sin_addr :: "32 word"

definition InetAddress :: "(string \<Rightarrow> 32 word) \<Rightarrow> 16 word \<Rightarrow> string \<Rightarrow> sockaddr_in" where
  "InetAddress inet_addr port ip = \<lparr>sin_port = htons port, sin_addr = inet_addr ip\<rparr>"

text \<open>\<open>inet_ntop\<close> prints the four bytes in memory order, which is the least significant first here.\<close>

definition addr_byte :: "32 word \<Rightarrow> nat \<Rightarrow> nat" where
  "addr_byte a i = unat (drop_bit (8 * i) a AND 255)"

definition toIp :: "sockaddr_in \<Rightarrow> string" where
  "toIp a = dec (addr_byte (sin_addr a) 0) @ ''.'' @ dec (addr_byte (sin_addr a) 1) @ ''.'' @
     dec (addr_byte (sin_addr a) 2) @ ''.'' @ dec (addr_byte (sin_addr a) 3)"

definition toPort :: "sockaddr_in \<Rightarrow> 16 word" where
  "toPort a = ntohs (sin_port a)"

text \<open>\<open>sprintf\<close> into what is left of a \<open>char[64]\<close>, with the terminating NUL.\<close>

definition toIpPort :: "sockaddr_in \<Rightarrow> string res" where
  "toIpPort a =
     (let s = toIp a @ '':'' @ dec (unat (toPort a))
      in if length s + 1 \<le> 64 then Inr s else Inl OutOfBounds)"

section \<open>Lemmas\<close>

lemma addr_byte_less: "addr_byte a i < 256"
proof -
  have "drop_bit (8 * i) a AND 255 \<le> 255" by (rule word_and_le1)
  then have "unat (drop_bit (8 * i) a AND 255) \<le> unat (255 :: 32 word)" by (simp only: word_le_nat_alt)
  then show ?thesis by (simp add: addr_byte_def)
qed

lemma length_dec_byte: "length (dec (addr_byte a i)) \<le> 3"
  using addr_byte_less [of a i] by (intro length_dec) simp_all

lemma length_dec_port: "length (dec (unat (p :: 16 word))) \<le> 5"
proof -
  have "unat p < 2 ^ 16" using unsigned_less [of p] by simp
  then show ?thesis by (intro length_dec) simp_all
qed

lemma length_toIp: "length (toIp a) \<le> 15"
  using length_dec_byte [of "sin_addr a" 0] length_dec_byte [of "sin_addr a" 1]
    length_dec_byte [of "sin_addr a" 2] length_dec_byte [of "sin_addr a" 3]
  by (simp add: toIp_def)

text \<open>Reading the numbers of a dotted text.\<close>

fun split_at :: "char \<Rightarrow> string \<Rightarrow> string list" where
  "split_at c [] = [[]]"
| "split_at c (x # xs) =
     (if x = c then [] # split_at c xs
      else (case split_at c xs of [] \<Rightarrow> [[x]] | y # ys \<Rightarrow> (x # y) # ys))"

lemma split_at_free: "c \<notin> set s \<Longrightarrow> split_at c s = [s]"
  by (induction s) auto

lemma split_at_join: "c \<notin> set s \<Longrightarrow> split_at c (s @ c # t) = s # split_at c t"
  by (induction s) auto

lemma dec_no_special [simp]: "CHR ''.'' \<notin> set (dec n)" "CHR '':'' \<notin> set (dec n)"
proof -
  have "\<not> is_digit (CHR ''.'')" by (simp add: is_digit_def)
  then show "CHR ''.'' \<notin> set (dec n)" using dec_digits [of n] by blast
  have "\<not> is_digit (CHR '':'')" by (simp add: is_digit_def)
  then show "CHR '':'' \<notin> set (dec n)" using dec_digits [of n] by blast
qed

section \<open>Properties\<close>

text \<open>C37. The text of an address never overruns its buffer: it has at most 21 characters, and from it
  one reads back the four address bytes and the port; the port given to the constructor in host
  order comes back from \<open>toPort\<close>.\<close>

theorem address_text_roundtrip:
  shows "\<exists>s. toIpPort a = Inr s \<and> length s \<le> 21 \<and>
    (\<exists>ip port. find_char (CHR '':'') s = Some (ip, port) \<and>
       map undec (split_at (CHR ''.'') ip) = map (addr_byte (sin_addr a)) [0, 1, 2, 3] \<and>
       undec port = unat (toPort a)) \<and>
    toPort (InetAddress inet_addr p ip') = p"
proof -
  let ?s = "toIp a @ '':'' @ dec (unat (toPort a))"
  have len: "length ?s \<le> 21" using length_toIp [of a] length_dec_port [of "toPort a"] by simp
  have "CHR '':'' \<notin> set (toIp a)" by (simp add: toIp_def)
  then have f: "find_char (CHR '':'') ?s = Some (toIp a, dec (unat (toPort a)))" by simp
  have "split_at (CHR ''.'') (toIp a) = map (\<lambda>i. dec (addr_byte (sin_addr a) i)) [0, 1, 2, 3]"
    by (simp add: toIp_def split_at_join split_at_free)
  then have "map undec (split_at (CHR ''.'') (toIp a)) = map (addr_byte (sin_addr a)) [0, 1, 2, 3]" by simp
  moreover have "toIpPort a = Inr ?s" using len by (simp add: toIpPort_def)
  ultimately show ?thesis using len f by (simp add: toPort_def InetAddress_def)
qed

end
