(* ===== verification/Socket.thy ===== *)
theory Socket
  imports Buffer InetAddress
begin

text \<open>
  \<open>mymuduo/net/Socket.h\<close> and \<open>Socket.cpp\<close>: a descriptor and the system calls made on it. The program
  looks at the results of these calls only to log them, except for that of \<open>accept4\<close>, which is an
  argument; so the state of a socket is its descriptor with the calls in their order.
\<close>

datatype sock_level = IPPROTO_TCP | SOL_SOCKET

datatype sock_option = TCP_NODELAY | SO_REUSEADDR | SO_REUSEPORT | SO_KEEPALIVE

datatype sock_call =
  SetSockOpt sock_level sock_option int | SockBind sockaddr_in | SockListen int | SockShutdown | SockClose

record socket =
  so_fd :: int
  so_calls :: "sock_call list"

definition new_socket :: "int \<Rightarrow> socket" where
  "new_socket sockfd = \<lparr>so_fd = sockfd, so_calls = []\<rparr>"

definition sock_do :: "sock_call \<Rightarrow> socket \<Rightarrow> socket" where
  "sock_do k s = s\<lparr>so_calls := so_calls s @ [k]\<rparr>"

definition bindAddress :: "sockaddr_in \<Rightarrow> socket \<Rightarrow> socket" where
  "bindAddress localaddr = sock_do (SockBind localaddr)"

definition socket_listen :: "socket \<Rightarrow> socket" where
  "socket_listen = sock_do (SockListen 1024)"

definition socket_shutdownWrite :: "socket \<Rightarrow> socket" where
  "socket_shutdownWrite = sock_do SockShutdown"

definition setTcpNoDelay :: "bool \<Rightarrow> socket \<Rightarrow> socket" where
  "setTcpNoDelay on = sock_do (SetSockOpt IPPROTO_TCP TCP_NODELAY (if on then 1 else 0))"

definition setReuseAddr :: "bool \<Rightarrow> socket \<Rightarrow> socket" where
  "setReuseAddr on = sock_do (SetSockOpt SOL_SOCKET SO_REUSEADDR (if on then 1 else 0))"

definition setReusePort :: "bool \<Rightarrow> socket \<Rightarrow> socket" where
  "setReusePort on = sock_do (SetSockOpt SOL_SOCKET SO_REUSEPORT (if on then 1 else 0))"

definition setKeepAlive :: "bool \<Rightarrow> socket \<Rightarrow> socket" where
  "setKeepAlive on = sock_do (SetSockOpt SOL_SOCKET SO_KEEPALIVE (if on then 1 else 0))"

definition delete_socket :: "socket \<Rightarrow> socket" where
  "delete_socket = sock_do SockClose"

text \<open>\<open>Socket::accept\<close>: the descriptor or the error, and the peer address it leaves.\<close>

definition socket_accept :: "errno + int \<times> sockaddr_in \<Rightarrow> sockaddr_in \<Rightarrow> (errno + int) \<times> sockaddr_in" where
  "socket_accept r peer = (case r of Inl e \<Rightarrow> (Inl e, peer) | Inr (fd, a) \<Rightarrow> (Inr fd, a))"

section \<open>What was asked of the kernel\<close>

text \<open>The value that an option was set to last, the addresses bound, and the calls of \<open>listen\<close>.\<close>

definition sock_opt :: "sock_option \<Rightarrow> socket \<Rightarrow> int option" where
  "sock_opt opt s = fold (\<lambda>k v. case k of SetSockOpt l q n \<Rightarrow> if q = opt then Some n else v | _ \<Rightarrow> v) (so_calls s) None"

definition socket_shut :: "socket \<Rightarrow> bool" where
  "socket_shut s \<longleftrightarrow> SockShutdown \<in> set (so_calls s)"

lemmas sock_defs = bindAddress_def socket_listen_def socket_shutdownWrite_def setTcpNoDelay_def
  setReuseAddr_def setReusePort_def setKeepAlive_def delete_socket_def

lemma sock_do_simps [simp]:
  "so_fd (sock_do k s) = so_fd s" "so_calls (sock_do k s) = so_calls s @ [k]"
  by (simp_all add: sock_do_def)

lemma new_socket_simps [simp]: "so_fd (new_socket fd) = fd" "so_calls (new_socket fd) = []"
  by (simp_all add: new_socket_def)

lemma socket_shut_simps [simp]:
  "socket_shut (new_socket fd) = False" "socket_shut (socket_shutdownWrite s) = True"
  "socket_shut (setKeepAlive on s) = socket_shut s" "socket_shut (setTcpNoDelay on s) = socket_shut s"
  "socket_shut (setReuseAddr on s) = socket_shut s" "socket_shut (setReusePort on s) = socket_shut s"
  "socket_shut (bindAddress a s) = socket_shut s" "socket_shut (socket_listen s) = socket_shut s"
  by (simp_all add: socket_shut_def sock_defs)

lemma sock_opt_do:
  "sock_opt opt (sock_do k s) = (case k of SetSockOpt l q n \<Rightarrow> if q = opt then Some n else sock_opt opt s | _ \<Rightarrow> sock_opt opt s)"
  by (cases k) (simp_all add: sock_opt_def)

text \<open>A setter sets its own option and no other.\<close>

lemma sock_opt_set:
  "sock_opt opt (setTcpNoDelay on s) = (if opt = TCP_NODELAY then Some (if on then 1 else 0) else sock_opt opt s)"
  "sock_opt opt (setReuseAddr on s) = (if opt = SO_REUSEADDR then Some (if on then 1 else 0) else sock_opt opt s)"
  "sock_opt opt (setReusePort on s) = (if opt = SO_REUSEPORT then Some (if on then 1 else 0) else sock_opt opt s)"
  "sock_opt opt (setKeepAlive on s) = (if opt = SO_KEEPALIVE then Some (if on then 1 else 0) else sock_opt opt s)"
  by (auto simp: sock_defs sock_opt_do)

end
