(* ===== verification/TcpConnection.thy ===== *)
theory TcpConnection
  imports Buffer EPollPoller Socket "HOL-Library.Sublist"
begin

text \<open>
  \<open>mymuduo/net/TcpConnection.h\<close> and \<open>TcpConnection.cpp\<close>: the state machine of a connection, its
  output path (direct write, output buffer, write events) and its shutdown. The record also holds
  what the operations touch outside the object: the poller and the pending functors of its loop,
  and of the socket the bytes the kernel has accepted (\<open>sk_wire\<close>) and the answers the kernel will give to the next calls of \<open>write\<close>; when
  they are used up the socket would block. The user's callbacks are arguments.
\<close>

section \<open>The connection\<close>

datatype StateE = kDisconnected | kConnecting | kConnected | kDisconnecting

text \<open>
  What the operations queue in the loop. A queued send holds the address of the caller's characters
  and their number, not the characters.
\<close>

datatype pending_functor = FSendInLoop nat nat | FShutdownInLoop | FWriteComplete | FHighWaterMark nat

record 'x tcp_connection =
  cn_state :: StateE
  cn_socket :: socket
  cn_channel :: channel
  cn_input :: buffer
  cn_output :: buffer
  cn_highWaterMark :: nat
  cn_hasWriteComplete :: bool
  cn_hasHighWaterMark :: bool
  cn_context :: 'x
  lp_poller :: poller
  lp_pending :: "pending_functor list"
  sk_wire :: string
  sk_writes :: "write_outcome list"

text \<open>Whether the write half of the socket was shut down.\<close>

abbreviation sk_shut :: "'x tcp_connection \<Rightarrow> bool" where
  "sk_shut c \<equiv> socket_shut (cn_socket c)"

definition new_connection :: "'x \<Rightarrow> nat \<Rightarrow> int \<Rightarrow> poller \<Rightarrow> write_outcome list \<Rightarrow> 'x tcp_connection" where
  "new_connection x ptr sockfd p ws =
     \<lparr>cn_state = kConnecting, cn_socket = setKeepAlive True (new_socket sockfd), cn_channel = new_channel ptr sockfd, cn_input = new_buffer kInitialSize,
      cn_output = new_buffer kInitialSize, cn_highWaterMark = 64 * 1024 * 1024,
      cn_hasWriteComplete = False, cn_hasHighWaterMark = False, cn_context = x,
      lp_poller = p, lp_pending = [], sk_wire = [], sk_writes = ws\<rparr>"

definition connected :: "'x tcp_connection \<Rightarrow> bool" where
  "connected c \<longleftrightarrow> cn_state c = kConnected"

definition setState :: "'x tcp_connection \<Rightarrow> StateE \<Rightarrow> 'x tcp_connection" where
  "setState c s = c\<lparr>cn_state := s\<rparr>"

definition setContext :: "'x tcp_connection \<Rightarrow> 'x \<Rightarrow> 'x tcp_connection" where
  "setContext c x = c\<lparr>cn_context := x\<rparr>"

text \<open>Of the two optional callbacks the connection itself only asks whether they are set.\<close>

definition setWriteCompleteCallback :: "bool \<Rightarrow> 'x tcp_connection \<Rightarrow> 'x tcp_connection" where
  "setWriteCompleteCallback has_cb c = c\<lparr>cn_hasWriteComplete := has_cb\<rparr>"

definition setHighWaterMarkCallback :: "bool \<Rightarrow> nat \<Rightarrow> 'x tcp_connection \<Rightarrow> 'x tcp_connection" where
  "setHighWaterMarkCallback has_cb highWaterMark c =
     c\<lparr>cn_hasHighWaterMark := has_cb, cn_highWaterMark := highWaterMark\<rparr>"

definition queueInLoop :: "pending_functor \<Rightarrow> 'x tcp_connection \<Rightarrow> 'x tcp_connection" where
  "queueInLoop f c = c\<lparr>lp_pending := lp_pending c @ [f]\<rparr>"

text \<open>An operation of the channel, which also acts on the poller of the loop.\<close>

definition chan_do ::
    "(poller \<Rightarrow> channel \<Rightarrow> poller \<times> channel) \<Rightarrow> 'x tcp_connection \<Rightarrow> 'x tcp_connection" where
  "chan_do f c = (let (p, ch) = f (lp_poller c) (cn_channel c) in c\<lparr>lp_poller := p, cn_channel := ch\<rparr>)"

text \<open>A call of \<open>write\<close> on the socket.\<close>

definition sock_write :: "string \<Rightarrow> 'x tcp_connection \<Rightarrow> (errno + nat) \<times> 'x tcp_connection" where
  "sock_write data c =
     (case sk_writes c of
        [] \<Rightarrow> (Inl EWOULDBLOCK, c)
      | w # ws \<Rightarrow>
          (case sys_write data w of
             Inl e \<Rightarrow> (Inl e, c\<lparr>sk_writes := ws\<rparr>)
           | Inr s \<Rightarrow> (Inr (length s), c\<lparr>sk_writes := ws, sk_wire := sk_wire c @ s\<rparr>)))"

definition shutdownWrite :: "'x tcp_connection \<Rightarrow> 'x tcp_connection" where
  "shutdownWrite c = c\<lparr>cn_socket := socket_shutdownWrite (cn_socket c)\<rparr>"

section \<open>Sending\<close>

text \<open>
  The direct write of \<open>sendInLoop\<close>: how much was written and whether the peer is gone. The check of
  \<open>kDisconnected\<close> at its start only logs, so it leaves no trace here.
\<close>

definition send_direct :: "string \<Rightarrow> 'x tcp_connection \<Rightarrow> nat \<times> bool \<times> 'x tcp_connection" where
  "send_direct data c =
     (if \<not> isWriting (cn_channel c) \<and> readableBytes (cn_output c) = 0
      then
        (case sock_write data c of
           (Inr nwrote, c1) \<Rightarrow>
             (nwrote, False,
              if length data - nwrote = 0 \<and> cn_hasWriteComplete c1 then queueInLoop FWriteComplete c1 else c1)
         | (Inl e, c1) \<Rightarrow> (0, e \<noteq> EWOULDBLOCK \<and> (e = EPIPE \<or> e = ECONNRESET), c1))
      else (0, False, c))"

definition sendInLoop :: "string \<Rightarrow> 'x tcp_connection \<Rightarrow> 'x tcp_connection res" where
  "sendInLoop data c =
     (let (nwrote, faultError, c1) = send_direct data c; remaining = length data - nwrote
      in if \<not> faultError \<and> 0 < remaining
         then
           let oldLen = readableBytes (cn_output c1);
               c2 = (if cn_highWaterMark c1 \<le> oldLen + remaining \<and> oldLen < cn_highWaterMark c1 \<and>
                         cn_hasHighWaterMark c1
                     then queueInLoop (FHighWaterMark (oldLen + remaining)) c1 else c1)
           in bind_res (append_data (cn_output c2) (drop nwrote data)) (\<lambda>b.
                let c3 = c2\<lparr>cn_output := b\<rparr>
                in Inr (if \<not> isWriting (cn_channel c3) then chan_do enableWriting c3 else c3))
         else Inr c1)"

text \<open>\<open>ptr\<close> is the address of the characters of \<open>buf\<close>.\<close>

definition send :: "bool \<Rightarrow> nat \<Rightarrow> string \<Rightarrow> 'x tcp_connection \<Rightarrow> 'x tcp_connection res" where
  "send inLoopThread ptr buf c =
     (if cn_state c = kConnected
      then if inLoopThread then sendInLoop buf c
           else Inr (queueInLoop (FSendInLoop ptr (length buf)) c)
      else Inr c)"

section \<open>Shutting down\<close>

definition shutdownInLoop :: "'x tcp_connection \<Rightarrow> 'x tcp_connection" where
  "shutdownInLoop c = (if \<not> isWriting (cn_channel c) then shutdownWrite c else c)"

definition shutdown :: "bool \<Rightarrow> 'x tcp_connection \<Rightarrow> 'x tcp_connection" where
  "shutdown inLoopThread c =
     (if cn_state c = kConnected
      then let c1 = setState c kDisconnecting
           in if inLoopThread then shutdownInLoop c1 else queueInLoop FShutdownInLoop c1
      else c)"

text \<open>Running a queued functor; \<open>mem\<close> is what lives at an address by then.\<close>

definition run_functor ::
    "(nat \<Rightarrow> string option) \<Rightarrow> ('x tcp_connection \<Rightarrow> 'x tcp_connection res) \<Rightarrow>
      (nat \<Rightarrow> 'x tcp_connection \<Rightarrow> 'x tcp_connection res) \<Rightarrow> pending_functor \<Rightarrow> 'x tcp_connection \<Rightarrow>
      'x tcp_connection res" where
  "run_functor mem writeComplete highWater f c =
     (case f of
        FSendInLoop ptr len \<Rightarrow>
          (case mem ptr of
             None \<Rightarrow> Inl UseAfterFree
           | Some s \<Rightarrow> if len \<le> length s then sendInLoop (take len s) c else Inl OutOfBounds)
      | FShutdownInLoop \<Rightarrow> Inr (shutdownInLoop c)
      | FWriteComplete \<Rightarrow> writeComplete c
      | FHighWaterMark n \<Rightarrow> highWater n c)"

section \<open>Events\<close>

definition connectEstablished ::
    "('x tcp_connection \<Rightarrow> 'x tcp_connection res) \<Rightarrow> 'x tcp_connection \<Rightarrow> 'x tcp_connection res" where
  "connectEstablished connectionCallback c =
     (let c1 = setState c kConnected; c2 = c1\<lparr>cn_channel := tie (cn_channel c1)\<rparr>
      in connectionCallback (chan_do enableReading c2))"

definition connectDestroyed ::
    "('x tcp_connection \<Rightarrow> 'x tcp_connection res) \<Rightarrow> 'x tcp_connection \<Rightarrow> 'x tcp_connection res" where
  "connectDestroyed connectionCallback c =
     bind_res
       (if cn_state c = kConnected
        then connectionCallback (chan_do disableAll (setState c kDisconnected)) else Inr c)
       (\<lambda>c1. Inr (chan_do remove_channel c1))"

definition handleClose ::
    "('x tcp_connection \<Rightarrow> 'x tcp_connection res) \<Rightarrow> ('x tcp_connection \<Rightarrow> 'x tcp_connection res) \<Rightarrow>
      'x tcp_connection \<Rightarrow> 'x tcp_connection res" where
  "handleClose connectionCallback closeCallback c =
     bind_res (connectionCallback (chan_do disableAll (setState c kDisconnected))) closeCallback"

text \<open>\<open>handleError\<close> only logs the error of the socket.\<close>

definition handleError :: "'x tcp_connection \<Rightarrow> 'x tcp_connection" where
  "handleError c = c"

definition handleRead ::
    "('x tcp_connection \<Rightarrow> 'x tcp_connection res) \<Rightarrow> (int \<Rightarrow> 'x tcp_connection \<Rightarrow> 'x tcp_connection res) \<Rightarrow>
      ('x tcp_connection \<Rightarrow> 'x tcp_connection res) \<Rightarrow> read_outcome \<Rightarrow> int \<Rightarrow>
      'x tcp_connection \<Rightarrow> 'x tcp_connection res" where
  "handleRead connectionCallback messageCallback closeCallback r receiveTime c =
     bind_res (readFd (cn_input c) r) (\<lambda>(b, n).
       let c1 = c\<lparr>cn_input := b\<rparr>
       in case n of
            Inr k \<Rightarrow> if 0 < k then messageCallback receiveTime c1
                     else handleClose connectionCallback closeCallback c1
          | Inl e \<Rightarrow> Inr (handleError c1))"

definition handleWrite :: "'x tcp_connection \<Rightarrow> 'x tcp_connection res" where
  "handleWrite c =
     (if isWriting (cn_channel c)
      then
        bind_res (vec_read (buf_store (cn_output c)) (readerIndex (cn_output c)) (readableBytes (cn_output c)))
          (\<lambda>data.
             case sock_write data c of
               (Inr n, c1) \<Rightarrow>
                 if 0 < n
                 then
                   let c2 = c1\<lparr>cn_output := retrieve (cn_output c1) n\<rparr>
                   in if readableBytes (cn_output c2) = 0
                      then
                        let c3 = chan_do disableWriting c2;
                            c4 = (if cn_hasWriteComplete c3 then queueInLoop FWriteComplete c3 else c3)
                        in Inr (if cn_state c4 = kDisconnecting then shutdownInLoop c4 else c4)
                      else Inr c2
                 else Inr c1
             | (Inl e, c1) \<Rightarrow> Inr c1)
      else Inr c)"

section \<open>The stream of a connection\<close>

text \<open>
  Abstractly a connection owns a stream: what the kernel has accepted followed by what waits in the
  output buffer. Only accepted sends extend it; writing moves the border.
\<close>

definition stream :: "'x tcp_connection \<Rightarrow> string" where
  "stream c = sk_wire c @ content (cn_output c)"

fun state_rank :: "StateE \<Rightarrow> nat" where
  "state_rank kConnecting = 0"
| "state_rank kConnected = 1"
| "state_rank kDisconnecting = 2"
| "state_rank kDisconnected = 3"

text \<open>The states are ordered by how far a connection has come in its life.\<close>

instantiation StateE :: linorder
begin

definition less_eq_StateE :: "StateE \<Rightarrow> StateE \<Rightarrow> bool" where
  "less_eq_StateE s t \<longleftrightarrow> state_rank s \<le> state_rank t"

definition less_StateE :: "StateE \<Rightarrow> StateE \<Rightarrow> bool" where
  "less_StateE s t \<longleftrightarrow> state_rank s < state_rank t"

instance
proof
  fix s t :: StateE
  show "s \<le> t \<Longrightarrow> t \<le> s \<Longrightarrow> s = t"
    by (cases s; cases t) (simp_all add: less_eq_StateE_def)
qed (auto simp: less_eq_StateE_def less_StateE_def)

end

lemmas state_order [simp] = less_eq_StateE_def less_StateE_def

text \<open>
  Write events are watched exactly while output waits, except that a closed connection may still
  hold output; after the end of the stream was sent, nothing waits and the connection is no longer
  connected.
\<close>

definition conn_inv :: "'x tcp_connection \<Rightarrow> bool" where
  "conn_inv c \<longleftrightarrow> buf_inv (cn_input c) \<and> buf_inv (cn_output c) \<and>
     (isWriting (cn_channel c) \<longrightarrow> content (cn_output c) \<noteq> []) \<and>
     (cn_state c \<noteq> kDisconnected \<longrightarrow> content (cn_output c) \<noteq> [] \<longrightarrow> isWriting (cn_channel c)) \<and>
     (sk_shut c \<longrightarrow> content (cn_output c) = [] \<and> kDisconnecting \<le> cn_state c)"

text \<open>
  What every step of the loop thread does: the state only advances, the stream and the bytes the
  kernel accepted only grow, and a connection that is not connected accepts nothing more.
\<close>

definition conn_le :: "'x tcp_connection \<Rightarrow> 'x tcp_connection \<Rightarrow> bool" where
  "conn_le c c' \<longleftrightarrow> cn_state c \<le> cn_state c' \<and>
     prefix (stream c) (stream c') \<and> prefix (sk_wire c) (sk_wire c') \<and>
     (kConnected < cn_state c \<longrightarrow> stream c' = stream c) \<and> (sk_shut c \<longrightarrow> sk_shut c')"

definition conn_step :: "'x tcp_connection \<Rightarrow> 'x tcp_connection \<Rightarrow> bool" where
  "conn_step c c' \<longleftrightarrow> (conn_inv c \<longrightarrow> conn_inv c' \<and> conn_le c c')"

lemma conn_step_refl [inv_intro, simp]: "conn_step c c"
  by (simp add: conn_step_def conn_le_def)

lemma conn_step_trans [trans]: "conn_step a b \<Longrightarrow> conn_step b c \<Longrightarrow> conn_step a c"
  by (auto simp: conn_step_def conn_le_def)

lemma conn_stepD: "conn_step c c' \<Longrightarrow> conn_inv c \<Longrightarrow> conn_inv c' \<and> conn_le c c'"
  by (simp add: conn_step_def)

lemma chan_do_simps [simp]:
  "cn_state (chan_do f c) = cn_state c" "cn_input (chan_do f c) = cn_input c"
  "cn_output (chan_do f c) = cn_output c" "cn_context (chan_do f c) = cn_context c"
  "sk_wire (chan_do f c) = sk_wire c" "sk_shut (chan_do f c) = sk_shut c"
  "sk_writes (chan_do f c) = sk_writes c" "lp_pending (chan_do f c) = lp_pending c"
  "cn_hasWriteComplete (chan_do f c) = cn_hasWriteComplete c"
  "cn_hasHighWaterMark (chan_do f c) = cn_hasHighWaterMark c"
  "cn_highWaterMark (chan_do f c) = cn_highWaterMark c"
  by (simp_all add: chan_do_def split: prod.splits)

lemma chan_do_channel [simp]: "cn_channel (chan_do f c) = snd (f (lp_poller c) (cn_channel c))"
  by (simp add: chan_do_def split: prod.splits)

lemma queueInLoop_simps [simp]:
  "cn_state (queueInLoop f c) = cn_state c" "cn_input (queueInLoop f c) = cn_input c"
  "cn_output (queueInLoop f c) = cn_output c" "cn_channel (queueInLoop f c) = cn_channel c"
  "cn_context (queueInLoop f c) = cn_context c"
  "sk_wire (queueInLoop f c) = sk_wire c" "sk_shut (queueInLoop f c) = sk_shut c"
  "sk_writes (queueInLoop f c) = sk_writes c" "lp_pending (queueInLoop f c) = lp_pending c @ [f]"
  "cn_hasWriteComplete (queueInLoop f c) = cn_hasWriteComplete c"
  "cn_hasHighWaterMark (queueInLoop f c) = cn_hasHighWaterMark c"
  "cn_highWaterMark (queueInLoop f c) = cn_highWaterMark c"
  "lp_poller (queueInLoop f c) = lp_poller c"
  by (simp_all add: queueInLoop_def)

lemma setState_simps [simp]:
  "cn_state (setState c s) = s" "cn_input (setState c s) = cn_input c"
  "cn_output (setState c s) = cn_output c" "cn_channel (setState c s) = cn_channel c"
  "sk_wire (setState c s) = sk_wire c" "sk_shut (setState c s) = sk_shut c"
  "sk_writes (setState c s) = sk_writes c" "lp_pending (setState c s) = lp_pending c"
  "cn_context (setState c s) = cn_context c"
  by (simp_all add: setState_def)

lemma setContext_simps [simp]:
  "cn_state (setContext c x) = cn_state c" "cn_input (setContext c x) = cn_input c"
  "cn_output (setContext c x) = cn_output c" "cn_channel (setContext c x) = cn_channel c"
  "sk_wire (setContext c x) = sk_wire c" "sk_shut (setContext c x) = sk_shut c"
  "sk_writes (setContext c x) = sk_writes c" "lp_pending (setContext c x) = lp_pending c"
  "cn_context (setContext c x) = x" "stream (setContext c x) = stream c"
  by (simp_all add: setContext_def stream_def)

lemma shutdown_simps [simp]:
  "cn_input (shutdown b c) = cn_input c" "cn_output (shutdown b c) = cn_output c"
  "cn_context (shutdown b c) = cn_context c" "stream (shutdown b c) = stream c"
  "sk_wire (shutdown b c) = sk_wire c" "sk_writes (shutdown b c) = sk_writes c"
  by (simp_all add: shutdown_def shutdownInLoop_def shutdownWrite_def setState_def queueInLoop_def
      stream_def Let_def)

lemma shutdown_connected:
  "cn_state c = kConnected \<Longrightarrow> conn_inv c \<Longrightarrow> cn_state (shutdown True c) = kDisconnecting \<and>
     sk_shut (shutdown True c) = (content (cn_output c) = [])"
  by (auto simp: shutdown_def shutdownInLoop_def shutdownWrite_def setState_def conn_inv_def Let_def)

section \<open>Sending\<close>

lemma take_min_length: "take (min (length xs) n) xs = take n xs"
  by (simp add: min_def)

lemma sock_write_spec:
  "sock_write data c = (r, c1) \<Longrightarrow> \<exists>ws. c1 = c\<lparr>sk_writes := ws,
     sk_wire := sk_wire c @ (case r of Inl e \<Rightarrow> [] | Inr n \<Rightarrow> take n data)\<rparr> \<and>
     (\<forall>n. r = Inr n \<longrightarrow> n \<le> length data) \<and> set ws \<subseteq> set (sk_writes c)"
  by (cases "sk_writes c") (auto simp: sock_write_def sys_write_def take_min_length split: write_outcome.splits
      intro: exI [of _ "sk_writes c"])

text \<open>The connection is idle and the kernel reports that the peer is gone: the data is dropped.\<close>

definition idle :: "'x tcp_connection \<Rightarrow> bool" where
  "idle c \<longleftrightarrow> \<not> isWriting (cn_channel c) \<and> readableBytes (cn_output c) = 0"

definition peer_gone :: "string \<Rightarrow> 'x tcp_connection \<Rightarrow> bool" where
  "peer_gone data c \<longleftrightarrow> idle c \<and> fst (sock_write data c) \<in> {Inl EPIPE, Inl ECONNRESET}"

text \<open>A kernel that never reports that the peer is gone.\<close>

definition peer_stays :: "'x tcp_connection \<Rightarrow> bool" where
  "peer_stays c \<longleftrightarrow> WriteErr EPIPE \<notin> set (sk_writes c) \<and> WriteErr ECONNRESET \<notin> set (sk_writes c)"

lemma peer_stays_not_gone: "peer_stays c \<Longrightarrow> \<not> peer_gone data c"
  by (cases "sk_writes c") (auto simp: peer_stays_def peer_gone_def sock_write_def sys_write_def
      split: write_outcome.splits)

lemma send_direct_spec:
  assumes "buf_inv (cn_output c)" "send_direct data c = (nw, fe, c1)"
  shows "cn_state c1 = cn_state c \<and> cn_input c1 = cn_input c \<and> cn_output c1 = cn_output c \<and>
    cn_channel c1 = cn_channel c \<and> sk_shut c1 = sk_shut c \<and> sk_wire c1 = sk_wire c @ take nw data \<and>
    nw \<le> length data \<and> fe = peer_gone data c \<and> (fe \<longrightarrow> nw = 0) \<and>
    (0 < nw \<longrightarrow> content (cn_output c) = []) \<and>
    lp_pending c1 = lp_pending c @
      (if idle c \<and> fst (sock_write data c) = Inr (length data) \<and> cn_hasWriteComplete c
       then [FWriteComplete] else []) \<and>
    cn_hasHighWaterMark c1 = cn_hasHighWaterMark c \<and> cn_highWaterMark c1 = cn_highWaterMark c \<and>
    set (sk_writes c1) \<subseteq> set (sk_writes c) \<and> cn_context c1 = cn_context c"
proof (cases "idle c")
  case True
  obtain r c2 where sw: "sock_write data c = (r, c2)" by fastforce
  from sock_write_spec [OF sw] True sw assms show ?thesis
    by (cases r) (auto simp: send_direct_def idle_def peer_gone_def content_empty_iff split: if_splits)
next
  case False
  with assms(2) show ?thesis by (auto simp: send_direct_def idle_def peer_gone_def)
qed

definition sent_tasks :: "string \<Rightarrow> 'x tcp_connection \<Rightarrow> pending_functor list" where
  "sent_tasks data c =
     (let nw = (if idle c then (case fst (sock_write data c) of Inl e \<Rightarrow> 0 | Inr n \<Rightarrow> n) else 0);
          old = readableBytes (cn_output c); new = old + (length data - nw)
      in (if idle c \<and> fst (sock_write data c) = Inr (length data) \<and> cn_hasWriteComplete c
          then [FWriteComplete] else []) @
         (if \<not> peer_gone data c \<and> nw < length data \<and> cn_hasHighWaterMark c \<and>
             old < cn_highWaterMark c \<and> cn_highWaterMark c \<le> new
          then [FHighWaterMark new] else []))"

lemma send_direct_nwrote:
  "send_direct data c = (nw, fe, c1) \<Longrightarrow>
     nw = (if idle c then (case fst (sock_write data c) of Inl e \<Rightarrow> 0 | Inr n \<Rightarrow> n) else 0)"
  by (auto simp: send_direct_def idle_def split: sum.splits prod.splits if_splits)

lemma sendInLoop_ok:
  assumes "buf_inv (cn_output c)"
  shows "\<exists>c'. sendInLoop data c = Inr c' \<and> buf_inv (cn_output c') \<and> cn_input c' = cn_input c \<and>
    cn_state c' = cn_state c \<and> sk_shut c' = sk_shut c \<and> prefix (sk_wire c) (sk_wire c') \<and>
    stream c' = stream c @ (if peer_gone data c then [] else data) \<and>
    (isWriting (cn_channel c') \<longleftrightarrow>
       isWriting (cn_channel c) \<or> content (cn_output c') \<noteq> content (cn_output c)) \<and>
    prefix (content (cn_output c)) (content (cn_output c')) \<and>
    lp_pending c' = lp_pending c @ sent_tasks data c \<and>
    set (sk_writes c') \<subseteq> set (sk_writes c) \<and> cn_context c' = cn_context c"
proof -
  obtain nw fe c1 where sd: "send_direct data c = (nw, fe, c1)" by (metis prod_cases3)
  note spec = send_direct_spec [OF assms sd] and nw = send_direct_nwrote [OF sd]
  show ?thesis
  proof (cases "\<not> fe \<and> nw < length data")
    case True
    define old where "old = readableBytes (cn_output c)"
    have old: "old = readableBytes (cn_output c1)" "cn_highWaterMark c1 = cn_highWaterMark c"
        "cn_hasHighWaterMark c1 = cn_hasHighWaterMark c" using spec by (simp_all add: old_def)
    define c2 where "c2 = (if cn_highWaterMark c1 \<le> old + (length data - nw) \<and>
        old < cn_highWaterMark c1 \<and> cn_hasHighWaterMark c1
      then queueInLoop (FHighWaterMark (old + (length data - nw))) c1 else c1)"
    have c2: "cn_output c2 = cn_output c" "cn_channel c2 = cn_channel c" "cn_state c2 = cn_state c"
        "cn_input c2 = cn_input c" "sk_shut c2 = sk_shut c" "sk_wire c2 = sk_wire c @ take nw data"
        "sk_writes c2 = sk_writes c1" "cn_context c2 = cn_context c"
      using spec by (simp_all add: c2_def)
    have tasks: "lp_pending c2 = lp_pending c @ sent_tasks data c"
      using spec True unfolding sent_tasks_def nw [symmetric] c2_def old(2,3) old_def Let_def by auto
    obtain b where b: "append_data (cn_output c) (drop nw data) = Inr b" "buf_inv b"
        "content b = content (cn_output c) @ drop nw data"
      using append_data_ok [OF assms, of "drop nw data"] by auto
    define c' where "c' = (if \<not> isWriting (cn_channel c) then chan_do enableWriting (c2\<lparr>cn_output := b\<rparr>)
      else c2\<lparr>cn_output := b\<rparr>)"
    have "sendInLoop data c = bind_res (append_data (cn_output c2) (drop nw data)) (\<lambda>b.
        Inr (if \<not> isWriting (cn_channel (c2\<lparr>cn_output := b\<rparr>))
             then chan_do enableWriting (c2\<lparr>cn_output := b\<rparr>) else c2\<lparr>cn_output := b\<rparr>))"
      unfolding sendInLoop_def sd Let_def c2_def old(1) using True by simp
    then have "sendInLoop data c = Inr c'" using b(1) c2(1,2) by (simp add: c'_def)
    moreover have "cn_output c' = b" "cn_state c' = cn_state c" "cn_input c' = cn_input c"
        "sk_shut c' = sk_shut c" "sk_wire c' = sk_wire c @ take nw data" "isWriting (cn_channel c')"
        "lp_pending c' = lp_pending c @ sent_tasks data c" "set (sk_writes c') \<subseteq> set (sk_writes c)"
        "cn_context c' = cn_context c"
      using c2 tasks spec by (simp_all add: c'_def)
    moreover have "(sk_wire c @ take nw data) @ content b = stream c @ data"
      using spec b(3) by (cases "0 < nw") (auto simp: stream_def)
    moreover have "\<not> peer_gone data c" using spec True by simp
    moreover have "content b \<noteq> content (cn_output c)" using b(3) True by simp
    ultimately show ?thesis
      using b by (intro exI [of _ c']) (simp add: stream_def)
  next
    case False
    then have "sendInLoop data c = Inr c1" using sd by (auto simp: sendInLoop_def)
    moreover have "stream c1 = stream c @ (if peer_gone data c then [] else data)"
      using spec False by (auto simp: stream_def)
    moreover have "lp_pending c1 = lp_pending c @ sent_tasks data c"
      using spec False nw by (auto simp: sent_tasks_def Let_def)
    ultimately show ?thesis using spec assms by auto
  qed
qed

section \<open>Every operation of the loop thread is a step\<close>

lemma sendInLoop_step [inv_intro]:
  "cn_state c = kConnected \<Longrightarrow> sendInLoop data c = Inr c' \<Longrightarrow> conn_step c c'"
  using sendInLoop_ok [of c data] unfolding conn_step_def conn_le_def conn_inv_def by auto

lemma send_step [inv_intro]: "send True ptr data c = Inr c' \<Longrightarrow> conn_step c c'"
  using sendInLoop_step [of c data c'] by (auto simp: send_def split: if_splits)

lemma send_ok:
  assumes "conn_inv c"
  shows "\<exists>c'. send True ptr data c = Inr c' \<and> conn_inv c' \<and> cn_context c' = cn_context c"
proof (cases "cn_state c = kConnected")
  case True
  obtain c' where c': "sendInLoop data c = Inr c'" "cn_context c' = cn_context c"
    using sendInLoop_ok [of c data] assms by (auto simp: conn_inv_def)
  then have "conn_inv c'" using sendInLoop_step [OF True c'(1)] assms by (simp add: conn_stepD)
  with c' True show ?thesis by (simp add: send_def)
next
  case False
  with assms show ?thesis by (simp add: send_def)
qed

lemma shutdown_step [inv_intro]: "conn_step c (shutdown True c)"
  by (auto simp: conn_step_def conn_le_def conn_inv_def shutdown_def shutdownInLoop_def Let_def
      shutdownWrite_def setState_def stream_def)

lemma setContext_step [inv_intro]: "conn_step c (setContext c x)"
  by (simp add: setContext_def conn_step_def conn_le_def conn_inv_def stream_def)

lemma conn_inv_chan:
  "conn_inv c \<Longrightarrow> isWriting (snd (f (lp_poller c) (cn_channel c))) = isWriting (cn_channel c) \<Longrightarrow>
     conn_inv (chan_do f c)"
  by (simp add: conn_inv_def)

lemma conn_le_chan [simp]: "conn_le c (chan_do f c)"
  by (simp add: conn_le_def stream_def)

lemma remove_step [inv_intro]: "conn_step c (chan_do remove_channel c)"
  by (simp add: conn_step_def conn_inv_chan)

lemma disconnect_step [inv_intro]: "conn_step c (chan_do disableAll (setState c kDisconnected))"
  by (cases "cn_state c") (auto simp: conn_step_def conn_le_def conn_inv_def stream_def)

lemma establish_step:
  assumes "cn_state c = kConnecting"
  shows "conn_step c (chan_do enableReading ((setState c kConnected)\<lparr>cn_channel := tie (cn_channel c)\<rparr>))"
  using assms by (auto simp: conn_step_def conn_le_def conn_inv_def stream_def)

lemma input_step: "buf_inv b \<Longrightarrow> conn_step c (c\<lparr>cn_input := b\<rparr>)"
  by (simp add: conn_step_def conn_le_def conn_inv_def stream_def)

text \<open>What one write event does when it can write.\<close>

definition written :: "nat \<Rightarrow> 'x tcp_connection \<Rightarrow> 'x tcp_connection \<Rightarrow> bool" where
  "written n c c' \<longleftrightarrow> cn_input c' = cn_input c \<and> cn_state c' = cn_state c \<and> cn_context c' = cn_context c \<and> buf_inv (cn_output c') \<and>
     sk_wire c' = sk_wire c @ take n (content (cn_output c)) \<and>
     content (cn_output c') = drop n (content (cn_output c)) \<and>
     (isWriting (cn_channel c') \<longleftrightarrow> isWriting (cn_channel c) \<and> content (cn_output c') \<noteq> []) \<and>
     (sk_shut c' \<longleftrightarrow> sk_shut c \<or> (content (cn_output c') = [] \<and> cn_state c = kDisconnecting))"

lemma handleWrite_data:
  assumes "conn_inv c" "isWriting (cn_channel c)"
    and sw: "sock_write (content (cn_output c)) c = (Inr n, c1)" and n: "0 < n"
  shows "\<exists>c'. handleWrite c = Inr c' \<and> written n c c' \<and> sk_writes c' = sk_writes c1"
proof -
  have inv: "buf_inv (cn_output c)" and ne: "content (cn_output c) \<noteq> []" and ns: "\<not> sk_shut c"
    using assms(1,2) by (auto simp: conn_inv_def)
  obtain ws where c1: "c1 = c\<lparr>sk_writes := ws, sk_wire := sk_wire c @ take n (content (cn_output c))\<rparr>"
    using sock_write_spec [OF sw] by auto
  define c2 where "c2 = c1\<lparr>cn_output := retrieve (cn_output c) n\<rparr>"
  have c2: "buf_inv (cn_output c2)" "content (cn_output c2) = drop n (content (cn_output c))"
      "readableBytes (cn_output c2) = 0 \<longleftrightarrow> content (cn_output c2) = []"
    using inv content_empty_iff [OF retrieve_inv [OF inv, of n]]
    by (simp_all add: c2_def abs_simp inv_intro)
  have vr: "vec_read (buf_store (cn_output c)) (readerIndex (cn_output c)) (readableBytes (cn_output c)) =
      Inr (content (cn_output c))"
    using vec_read_content [OF inv, of "readableBytes (cn_output c)"] inv by (simp add: length_content)
  show ?thesis
  proof (cases "content (cn_output c2) = []")
    case True
    define c3 where "c3 = (if cn_hasWriteComplete (chan_do disableWriting c2)
      then queueInLoop FWriteComplete (chan_do disableWriting c2) else chan_do disableWriting c2)"
    have c3: "\<not> isWriting (cn_channel c3)" "cn_output c3 = cn_output c2" "cn_state c3 = cn_state c"
        "cn_input c3 = cn_input c" "sk_wire c3 = sk_wire c1" "sk_shut c3 = sk_shut c"
        "sk_writes c3 = ws" "cn_context c3 = cn_context c"
      by (simp_all add: c3_def c2_def c1)
    have "handleWrite c = Inr (if cn_state c3 = kDisconnecting then shutdownInLoop c3 else c3)"
      using True assms(2) vr sw n c2(3) by (simp add: handleWrite_def Let_def c1 c3_def c2_def)
    then show ?thesis
      using True c3 c2 ns ne
      by (auto simp: written_def shutdownInLoop_def shutdownWrite_def c1)
  next
    case False
    then have "handleWrite c = Inr c2"
      using assms(2) vr sw n c2(3) by (simp add: handleWrite_def Let_def c1 c2_def)
    then show ?thesis using False c2 ns by (auto simp: written_def c2_def c1)
  qed
qed

lemma handleWrite_none:
  assumes "conn_inv c"
    and "\<not> isWriting (cn_channel c) \<or> (\<forall>n c1. sock_write (content (cn_output c)) c = (Inr n, c1) \<longrightarrow> n = 0)"
  shows "\<exists>ws. handleWrite c = Inr (c\<lparr>sk_writes := ws\<rparr>)"
proof (cases "isWriting (cn_channel c)")
  case True
  obtain r c1 where sw: "sock_write (content (cn_output c)) c = (r, c1)" by fastforce
  have inv: "buf_inv (cn_output c)" using assms(1) by (simp add: conn_inv_def)
  have vr: "vec_read (buf_store (cn_output c)) (readerIndex (cn_output c)) (readableBytes (cn_output c)) =
      Inr (content (cn_output c))"
    using vec_read_content [OF inv, of "readableBytes (cn_output c)"] inv by (simp add: length_content)
  from sock_write_spec [OF sw] assms(2) True sw obtain ws where "c1 = c\<lparr>sk_writes := ws\<rparr>"
      "\<forall>n. r = Inr n \<longrightarrow> n = 0"
    by (cases r) auto
  with True vr sw show ?thesis by (cases r) (auto simp: handleWrite_def)
next
  case False
  then have "handleWrite c = Inr (c\<lparr>sk_writes := sk_writes c\<rparr>)" by (simp add: handleWrite_def)
  then show ?thesis by blast
qed

lemma written_step: "conn_inv c \<Longrightarrow> isWriting (cn_channel c) \<Longrightarrow> written n c c' \<Longrightarrow> conn_step c c'"
  by (auto simp: written_def conn_step_def conn_le_def conn_inv_def stream_def)

lemma handleWrite_step [inv_intro]:
  assumes "conn_inv c"
  shows "\<exists>c'. handleWrite c = Inr c' \<and> conn_step c c' \<and> stream c' = stream c \<and>
    cn_context c' = cn_context c"
proof (cases "isWriting (cn_channel c) \<and> (\<exists>n c1. sock_write (content (cn_output c)) c = (Inr n, c1) \<and> 0 < n)")
  case True
  then obtain n c1 where n: "isWriting (cn_channel c)" "sock_write (content (cn_output c)) c = (Inr n, c1)" "0 < n"
    by blast
  obtain c' where c': "handleWrite c = Inr c'" "written n c c'"
    using handleWrite_data [OF assms n] by blast
  then have "stream c' = stream c" "cn_context c' = cn_context c" by (simp_all add: written_def stream_def)
  with c' written_step [OF assms n(1) c'(2)] show ?thesis by blast
next
  case False
  with handleWrite_none [OF assms] obtain ws where "handleWrite c = Inr (c\<lparr>sk_writes := ws\<rparr>)"
    by (metis gr0I)
  then show ?thesis by (auto simp: conn_step_def conn_le_def conn_inv_def stream_def)
qed

section \<open>Runs of the loop thread\<close>

text \<open>
  What the loop thread does to a connection: events of the channel, the API calls of code that runs
  in this thread, and the destruction by the server.
\<close>

datatype conn_event = Readable read_outcome int | Writable | HangUp | SockError
  | ApiSend nat string | ApiShutdown | Destroy

fun conn_event_step ::
    "('x tcp_connection \<Rightarrow> 'x tcp_connection res) \<Rightarrow> (int \<Rightarrow> 'x tcp_connection \<Rightarrow> 'x tcp_connection res) \<Rightarrow>
      ('x tcp_connection \<Rightarrow> 'x tcp_connection res) \<Rightarrow> conn_event \<Rightarrow> 'x tcp_connection \<Rightarrow>
      'x tcp_connection res" where
  "conn_event_step onC onM onX (Readable r t) c = handleRead onC onM onX r t c"
| "conn_event_step onC onM onX Writable c = handleWrite c"
| "conn_event_step onC onM onX HangUp c = handleClose onC onX c"
| "conn_event_step onC onM onX SockError c = Inr (handleError c)"
| "conn_event_step onC onM onX (ApiSend ptr s) c = send True ptr s c"
| "conn_event_step onC onM onX ApiShutdown c = Inr (shutdown True c)"
| "conn_event_step onC onM onX Destroy c = connectDestroyed onC c"

fun run_events ::
    "('x tcp_connection \<Rightarrow> 'x tcp_connection res) \<Rightarrow> (int \<Rightarrow> 'x tcp_connection \<Rightarrow> 'x tcp_connection res) \<Rightarrow>
      ('x tcp_connection \<Rightarrow> 'x tcp_connection res) \<Rightarrow> conn_event list \<Rightarrow> 'x tcp_connection \<Rightarrow>
      'x tcp_connection res" where
  "run_events onC onM onX [] c = Inr c"
| "run_events onC onM onX (e # es) c =
     bind_res (conn_event_step onC onM onX e c) (run_events onC onM onX es)"

text \<open>
  The contract of the user's callbacks: they reach the connection only through its operations, so
  each of them is a step.
\<close>

locale conn_client =
  fixes onConnection :: "'x tcp_connection \<Rightarrow> 'x tcp_connection res"
    and onMessage :: "int \<Rightarrow> 'x tcp_connection \<Rightarrow> 'x tcp_connection res"
    and onClose :: "'x tcp_connection \<Rightarrow> 'x tcp_connection res"
  assumes connection_step: "onConnection c = Inr c' \<Longrightarrow> conn_step c c'"
    and message_step: "onMessage t c = Inr c' \<Longrightarrow> conn_step c c'"
    and close_step: "onClose c = Inr c' \<Longrightarrow> conn_step c c'"
begin

lemma handleClose_step: "handleClose onConnection onClose c = Inr c' \<Longrightarrow> conn_step c c'"
  unfolding handleClose_def
  by (auto simp: bind_res_eq_Inr_iff dest!: connection_step close_step
      intro: conn_step_trans [OF conn_step_trans [OF disconnect_step]])

lemma connectDestroyed_step: "connectDestroyed onConnection c = Inr c' \<Longrightarrow> conn_step c c'"
  unfolding connectDestroyed_def
  by (auto simp: bind_res_eq_Inr_iff dest!: connection_step split: if_splits
      intro: remove_step conn_step_trans [OF conn_step_trans [OF disconnect_step] remove_step])

lemma handleRead_step:
  assumes "conn_inv c" "handleRead onConnection onMessage onClose r t c = Inr c'"
  shows "conn_step c c'"
proof -
  from assms(2) obtain b n where rd: "readFd (cn_input c) r = Inr (b, n)"
    by (cases "readFd (cn_input c) r") (auto simp: handleRead_def)
  then have "buf_inv b"
    using assms(1) readFd_inv [OF _ rd] by (simp add: conn_inv_def)
  then have in_step: "conn_step c (c\<lparr>cn_input := b\<rparr>)" by (rule input_step)
  show ?thesis
  proof (cases n)
    case (Inl e)
    with assms(2) rd in_step show ?thesis by (simp add: handleRead_def handleError_def)
  next
    case (Inr k)
    with assms(2) rd show ?thesis
      by (auto simp: handleRead_def Let_def split: if_splits
          intro: conn_step_trans [OF in_step] message_step handleClose_step)
  qed
qed

lemma event_step:
  assumes "conn_inv c" "conn_event_step onConnection onMessage onClose e c = Inr c'"
  shows "conn_step c c'"
proof (cases e)
  case Writable
  with handleWrite_step [OF assms(1)] assms(2) show ?thesis by auto
qed (use assms in \<open>auto simp: handleError_def intro: inv_intro handleRead_step handleClose_step
      connectDestroyed_step\<close>)

lemma run_events_step:
  "conn_inv c \<Longrightarrow> run_events onConnection onMessage onClose es c = Inr c' \<Longrightarrow> conn_step c c'"
proof (induction es arbitrary: c)
  case (Cons e es)
  then obtain c1 where c1: "conn_event_step onConnection onMessage onClose e c = Inr c1"
      "run_events onConnection onMessage onClose es c1 = Inr c'"
    by (auto simp: bind_res_eq_Inr_iff)
  have "conn_step c c1" using event_step [OF Cons.prems(1) c1(1)] .
  with Cons.IH [OF _ c1(2)] conn_stepD [of c c1] Cons.prems(1) conn_step_trans show ?case by blast
qed simp

lemma connectEstablished_step:
  "cn_state c = kConnecting \<Longrightarrow> connectEstablished onConnection c = Inr c' \<Longrightarrow> conn_step c c'"
  using establish_step [of c] connection_step conn_step_trans
  by (fastforce simp: connectEstablished_def Let_def)

end

lemma new_connection_simps [simp]:
  "cn_state (new_connection x ptr fd p ws) = kConnecting"
  "cn_input (new_connection x ptr fd p ws) = new_buffer kInitialSize"
  "cn_output (new_connection x ptr fd p ws) = new_buffer kInitialSize"
  "sk_writes (new_connection x ptr fd p ws) = ws" "sk_wire (new_connection x ptr fd p ws) = []"
  by (simp_all add: new_connection_def)

lemma new_connection_inv [inv_intro]: "conn_inv (new_connection x ptr fd p ws)"
  by (simp add: new_connection_def conn_inv_def inv_intro abs_simp isWriting_def)

section \<open>Draining the output\<close>

fun write_events :: "nat \<Rightarrow> 'x tcp_connection \<Rightarrow> 'x tcp_connection res" where
  "write_events 0 c = Inr c"
| "write_events (Suc n) c = bind_res (handleWrite c) (write_events n)"

lemma write_events_idle:
  "\<not> isWriting (cn_channel c) \<Longrightarrow> write_events n c = Inr c"
  by (induction n) (simp_all add: handleWrite_def)

lemma write_events_stream:
  "conn_inv c \<Longrightarrow> \<exists>c'. write_events n c = Inr c' \<and> conn_inv c' \<and> stream c' = stream c"
proof (induction n arbitrary: c)
  case (Suc n)
  obtain c1 where c1: "handleWrite c = Inr c1" "conn_step c c1" "stream c1 = stream c"
    using handleWrite_step [OF Suc.prems] by blast
  with Suc.IH [of c1] conn_stepD [OF c1(2) Suc.prems] show ?case by auto
qed simp

lemma write_events_drain:
  "conn_inv c \<Longrightarrow> isWriting (cn_channel c) \<Longrightarrow> sk_writes c = map WriteOk ns \<Longrightarrow> \<forall>n \<in> set ns. 0 < n \<Longrightarrow>
     length (content (cn_output c)) \<le> length ns \<Longrightarrow>
     \<exists>c'. write_events (length ns) c = Inr c' \<and> conn_inv c' \<and> content (cn_output c') = [] \<and>
       stream c' = stream c \<and> cn_state c' = cn_state c \<and> (cn_state c = kDisconnecting \<longrightarrow> sk_shut c')"
proof (induction ns arbitrary: c)
  case Nil
  then show ?case by (auto simp: conn_inv_def)
next
  case (Cons n ns)
  let ?k = "length (take n (content (cn_output c)))"
  from Cons.prems have ne: "content (cn_output c) \<noteq> []" and n: "0 < n" by (auto simp: conn_inv_def)
  then have k: "0 < ?k" by simp
  have sw: "sock_write (content (cn_output c)) c =
      (Inr ?k, c\<lparr>sk_writes := map WriteOk ns, sk_wire := sk_wire c @ take n (content (cn_output c))\<rparr>)"
    using Cons.prems(3) by (simp add: sock_write_def sys_write_def)
  obtain c1 where c1: "handleWrite c = Inr c1" "written ?k c c1" "sk_writes c1 = map WriteOk ns"
    using handleWrite_data [OF Cons.prems(1,2) sw k] by auto
  have inv: "conn_inv c1" and str: "stream c1 = stream c" and st: "cn_state c1 = cn_state c"
    using c1(2) conn_stepD [OF written_step [OF Cons.prems(1,2) c1(2)] Cons.prems(1)]
    by (auto simp: written_def stream_def)
  have shorter: "length (content (cn_output c1)) \<le> length ns"
    using c1(2) Cons.prems(5) ne n by (auto simp: written_def min_def)
  show ?case
  proof (cases "isWriting (cn_channel c1)")
    case True
    obtain c' where "write_events (length ns) c1 = Inr c'" "conn_inv c'" "content (cn_output c') = []"
        "stream c' = stream c" "cn_state c' = cn_state c" "cn_state c = kDisconnecting \<longrightarrow> sk_shut c'"
      using Cons.IH [OF inv True c1(3) _ shorter] Cons.prems(4) str st by auto
    with c1(1) show ?thesis by auto
  next
    case False
    then have "content (cn_output c1) = []" using c1(2) Cons.prems(2) unfolding written_def by blast
    moreover have "cn_state c = kDisconnecting \<longrightarrow> sk_shut c1"
      using c1(2) calculation by (simp add: written_def)
    moreover have "write_events (length (n # ns)) c = Inr c1"
      using c1(1) write_events_idle [OF False] by simp
    ultimately show ?thesis using inv str st by blast
  qed
qed

section \<open>Properties\<close>

text \<open>A connection in the middle of its life, for examples.\<close>

definition sample_connection :: "string \<Rightarrow> write_outcome list \<Rightarrow> unit tcp_connection" where
  "sample_connection out ws =
     (let c = (setState (new_connection () 1 7 new_poller ws) kConnected)\<lparr>cn_output := buffer_of out\<rparr>
      in if out = [] then c else chan_do enableWriting c)"

lemma sample_connection_simps [simp]:
  "cn_state (sample_connection out ws) = kConnected" "cn_output (sample_connection out ws) = buffer_of out"
  "sk_writes (sample_connection out ws) = ws" "sk_wire (sample_connection out ws) = []"
  "isWriting (cn_channel (sample_connection out ws)) \<longleftrightarrow> out \<noteq> []"
  "cn_input (sample_connection out ws) = new_buffer kInitialSize"
  "sk_shut (sample_connection out ws) = False" "lp_pending (sample_connection out ws) = []"
  "cn_hasWriteComplete (sample_connection out ws) = False"
  "cn_hasHighWaterMark (sample_connection out ws) = False"
  by (auto simp: sample_connection_def new_connection_def setState_def Let_def)

lemma sample_connection_inv [simp]: "conn_inv (sample_connection out ws)"
  by (simp add: conn_inv_def inv_intro)

text \<open>C2. \<open>sendInLoop\<close> on a well-formed connected connection never fails and extends the stream (what
  the kernel accepted, then the output buffer) by exactly the given bytes, whatever part of them
  the direct write accepts; only when the connection was idle and the kernel reports that the peer
  is gone are they dropped. Afterwards write events are watched exactly if output waits, and the
  write-complete and high-water callbacks are queued exactly when everything was written at once,
  respectively when the mark is crossed from below.\<close>

theorem sendInLoop_correct:
  assumes "conn_inv c" "cn_state c = kConnected"
  shows "\<exists>c'. sendInLoop data c = Inr c' \<and> conn_inv c' \<and> cn_state c' = kConnected \<and>
    stream c' = stream c @ (if peer_gone data c then [] else data) \<and>
    (isWriting (cn_channel c') \<longleftrightarrow> content (cn_output c') \<noteq> []) \<and>
    lp_pending c' = lp_pending c @ sent_tasks data c"
proof -
  obtain c' where c': "sendInLoop data c = Inr c'" "cn_state c' = cn_state c"
      "stream c' = stream c @ (if peer_gone data c then [] else data)"
      "lp_pending c' = lp_pending c @ sent_tasks data c"
    using sendInLoop_ok [of c data] assms(1) by (auto simp: conn_inv_def)
  moreover have "conn_inv c'"
    using sendInLoop_step [OF assms(2) c'(1)] assms(1) by (simp add: conn_stepD)
  ultimately show ?thesis using assms(2) by (auto simp: conn_inv_def)
qed

theorem sendInLoop_correct_witness:
  "\<exists>c'. sendInLoop ''hello'' (sample_connection [] [WriteOk 2]) = Inr c' \<and> stream c' = ''hello'' \<and>
     (isWriting (cn_channel c') \<longleftrightarrow> content (cn_output c') \<noteq> [])"
proof -
  have "\<not> peer_gone ''hello'' (sample_connection [] [WriteOk 2])"
    by (simp add: peer_gone_def sock_write_def sys_write_def)
  with sendInLoop_correct [of "sample_connection [] [WriteOk 2]" "''hello''"]
  show ?thesis by (auto simp: stream_def)
qed

text \<open>C25. Waiting output is delivered: when the kernel accepts at least one byte at each write event,
  as many write events as bytes wait empty the output buffer; then the kernel has accepted the whole
  stream, write events are no longer watched, and if a shutdown was pending the end of the stream
  has been sent, after the last byte.\<close>

theorem pending_output_delivered:
  assumes "conn_inv c" "isWriting (cn_channel c)" "sk_writes c = map WriteOk ns" "\<forall>n \<in> set ns. 0 < n"
    and "length (content (cn_output c)) \<le> length ns"
  shows "\<exists>c'. write_events (length ns) c = Inr c' \<and> sk_wire c' = stream c \<and>
    content (cn_output c') = [] \<and> \<not> isWriting (cn_channel c') \<and>
    (cn_state c = kDisconnecting \<longrightarrow> sk_shut c')"
proof -
  obtain c' where c': "write_events (length ns) c = Inr c'" "conn_inv c'" "content (cn_output c') = []"
      "stream c' = stream c" "cn_state c = kDisconnecting \<longrightarrow> sk_shut c'"
    using write_events_drain [OF assms] by blast
  then show ?thesis by (auto simp: stream_def conn_inv_def)
qed

theorem pending_output_delivered_witness:
  "\<exists>c'. write_events 2 (shutdown True (sample_connection ''ab'' [WriteOk 1, WriteOk 1])) = Inr c' \<and>
     sk_wire c' = ''ab'' \<and> sk_shut c'"
proof -
  let ?c = "shutdown True (sample_connection ''ab'' [WriteOk 1, WriteOk 1])"
  have "conn_inv ?c" using conn_stepD [OF shutdown_step sample_connection_inv] by blast
  moreover have "isWriting (cn_channel ?c)" "sk_writes ?c = map WriteOk [1, 1]"
      "cn_output ?c = buffer_of ''ab''" "sk_wire ?c = []" "cn_state ?c = kDisconnecting"
    by (simp_all add: shutdown_def shutdownInLoop_def)
  ultimately show ?thesis using pending_output_delivered [of ?c "[1, 1]"]
    by (auto simp: stream_def numeral_2_eq_2 simp del: write_events.simps)
qed

text \<open>A send from another thread does not keep the data: it queues the address and the length of
  the caller's string. When the functor runs, it does what a send in the loop thread does if that
  string still lives unchanged; if it was destroyed the functor reads freed memory, and if the
  memory holds another string by then, that string's bytes are sent.\<close>

theorem cross_thread_send_pointer:
  assumes "cn_state c = kConnected"
  shows "\<exists>f. send False ptr buf c = Inr (queueInLoop f c) \<and>
    (mem ptr = Some buf \<longrightarrow> run_functor mem wc hw f c1 = sendInLoop buf c1) \<and>
    (mem ptr = None \<longrightarrow> run_functor mem wc hw f c1 = Inl UseAfterFree) \<and>
    (mem ptr = Some other \<longrightarrow> length buf \<le> length other \<longrightarrow>
       run_functor mem wc hw f c1 = sendInLoop (take (length buf) other) c1)"
  using assms by (intro exI [of _ "FSendInLoop ptr (length buf)"]) (auto simp: send_def run_functor_def)

theorem cross_thread_send_pointer_witness:
  "\<exists>f. send False 64 ''secret'' (sample_connection [] []) = Inr (queueInLoop f (sample_connection [] [])) \<and>
     run_functor (\<lambda>a. None) Inr (\<lambda>n. Inr) f (sample_connection [] []) = Inl UseAfterFree"
  using cross_thread_send_pointer [of "sample_connection [] []" 64 "''secret''" "\<lambda>a. None" Inr "\<lambda>n. Inr"
      "sample_connection [] []"]
  by auto

text \<open>A disconnected connection does not give up writing, although it logs that it does: after a
  close, a queued send with an empty output buffer still calls \<open>write\<close>, and one that finds (or
  leaves) waiting output registers the descriptor with \<open>epoll\<close> again.\<close>

theorem disconnected_send_writes:
  assumes "conn_inv c" "handleClose Inr Inr c = Inr c1" "data \<noteq> []"
  shows "(content (cn_output c) = [] \<longrightarrow> sk_writes c = WriteOk (length data) # ws \<longrightarrow>
      (\<exists>c2. sendInLoop data c1 = Inr c2 \<and> cn_state c2 = kDisconnected \<and> sk_wire c2 = sk_wire c @ data)) \<and>
    (content (cn_output c) \<noteq> [] \<longrightarrow> ch_index (cn_channel c1) = kDeleted \<longrightarrow>
      (\<exists>c2. sendInLoop data c1 = Inr c2 \<and> cn_state c2 = kDisconnected \<and>
        last (pl_calls (lp_poller c2)) = (EPOLL_CTL_ADD, ch_fd (cn_channel c1), kWriteEvent)))"
proof -
  define c0 where "c0 = chan_do disableAll (setState c kDisconnected)"
  have c1: "c1 = c0" using assms(2) by (simp add: handleClose_def c0_def)
  have c0: "cn_state c0 = kDisconnected" "cn_output c0 = cn_output c" "sk_wire c0 = sk_wire c"
      "sk_writes c0 = sk_writes c" "\<not> isWriting (cn_channel c0)" "ch_events (cn_channel c0) = kNoneEvent"
      "buf_inv (cn_output c0)"
    using assms(1) by (simp_all add: c0_def conn_inv_def) (simp add: channel_ops)
  show ?thesis
  proof (intro conjI impI)
    assume "content (cn_output c) = []" "sk_writes c = WriteOk (length data) # ws"
    then show "\<exists>c2. sendInLoop data c1 = Inr c2 \<and> cn_state c2 = kDisconnected \<and> sk_wire c2 = sk_wire c @ data"
      using c0 content_empty_iff [OF c0(7)]
      by (auto simp: c1 sendInLoop_def send_direct_def sock_write_def sys_write_def Let_def)
  next
    assume ne: "content (cn_output c) \<noteq> []" and del: "ch_index (cn_channel c1) = kDeleted"
    obtain b where b: "append_data (cn_output c0) data = Inr b" using append_data_ok [OF c0(7)] by blast
    have sd: "send_direct data c0 = (0, False, c0)"
      using ne c0 content_empty_iff [OF c0(7)] by (simp add: send_direct_def)
    define c2 where "c2 = (if cn_highWaterMark c0 \<le> readableBytes (cn_output c0) + length data \<and>
        readableBytes (cn_output c0) < cn_highWaterMark c0 \<and> cn_hasHighWaterMark c0
      then queueInLoop (FHighWaterMark (readableBytes (cn_output c0) + length data)) c0 else c0)"
    have c2: "cn_output c2 = cn_output c0" "cn_channel c2 = cn_channel c0" "cn_state c2 = kDisconnected"
      using c0 by (simp_all add: c2_def)
    have "sendInLoop data c0 = bind_res (append_data (cn_output c2) data) (\<lambda>b.
        Inr (if \<not> isWriting (cn_channel (c2\<lparr>cn_output := b\<rparr>))
             then chan_do enableWriting (c2\<lparr>cn_output := b\<rparr>) else c2\<lparr>cn_output := b\<rparr>))"
      unfolding sendInLoop_def sd Let_def c2_def prod.case diff_zero using assms(3) by simp
    then have "sendInLoop data c0 = Inr (chan_do enableWriting (c2\<lparr>cn_output := b\<rparr>))"
      using b c2 c0(5) by simp
    then show "\<exists>c2. sendInLoop data c1 = Inr c2 \<and> cn_state c2 = kDisconnected \<and>
        last (pl_calls (lp_poller c2)) = (EPOLL_CTL_ADD, ch_fd (cn_channel c1), kWriteEvent)"
      using c2 c0(6) del
      by (simp add: c1 chan_do_def enableWriting_def updateChannel_def kNoneEvent_def Let_def)
  qed
qed

theorem disconnected_send_writes_witness:
  "\<exists>c1 c2. handleClose Inr Inr (sample_connection [] [WriteOk 2]) = Inr c1 \<and>
     sendInLoop ''hi'' c1 = Inr c2 \<and> cn_state c2 = kDisconnected \<and> sk_wire c2 = ''hi''"
proof -
  obtain c1 where "handleClose Inr Inr (sample_connection [] [WriteOk 2]) = Inr c1"
    by (simp add: handleClose_def)
  with disconnected_send_writes [OF _ this, of "''hi''" "[]"] show ?thesis by auto
qed

end
