(* ===== verification/HttpServer.thy ===== *)
theory HttpServer
  imports HttpContext HttpResponse TcpConnection
begin

text \<open>
  \<open>mymuduo/http/HttpServer.h\<close> and \<open>HttpServer.cpp\<close>: the callbacks that turn a connection into an
  HTTP conversation. The context of the connection is a \<open>std::any\<close>: empty, or an \<open>HttpContext\<close>.
  The user's callback is an argument. The callbacks run in the thread of the connection's loop.
\<close>

section \<open>The callbacks\<close>

type_synonym http_connection = "http_context option tcp_connection"
type_synonym http_callback = "http_request \<Rightarrow> http_response \<Rightarrow> http_response res"

definition defaultHttpCallback :: http_callback where
  "defaultHttpCallback req resp =
     Inr (setCloseConnection (setStatusMessage (setStatusCode resp k404NotFound) ''Not Found'') True)"

definition onConnection :: "http_connection \<Rightarrow> http_connection res" where
  "onConnection c = Inr (if connected c then setContext c (Some new_context) else c)"

definition close_wanted :: "http_request \<Rightarrow> bool" where
  "close_wanted req \<longleftrightarrow>
     (let connection = getHeader req ''Connection''
      in connection = ''close'' \<or> (req_version req = kHttp10 \<and> connection \<noteq> ''Keep-Alive''))"

definition onRequest :: "http_callback \<Rightarrow> http_connection \<Rightarrow> http_request \<Rightarrow> http_connection res" where
  "onRequest httpCallback conn req =
     bind_res (httpCallback req (new_response (close_wanted req))) (\<lambda>response.
     bind_res (appendToBuffer response (new_buffer kInitialSize)) (\<lambda>buf.
     bind_res (retrieveAllAsString buf) (\<lambda>(s, buf).
     bind_res (send True 0 s conn) (\<lambda>conn.
     Inr (if rsp_close response then shutdown True conn else conn)))))"

definition bad_request :: string where
  "bad_request = ''HTTP/1.1 400 Bad Request'' @ crlf @ crlf"

text \<open>A parse that never returns is \<open>Hangs\<close>, a context that is no \<open>HttpContext\<close> a null pointer.\<close>

definition onMessage :: "http_callback \<Rightarrow> int \<Rightarrow> http_connection \<Rightarrow> http_connection res" where
  "onMessage httpCallback receiveTime c =
     (case cn_context c of
        None \<Rightarrow> Inl NullDeref
      | Some context \<Rightarrow>
          (case parseRequest context (cn_input c) receiveTime of
             None \<Rightarrow> Inl Hangs
           | Some (Inl e) \<Rightarrow> Inl e
           | Some (Inr (ok, context1, buf)) \<Rightarrow>
               let c1 = setContext (c\<lparr>cn_input := buf\<rparr>) (Some context1) in
               bind_res
                 (if \<not> ok
                  then bind_res (send True 0 bad_request c1) (\<lambda>c2. Inr (shutdown True c2))
                  else Inr c1)
                 (\<lambda>c2.
                    if gotAll context1
                    then bind_res (onRequest httpCallback c2 (ctx_request context1))
                           (\<lambda>c3. Inr (setContext c3 (Some (reset_context context1))))
                    else Inr c2)))"

section \<open>The callbacks respect the connection\<close>

definition leaves_buf :: "(bool \<times> http_context \<times> buffer) res \<Rightarrow> bool" where
  "leaves_buf r \<longleftrightarrow> (case r of Inl e \<Rightarrow> True | Inr (ok, c, b) \<Rightarrow> buf_inv b)"

lemma leaves_buf_simps [simp]: "leaves_buf (Inl e)" "leaves_buf (Inr (ok, c, b)) = buf_inv b"
  by (simp_all add: leaves_buf_def)

lemma retrieveUntil_inv [inv_intro]: "buf_inv b \<Longrightarrow> buf_inv (retrieveUntil b p)"
  by (simp add: retrieveUntil_def Let_def retrieve_inv)

lemma parse_loop_inv:
  assumes "parse_loop c b t = Some r"
  shows "buf_inv b \<longrightarrow> leaves_buf r"
proof (rule parse_loop.raw_induct [where P = "\<lambda>c b t r. buf_inv b \<longrightarrow> leaves_buf r", OF _ assms], goal_cases)
  case (1 f c b t r)
  note IH = 1(1) [rule_format] and eq = 1(2)
  show ?case
  proof (rule impI)
    assume inv: "buf_inv b"
    have ru: "buf_inv (retrieveUntil b p)" for p using inv by (rule retrieveUntil_inv)
    show "leaves_buf r"
    proof (cases "ctx_state c")
      case kExpectRequestLine
      with eq inv show ?thesis
        by (auto split: option.splits sum.splits prod.splits if_splits intro: IH [OF _ ru])
    next
      case kExpectHeaders
      with eq inv show ?thesis
        by (auto split: option.splits sum.splits prod.splits if_splits intro: IH [OF _ ru] ru)
    next
      case kExpectBody
      with eq inv show ?thesis by (auto split: sum.splits intro: ru)
    next
      case kGotAll
      with eq have "f c b t = Some r" by simp
      then show ?thesis using inv by (rule IH)
    qed
  qed
qed

lemma parseRequest_inv [inv_intro]:
  "parseRequest c b t = Some (Inr (ok, c', b')) \<Longrightarrow> buf_inv b \<Longrightarrow> buf_inv b'"
  using parse_loop_inv [of c b t] by (auto simp: parseRequest_def)

lemma onConnection_step [inv_intro]: "onConnection c = Inr c' \<Longrightarrow> conn_step c c'"
  by (auto simp: onConnection_def intro: inv_intro)

lemma onRequest_step [inv_intro]: "onRequest cb c req = Inr c' \<Longrightarrow> conn_step c c'"
  by (auto simp: onRequest_def bind_res_eq_Inr_iff split: if_splits
      intro: inv_intro conn_step_trans [OF send_step shutdown_step])

lemma message_input_step:
  "buf_inv b \<Longrightarrow> conn_step c (setContext (c\<lparr>cn_input := b\<rparr>) x)"
  using conn_step_trans [OF input_step setContext_step] .

lemma onMessage_step [inv_intro]:
  assumes "onMessage cb t c = Inr c'"
  shows "conn_step c c'"
proof (cases "conn_inv c")
  case True
  from assms obtain ctx ctx1 ok b c2 where p: "parseRequest ctx (cn_input c) t = Some (Inr (ok, ctx1, b))"
      and c2: "(if \<not> ok then bind_res (send True 0 bad_request (setContext (c\<lparr>cn_input := b\<rparr>) (Some ctx1)))
          (\<lambda>c2. Inr (shutdown True c2)) else Inr (setContext (c\<lparr>cn_input := b\<rparr>) (Some ctx1))) = Inr c2"
      and c': "(if gotAll ctx1 then bind_res (onRequest cb c2 (ctx_request ctx1))
          (\<lambda>c3. Inr (setContext c3 (Some (reset_context ctx1)))) else Inr c2) = Inr c'"
    by (auto simp: onMessage_def Let_def bind_res_eq_Inr_iff split: option.splits sum.splits)
  have "buf_inv b" using parseRequest_inv [OF p] True by (simp add: conn_inv_def)
  then have "conn_step c (setContext (c\<lparr>cn_input := b\<rparr>) (Some ctx1))" by (rule message_input_step)
  also have "conn_step \<dots> c2"
    using c2 by (auto simp: bind_res_eq_Inr_iff split: if_splits
        intro: conn_step_trans [OF send_step shutdown_step])
  also have "conn_step c2 c'"
    using c' by (auto simp: bind_res_eq_Inr_iff split: if_splits
        intro: conn_step_trans [OF onRequest_step setContext_step])
  finally show ?thesis .
qed (simp add: conn_step_def)

text \<open>The close callback of a server only queues the removal of the connection.\<close>

interpretation http: conn_client onConnection "onMessage cb" Inr
  by unfold_locales (auto intro: inv_intro)

section \<open>Answering one request\<close>

lemma onRequest_ok:
  assumes "conn_inv c" "cn_state c = kConnected" "fits_int rsp"
    and "cb req (new_response (close_wanted req)) = Inr rsp"
  shows "\<exists>c'. onRequest cb c req = Inr c' \<and> conn_inv c' \<and>
    stream c' = stream c @ (if peer_gone (render rsp) c then [] else render rsp) \<and>
    cn_input c' = cn_input c \<and> cn_context c' = cn_context c \<and> set (sk_writes c') \<subseteq> set (sk_writes c) \<and>
    cn_state c' = (if rsp_close rsp then kDisconnecting else kConnected) \<and>
    (rsp_close rsp \<longrightarrow> sk_shut c' = (content (cn_output c') = []))"
proof -
  obtain b where b: "appendToBuffer rsp (new_buffer kInitialSize) = Inr b" "buf_inv b" "content b = render rsp"
    using appendToBuffer_ok [OF new_buffer_inv assms(3)] by (auto simp: abs_simp)
  obtain c1 where c1: "sendInLoop (render rsp) c = Inr c1" "cn_input c1 = cn_input c"
      "cn_state c1 = cn_state c" "stream c1 = stream c @ (if peer_gone (render rsp) c then [] else render rsp)"
      "set (sk_writes c1) \<subseteq> set (sk_writes c)" "cn_context c1 = cn_context c"
    using sendInLoop_ok [of c "render rsp"] assms(1) by (auto simp: conn_inv_def)
  have inv1: "conn_inv c1" using sendInLoop_step [OF assms(2) c1(1)] assms(1) by (simp add: conn_stepD)
  have eq: "onRequest cb c req = Inr (if rsp_close rsp then shutdown True c1 else c1)"
    using assms(2,4) b c1(1) by (simp add: onRequest_def abs_simp send_def)
  have inv2: "conn_inv (shutdown True c1)" using conn_stepD [OF shutdown_step inv1] by simp
  show ?thesis
    using c1 inv1 inv2 assms(2) shutdown_connected [of c1] by (simp add: eq)
qed

definition request_context :: "http_request \<Rightarrow> http_context" where
  "request_context r = \<lparr>ctx_state = kGotAll, ctx_request = r\<rparr>"

lemma onMessage_request:
  assumes "conn_inv c" "cn_state c = kConnected" "cn_context c = Some new_context"
    and "parse_spec new_context t (content (cn_input c)) = Inr (True, request_context r, after)"
    and "cb r (new_response (close_wanted r)) = Inr rsp" "fits_int rsp"
  shows "\<exists>c'. onMessage cb t c = Inr c' \<and> conn_inv c' \<and>
    stream c' = stream c @ (if peer_gone (render rsp) c then [] else render rsp) \<and>
    content (cn_input c') = after \<and> cn_context c' = Some new_context \<and>
    set (sk_writes c') \<subseteq> set (sk_writes c) \<and>
    cn_state c' = (if rsp_close rsp then kDisconnecting else kConnected) \<and>
    (rsp_close rsp \<longrightarrow> sk_shut c' = (content (cn_output c') = []))"
proof -
  have bi: "buf_inv (cn_input c)" using assms(1) by (simp add: conn_inv_def)
  obtain b where b: "parseRequest new_context (cn_input c) t = Some (Inr (True, request_context r, b))"
      "buf_inv b" "content b = after"
    using parseRequest_refines [OF bi _ assms(4)] by (auto simp: gotAll_def new_context_def)
  define c1 where "c1 = setContext (c\<lparr>cn_input := b\<rparr>) (Some (request_context r))"
  have inv1: "conn_inv c1"
    using conn_stepD [OF message_input_step [OF b(2)] assms(1)] by (simp add: c1_def)
  have c1: "cn_state c1 = kConnected" "stream c1 = stream c" "cn_input c1 = b" "sk_writes c1 = sk_writes c"
    using assms(2) by (simp_all add: c1_def stream_def)
  have gone: "peer_gone d c1 = peer_gone d c" for d
    by (simp add: peer_gone_def idle_def c1_def sock_write_def split: list.split sum.split)
  obtain c2 where c2: "onRequest cb c1 r = Inr c2" "conn_inv c2"
      "stream c2 = stream c @ (if peer_gone (render rsp) c then [] else render rsp)"
      "cn_input c2 = b" "set (sk_writes c2) \<subseteq> set (sk_writes c)"
      "cn_state c2 = (if rsp_close rsp then kDisconnecting else kConnected)"
      "rsp_close rsp \<longrightarrow> sk_shut c2 = (content (cn_output c2) = [])"
    using onRequest_ok [of c1 rsp cb r, OF inv1 c1(1) assms(6,5)] c1 gone by auto
  have "onMessage cb t c = Inr (setContext c2 (Some (reset_context (request_context r))))"
    using assms(3) b(1) c2(1) [unfolded c1_def] by (simp add: onMessage_def gotAll_def request_context_def)
  moreover have "reset_context (request_context r) = new_context"
    by (simp add: reset_context_def request_context_def swap_request_eq new_context_def)
  moreover have "conn_inv (setContext c2 x)" for x
    using conn_stepD [OF setContext_step c2(2)] by simp
  ultimately show ?thesis using c2 b(3) by simp
qed

lemma onMessage_rejected:
  assumes "conn_inv c" "cn_state c = kConnected" "cn_context c = Some new_context"
    and "parse_spec new_context t (content (cn_input c)) = Inr (False, ctx1, rest)"
  shows "\<exists>c'. onMessage cb t c = Inr c' \<and> conn_inv c' \<and>
    stream c' = stream c @ (if peer_gone bad_request c then [] else bad_request) \<and>
    cn_state c' = kDisconnecting \<and> sk_shut c' = (content (cn_output c') = [])"
proof -
  have bi: "buf_inv (cn_input c)" using assms(1) by (simp add: conn_inv_def)
  obtain b where b: "parseRequest new_context (cn_input c) t = Some (Inr (False, ctx1, b))" "buf_inv b"
    using parseRequest_refines [OF bi _ assms(4)] by (auto simp: gotAll_def new_context_def)
  define c1 where "c1 = setContext (c\<lparr>cn_input := b\<rparr>) (Some ctx1)"
  have inv1: "conn_inv c1"
    using conn_stepD [OF message_input_step [OF b(2)] assms(1)] by (simp add: c1_def)
  have c1: "cn_state c1 = kConnected" "stream c1 = stream c" using assms(2) by (simp_all add: c1_def stream_def)
  have gone: "peer_gone d c1 = peer_gone d c" for d
    by (simp add: peer_gone_def idle_def c1_def sock_write_def split: list.split sum.split)
  obtain c2 where c2: "sendInLoop bad_request c1 = Inr c2" "cn_state c2 = kConnected"
      "stream c2 = stream c @ (if peer_gone bad_request c then [] else bad_request)"
    using sendInLoop_ok [of c1 bad_request] inv1 c1 gone by (auto simp: conn_inv_def)
  have inv2: "conn_inv c2" using sendInLoop_step [OF c1(1) c2(1)] inv1 by (simp add: conn_stepD)
  have "\<not> gotAll ctx1" using parse_spec_states [OF assms(4)] by (simp add: gotAll_def)
  then have "onMessage cb t c = Inr (shutdown True c2)"
    using assms(2,3) b(1) c2(1) by (simp add: onMessage_def send_def flip: c1_def)
  then show ?thesis
    using c2 conn_stepD [OF shutdown_step inv2] shutdown_connected [OF c2(2) inv2] by simp
qed

section \<open>Which failures a conversation can end in\<close>

definition http_faults :: "fault set" where
  "http_faults = {AssertFailed, InvalidArgument, OutOfRange, LengthError, OutOfBounds}"

lemma stoi_faults: "fails_in http_faults (stoi s)"
  by (auto simp: stoi_def stoi_digits_def Let_def http_faults_def split: list.splits)

lemma vec_read_faults: "fails_in http_faults (vec_read v i n)"
  by (simp add: vec_read_def http_faults_def)

lemma request_line_faults: "fails_in http_faults (processRequestLine r line)"
  using processRequestLine_fault [of r line]
  by (cases "processRequestLine r line") (auto simp: http_faults_def)

lemma line_read_faults:
  "fails_in http_faults (bind_res (vec_read v i n) (processRequestLine r))"
  by (intro fails_in_bind vec_read_faults request_line_faults)

lemma read_body_faults: "fails_in http_faults (read_body b n)"
  by (simp add: read_body_def vec_read_faults) (simp add: http_faults_def)

lemma parse_loop_faults:
  assumes "parse_loop c b t = Some r"
  shows "fails_in http_faults r"
proof (rule parse_loop.raw_induct [where P = "\<lambda>c b t r. fails_in http_faults r", OF _ assms], goal_cases)
  case (1 f c b t r)
  note IH = 1(1) and eq = 1(2)
  note faults = fails_in_Inl [OF stoi_faults] fails_in_Inl [OF vec_read_faults]
    fails_in_Inl [OF line_read_faults] fails_in_Inl [OF read_body_faults]
  show ?case
  proof (cases "ctx_state c")
    case kExpectRequestLine
    with eq show ?thesis
      by (auto split: option.splits sum.splits prod.splits if_splits intro: IH dest: faults)
  next
    case kExpectHeaders
    with eq show ?thesis
      by (auto split: option.splits sum.splits prod.splits if_splits intro: IH dest: faults)
  next
    case kExpectBody
    with eq show ?thesis by (auto split: sum.splits dest: faults)
  next
    case kGotAll
    with eq have "f c b t = Some r" by simp
    then show ?thesis by (rule IH)
  qed
qed

lemma append_string_faults:
  assumes "buf_inv b"
  shows "fails_in http_faults (append_string b s) \<and> (\<forall>b'. append_string b s = Inr b' \<longrightarrow> buf_inv b')"
proof (cases "sint (word_of_nat (length s) :: 32 word) < 0")
  case False
  with append_data_ok [OF assms, of "take (nat (sint (word_of_nat (length s) :: 32 word))) s"] show ?thesis
    by (auto simp: append_string_def Let_def)
qed (auto simp: append_string_def Let_def http_faults_def)

lemma put_all_faults:
  "buf_inv b \<Longrightarrow> fails_in http_faults (put_all append_string b xss) \<and>
     (\<forall>b'. put_all append_string b xss = Inr b' \<longrightarrow> buf_inv b')"
proof (induction xss arbitrary: b)
  case (Cons xs xss)
  then show ?case using append_string_faults [OF Cons.prems, of xs]
    by (cases "append_string b xs") auto
qed simp

lemma send_never_fails: "conn_inv c \<Longrightarrow> fails_in F (send True p s c)"
  using send_ok [of c p s] by auto

lemma onRequest_faults:
  assumes "conn_inv c" "\<And>req rsp. fails_in http_faults (cb req rsp)"
  shows "fails_in http_faults (onRequest cb c req)"
  unfolding onRequest_def
  using put_all_faults [OF new_buffer_inv] assms
  by (intro fails_in_bind)
    (auto simp: appendToBuffer_def abs_simp send_never_fails split: prod.splits intro: fails_in_bind)

text \<open>Between two messages the context is an \<open>HttpContext\<close> that is not complete.\<close>

definition http_live :: "http_connection \<Rightarrow> bool" where
  "http_live c \<longleftrightarrow> conn_inv c \<and> (\<exists>ctx. cn_context c = Some ctx \<and> \<not> gotAll ctx)"

lemma onMessage_live:
  assumes "http_live c" and cb: "\<And>req rsp. fails_in http_faults (cb req rsp)"
  shows "fails_in http_faults (onMessage cb t c) \<and> (\<forall>c'. onMessage cb t c = Inr c' \<longrightarrow> http_live c')"
proof -
  from assms(1) obtain ctx where ctx: "cn_context c = Some ctx" "\<not> gotAll ctx" and inv: "conn_inv c"
    by (auto simp: http_live_def)
  then have "buf_inv (cn_input c)" by (simp add: conn_inv_def)
  from parse_loop_refines [OF this refl, of ctx t] ctx(2)
  obtain r where r: "parseRequest ctx (cn_input c) t = Some r"
    by (cases "parse_loop ctx (cn_input c) t")
      (auto simp: parseRequest_def gotAll_def parse_rel_def split: sum.splits prod.splits)
  show ?thesis
  proof (cases r)
    case (Inl e)
    with r ctx(1) parse_loop_faults [of ctx "cn_input c" t r] show ?thesis
      by (simp add: onMessage_def parseRequest_def)
  next
    case (Inr res)
    obtain ok ctx1 b where res: "res = (ok, ctx1, b)" by (metis prod_cases3)
    define c1 where "c1 = setContext (c\<lparr>cn_input := b\<rparr>) (Some ctx1)"
    have "parseRequest ctx (cn_input c) t = Some (Inr (ok, ctx1, b))" using r Inr res by simp
    from parseRequest_inv [OF this] inv have "buf_inv b" by (simp add: conn_inv_def)
    then have inv1: "conn_inv c1"
      using conn_stepD [OF message_input_step inv] unfolding c1_def by blast
    obtain s1 where s1: "send True 0 bad_request c1 = Inr s1" "conn_inv s1" "cn_context s1 = Some ctx1"
      using send_ok [OF inv1, of 0 bad_request] by (auto simp: c1_def)
    define c2 where "c2 = (if ok then c1 else shutdown True s1)"
    have c2: "conn_inv c2" "cn_context c2 = Some ctx1"
      using inv1 s1 conn_stepD [OF shutdown_step s1(2)] by (simp_all add: c2_def c1_def)
    have eq: "onMessage cb t c = (if gotAll ctx1
        then bind_res (onRequest cb c2 (ctx_request ctx1))
               (\<lambda>c3. Inr (setContext c3 (Some (reset_context ctx1)))) else Inr c2)"
      using r Inr res ctx(1) s1(1) by (simp add: onMessage_def c2_def flip: c1_def)
    show ?thesis
    proof (cases "gotAll ctx1")
      case True
      have "fails_in http_faults (onRequest cb c2 (ctx_request ctx1))"
        by (rule onRequest_faults [OF c2(1) cb])
      moreover have "conn_inv (setContext c3 (Some (reset_context ctx1)))"
        if "onRequest cb c2 (ctx_request ctx1) = Inr c3" for c3
        using conn_stepD [OF conn_step_trans [OF onRequest_step [OF that] setContext_step] c2(1)] by simp
      ultimately show ?thesis
        using True by (auto simp: eq http_live_def gotAll_def reset_context_def bind_res_eq_Inr_iff
            intro: fails_in_bind)
    next
      case False
      then show ?thesis using c2 by (simp add: eq http_live_def)
    qed
  qed
qed

lemma onConnection_live: "http_live c \<Longrightarrow> \<exists>c'. onConnection c = Inr c' \<and> http_live c'"
  using conn_stepD [OF setContext_step, of c]
  by (auto simp: onConnection_def http_live_def gotAll_def new_context_def)

lemma chan_do_live: "http_live c \<Longrightarrow> http_live (chan_do disableAll (setState c kDisconnected))"
  using conn_stepD [OF disconnect_step, of c] by (auto simp: http_live_def)

lemma handleClose_live: "http_live c \<Longrightarrow> \<exists>c'. handleClose onConnection Inr c = Inr c' \<and> http_live c'"
  using onConnection_live [OF chan_do_live, of c] by (auto simp: handleClose_def)

lemma event_live:
  assumes "http_live c" and cb: "\<And>req rsp. fails_in http_faults (cb req rsp)"
  shows "fails_in http_faults (conn_event_step onConnection (onMessage cb) Inr e c) \<and>
    (\<forall>c'. conn_event_step onConnection (onMessage cb) Inr e c = Inr c' \<longrightarrow> http_live c')"
proof (cases e)
  case (Readable r t)
  from assms(1) have bi: "buf_inv (cn_input c)" by (simp add: http_live_def conn_inv_def)
  obtain b n where rd: "readFd (cn_input c) r = Inr (b, n)" "buf_inv b"
    using readFd_total [OF bi] by blast
  then have live: "http_live (c\<lparr>cn_input := b\<rparr>)"
    using conn_stepD [OF input_step, of b c] assms(1) by (auto simp: http_live_def)
  show ?thesis
    using onMessage_live [where t = t, OF live cb] handleClose_live [OF live] live rd(1)
    by (cases n) (auto simp: Readable handleRead_def handleError_def Let_def)
next
  case Writable
  have "conn_inv c" using assms(1) by (simp add: http_live_def)
  from handleWrite_step [OF this] obtain c' where "handleWrite c = Inr c'" "conn_step c c'"
      "cn_context c' = cn_context c" by blast
  with conn_stepD [of c c'] assms(1) show ?thesis by (auto simp: Writable http_live_def)
next
  case HangUp
  with handleClose_live [OF assms(1)] show ?thesis by auto
next
  case SockError
  with assms(1) show ?thesis by (simp add: handleError_def)
next
  case (ApiSend p s)
  have inv: "conn_inv c" using assms(1) by (simp add: http_live_def)
  from send_ok [OF inv] obtain c' where "send True p s c = Inr c'" "conn_inv c'" "cn_context c' = cn_context c"
    by blast
  with assms(1) show ?thesis by (simp add: ApiSend http_live_def)
next
  case ApiShutdown
  with conn_stepD [OF shutdown_step, of c] assms(1) show ?thesis by (simp add: http_live_def)
next
  case Destroy
  have rm: "http_live c1 \<Longrightarrow> http_live (chan_do remove_channel c1)" for c1
    using conn_stepD [OF remove_step, of c1] by (simp add: http_live_def)
  show ?thesis
    using onConnection_live [OF chan_do_live [OF assms(1)]] assms(1) rm
    by (auto simp: Destroy connectDestroyed_def)
qed

lemma run_events_live:
  assumes cb: "\<And>req rsp. fails_in http_faults (cb req rsp)"
  shows "http_live c \<Longrightarrow> fails_in http_faults (run_events onConnection (onMessage cb) Inr es c)"
proof (induction es arbitrary: c)
  case (Cons e es)
  show ?case
    unfolding run_events.simps
    using event_live [where e = e, OF Cons.prems cb] Cons.IH by (intro fails_in_bind) auto
qed simp

lemma established_live:
  "\<exists>c. connectEstablished onConnection (new_connection x ptr fd p ws) = Inr c \<and> http_live c \<and>
     cn_state c = kConnected \<and> cn_context c = Some new_context \<and> stream c = [] \<and>
     cn_input c = new_buffer kInitialSize \<and> sk_writes c = ws"
proof -
  define c0 where "c0 = new_connection x ptr fd p ws"
  define c1 where "c1 = chan_do enableReading ((setState c0 kConnected)\<lparr>cn_channel := tie (cn_channel c0)\<rparr>)"
  define c where "c = setContext c1 (Some new_context)"
  have st: "conn_step c0 c1" unfolding c1_def by (rule establish_step) (simp add: c0_def)
  have "conn_inv c0" unfolding c0_def by (rule new_connection_inv)
  from conn_stepD [OF st this] have "conn_inv c1" by blast
  from conn_stepD [OF setContext_step this] have "conn_inv c" unfolding c_def by blast
  then have "http_live c" by (simp add: c_def http_live_def gotAll_def new_context_def)
  moreover have "cn_state c1 = kConnected" by (simp add: c1_def)
  then have "connectEstablished onConnection c0 = Inr c" "cn_state c = kConnected"
    by (simp_all add: connectEstablished_def onConnection_def connected_def c_def c1_def)
  moreover have "stream c = []" "cn_input c = new_buffer kInitialSize" "sk_writes c = ws"
    by (simp_all add: c_def c1_def c0_def stream_def abs_simp)
  ultimately show ?thesis unfolding c0_def c_def by auto
qed

section \<open>Requests one after the other\<close>

record http_msg =
  m_method :: Method
  m_path :: string
  m_query :: string
  m_version :: Version
  m_headers :: "(string \<times> string) list"
  m_body :: string

definition msg_text :: "http_msg \<Rightarrow> string" where
  "msg_text m = print_request (m_method m) (m_path m) (m_query m) (m_version m) (m_headers m) (m_body m)"

definition msg_request :: "int \<Rightarrow> http_msg \<Rightarrow> http_request" where
  "msg_request t m =
     parsed_request (m_method m) (m_path m) (m_query m) (m_version m) (m_headers m) (m_body m) t"

definition msg_ok :: "http_msg \<Rightarrow> bool" where
  "msg_ok m \<longleftrightarrow>
     wf_request (m_method m) (m_path m) (m_query m) (m_version m) (m_headers m) (m_body m)"

text \<open>What the callback answers to a message, and that it keeps the connection open.\<close>

definition answer_of :: "http_callback \<Rightarrow> int \<Rightarrow> http_msg \<Rightarrow> http_response res" where
  "answer_of cb t m = cb (msg_request t m) (new_response (close_wanted (msg_request t m)))"

lemma parse_msg:
  "msg_ok m \<Longrightarrow> parse_spec new_context t (msg_text m @ after) = Inr (True, request_context (msg_request t m), after)"
  by (simp add: msg_ok_def msg_text_def msg_request_def request_context_def parse_print)

lemma msg_text_nonempty: "msg_ok m \<Longrightarrow> 0 < length (msg_text m)"
  by (simp add: msg_text_def print_request_def print_line_def)

text \<open>The state between two requests of a keep-alive conversation.\<close>

definition ready :: "http_connection \<Rightarrow> bool" where
  "ready c \<longleftrightarrow> conn_inv c \<and> cn_state c = kConnected \<and> cn_context c = Some new_context \<and>
     content (cn_input c) = [] \<and> peer_stays c"

lemma ready_inv: "ready c \<Longrightarrow> conn_inv c" "ready c \<Longrightarrow> buf_inv (cn_input c)"
  unfolding ready_def conn_inv_def by blast+

lemma read_whole:
  assumes "buf_inv b" "content b = []" "length x \<le> extrabuf_size"
  shows "\<exists>b'. readFd b (ReadData x) = Inr (b', Inr (length x)) \<and> buf_inv b' \<and> content b' = x"
proof -
  have "take (iov_capacity b) x = x" using assms(3) by (simp add: iov_capacity_def)
  with readFd_ok [OF assms(1), of x] assms(2) show ?thesis by simp
qed

lemma serve_one:
  assumes "ready c" "msg_ok m" "length (msg_text m) \<le> extrabuf_size"
    and "answer_of cb t m = Inr rsp" "fits_int rsp" "\<not> rsp_close rsp"
  shows "\<exists>c'. handleRead onConnection (onMessage cb) Inr (ReadData (msg_text m)) t c = Inr c' \<and> ready c' \<and>
    stream c' = stream c @ render rsp"
proof -
  note inv = ready_inv(1) [OF assms(1)] and bi = ready_inv(2) [OF assms(1)]
  obtain b where b: "readFd (cn_input c) (ReadData (msg_text m)) = Inr (b, Inr (length (msg_text m)))"
      "buf_inv b" "content b = msg_text m"
    using read_whole [OF bi _ assms(3)] assms(1) by (auto simp: ready_def)
  define c1 where "c1 = c\<lparr>cn_input := b\<rparr>"
  have inv1: "conn_inv c1" using conn_stepD [OF input_step [OF b(2)] inv] by (simp add: c1_def)
  have c1: "cn_state c1 = kConnected" "cn_context c1 = Some new_context" "peer_stays c1"
      "stream c1 = stream c" "cn_input c1 = b"
    using assms(1) by (simp_all add: c1_def ready_def peer_stays_def stream_def)
  have sp: "parse_spec new_context t (content (cn_input c1)) = Inr (True, request_context (msg_request t m), [])"
    using parse_msg [OF assms(2), of t "[]"] c1(5) b(3) by simp
  obtain c' where c': "onMessage cb t c1 = Inr c'" "conn_inv c'" "stream c' = stream c @ render rsp"
      "content (cn_input c') = []" "cn_context c' = Some new_context" "set (sk_writes c') \<subseteq> set (sk_writes c1)"
      "cn_state c' = kConnected"
    using onMessage_request [where cb = cb, OF inv1 c1(1,2) sp assms(4) [unfolded answer_of_def] assms(5)]
      peer_stays_not_gone [OF c1(3)] c1(4) assms(6) by auto
  have "peer_stays c'" using c'(6) c1(3) by (auto simp: peer_stays_def)
  moreover have "handleRead onConnection (onMessage cb) Inr (ReadData (msg_text m)) t c = Inr c'"
    using b(1) c'(1) msg_text_nonempty [OF assms(2)] by (simp add: handleRead_def c1_def)
  ultimately show ?thesis using c' by (auto simp: ready_def)
qed

lemma serve_all:
  "ready c \<Longrightarrow> \<forall>m \<in> set ms. msg_ok m \<and> length (msg_text m) \<le> extrabuf_size \<Longrightarrow>
     list_all2 (\<lambda>m r. answer_of cb t m = Inr r \<and> fits_int r \<and> \<not> rsp_close r) ms rs \<Longrightarrow>
     \<exists>c'. run_events onConnection (onMessage cb) Inr (map (\<lambda>m. Readable (ReadData (msg_text m)) t) ms) c = Inr c' \<and>
       ready c' \<and> stream c' = stream c @ concat (map render rs)"
proof (induction ms arbitrary: c rs)
  case (Cons m ms)
  obtain r rs' where rs: "rs = r # rs'" using Cons.prems(3) by (cases rs) auto
  obtain c1 where c1: "handleRead onConnection (onMessage cb) Inr (ReadData (msg_text m)) t c = Inr c1"
      "ready c1" "stream c1 = stream c @ render r"
    using serve_one [OF Cons.prems(1), of m cb t r] Cons.prems(2,3) rs by auto
  with Cons.IH [OF c1(2), of rs'] Cons.prems(2,3) rs show ?case by auto
qed simp

lemma established_ready:
  assumes "WriteErr EPIPE \<notin> set ws" "WriteErr ECONNRESET \<notin> set ws"
  shows "\<exists>c. connectEstablished onConnection (new_connection x ptr fd p ws) = Inr c \<and> ready c \<and> stream c = []"
  using established_live [of x ptr fd p ws] assms
  by (auto simp: ready_def http_live_def peer_stays_def abs_simp)

section \<open>Properties\<close>


definition sample_msg :: http_msg where
  "sample_msg = \<lparr>m_method = kGet, m_path = ''/'', m_query = [], m_version = kHttp11, m_headers = [], m_body = []\<rparr>"

lemma sample_msg_ok: "msg_ok sample_msg" "length (msg_text sample_msg) \<le> extrabuf_size"
  by (simp_all add: sample_msg_def msg_ok_def wf_request_def wf_line_def msg_text_def print_request_def
      print_line_def extrabuf_size_def)

lemma sample_msg_keeps: "answer_of (\<lambda>req resp. Inr resp) t sample_msg = Inr (new_response False)"
  by (simp add: answer_of_def sample_msg_def msg_request_def parsed_request_def close_wanted_def
      getHeader_def smap_get_def)

lemma empty_response_fits [simp]: "fits_int (new_response b)"
  by (simp add: fits_int_def new_response_def)


text \<open>No sequence of socket events, sends, shutdowns and the destruction in the loop thread makes an
  HTTP connection hang in the parser, dereference a missing context or use freed memory, if the
  user's callback does not: the only failures are the assertion on a second method, the exceptions
  of the \<open>Content-Length\<close> conversion and of over-long strings, and the read behind the body.\<close>

theorem http_never_hangs:
  assumes "\<And>req rsp. fails_in http_faults (cb req rsp)"
    and "connectEstablished onConnection (new_connection x ptr fd p ws) = Inr c"
    and "run_events onConnection (onMessage cb) Inr es c = Inl e"
  shows "e \<in> {AssertFailed, InvalidArgument, OutOfRange, LengthError, OutOfBounds}"
proof -
  have "http_live c" using established_live [of x ptr fd p ws] assms(2) by auto
  from run_events_live [where cb = cb and es = es, OF assms(1) this] assms(3) show ?thesis
    by (simp add: http_faults_def)
qed

theorem http_never_hangs_witness:
  "\<exists>c e. connectEstablished onConnection (new_connection None 1 7 new_poller []) = Inr c \<and>
     run_events onConnection (onMessage (\<lambda>req rsp. Inl LengthError)) Inr
       [Readable (ReadData (msg_text sample_msg)) 3] c = Inl e \<and>
     e \<in> {AssertFailed, InvalidArgument, OutOfRange, LengthError, OutOfBounds}"
proof -
  let ?cb = "\<lambda>req rsp. Inl LengthError :: http_response res"
  obtain c where c: "connectEstablished onConnection (new_connection None 1 7 new_poller []) = Inr c" "ready c"
    using established_ready [of "[]" None 1 7 new_poller] by auto
  note bi = ready_inv(2) [OF c(2)]
  obtain b where b: "readFd (cn_input c) (ReadData (msg_text sample_msg)) = Inr (b, Inr (length (msg_text sample_msg)))"
      "buf_inv b" "content b = msg_text sample_msg"
    using read_whole [OF bi _ sample_msg_ok(2)] c(2) by (auto simp: ready_def)
  have "parse_spec new_context 3 (content b) = Inr (True, request_context (msg_request 3 sample_msg), [])"
    using parse_msg [OF sample_msg_ok(1), of 3 "[]"] b(3) by simp
  from parseRequest_refines [OF b(2) _ this] obtain b' where
    "parseRequest new_context b 3 = Some (Inr (True, request_context (msg_request 3 sample_msg), b'))"
    by (auto simp: gotAll_def new_context_def)
  then have "run_events onConnection (onMessage ?cb) Inr [Readable (ReadData (msg_text sample_msg)) 3] c =
      Inl LengthError"
    using c(2) b(1) msg_text_nonempty [OF sample_msg_ok(1)]
    by (simp add: handleRead_def onMessage_def onRequest_def ready_def request_context_def gotAll_def)
  moreover have "fails_in http_faults (?cb req rsp)" for req rsp by (simp add: http_faults_def)
  ultimately show ?thesis using http_never_hangs [of ?cb, OF _ c(1)] c(1) by blast
qed

text \<open>One complete request is answered exactly once: on a connected, well-formed connection whose
  parser is fresh, a message that completes a well-formed request extends the stream by the response
  of the callback to the parsed request (unless the peer is gone), leaves what follows the request in
  the input buffer, and leaves a fresh parser; the connection shuts down if and only if the response
  says so, and then the end of the stream is sent at once exactly when no output waits.\<close>

theorem request_answered:
  assumes "conn_inv c" "connected c" "cn_context c = Some new_context"
    and "msg_ok m" "content (cn_input c) = msg_text m @ after"
    and "answer_of cb t m = Inr rsp" "fits_int rsp"
  shows "\<exists>c'. onMessage cb t c = Inr c' \<and>
    stream c' = stream c @ (if peer_gone (render rsp) c then [] else render rsp) \<and>
    content (cn_input c') = after \<and> cn_context c' = Some new_context \<and>
    cn_state c' = (if rsp_close rsp then kDisconnecting else kConnected) \<and>
    (rsp_close rsp \<longrightarrow> sk_shut c' = (content (cn_output c') = []))"
proof -
  have "parse_spec new_context t (content (cn_input c)) = Inr (True, request_context (msg_request t m), after)"
    using parse_msg [OF assms(4)] assms(5) by simp
  from onMessage_request [where cb = cb, OF assms(1) _ assms(3) this assms(6) [unfolded answer_of_def] assms(7)]
    assms(2)
  show ?thesis by (auto simp: connected_def)
qed

definition sample_http :: "string \<Rightarrow> write_outcome list \<Rightarrow> http_connection" where
  "sample_http input ws = (setState (new_connection (Some new_context) 1 7 new_poller ws) kConnected)
     \<lparr>cn_input := buffer_of input\<rparr>"

lemma sample_http_simps [simp]:
  "conn_inv (sample_http s ws)" "connected (sample_http s ws)" "cn_state (sample_http s ws) = kConnected"
  "cn_context (sample_http s ws) = Some new_context" "cn_input (sample_http s ws) = buffer_of s"
  "stream (sample_http s ws) = []" "sk_writes (sample_http s ws) = ws"
  "content (cn_output (sample_http s ws)) = []"
  by (simp_all add: sample_http_def connected_def conn_inv_def stream_def inv_intro abs_simp)
    (simp_all add: new_connection_def)

theorem request_answered_witness:
  "\<exists>c'. onMessage defaultHttpCallback 3 (sample_http (msg_text sample_msg) [WriteOk 9]) = Inr c' \<and>
     stream c' = ''HTTP/1.1 404 Not Found'' @ crlf @ ''Connection: close'' @ crlf @ crlf \<and>
     cn_state c' = kDisconnecting"
proof -
  let ?c = "sample_http (msg_text sample_msg) [WriteOk 9]"
  let ?rsp = "setCloseConnection (setStatusMessage (setStatusCode (new_response False) k404NotFound) ''Not Found'') True"
  have "close_wanted (msg_request 3 sample_msg) = False"
    by (simp add: sample_msg_def msg_request_def parsed_request_def close_wanted_def getHeader_def smap_get_def)
  then have a: "answer_of defaultHttpCallback 3 sample_msg = Inr ?rsp"
    by (simp add: answer_of_def defaultHttpCallback_def)
  have f: "fits_int ?rsp"
    by (simp add: fits_int_def new_response_def setCloseConnection_def setStatusMessage_def setStatusCode_def)
  have "dec 404 = ''404''" by code_simp
  then have r: "render ?rsp = ''HTTP/1.1 404 Not Found'' @ crlf @ ''Connection: close'' @ crlf @ crlf"
    by (simp add: render_def head_lines_def status_line_def connection_lines_def new_response_def
        setCloseConnection_def setStatusMessage_def setStatusCode_def)
  have g: "\<not> peer_gone d ?c" for d by (rule peer_stays_not_gone) (simp add: peer_stays_def)
  have cl: "rsp_close ?rsp" by (simp add: setCloseConnection_def)
  have "content (cn_input ?c) = msg_text sample_msg @ []" by simp
  from request_answered [OF sample_http_simps(1,2,4) sample_msg_ok(1) this a f]
  show ?thesis unfolding sample_http_simps(6) if_not_P [OF g] if_P [OF cl] r by auto
qed

text \<open>C27. A request line that the parser rejects is answered with the 400 line and a shutdown: the
  stream is extended by exactly that text (unless the peer is gone), the connection is disconnecting,
  and the end of the stream is sent at once exactly when the text was written completely.\<close>

theorem bad_request_answered:
  assumes "conn_inv c" "connected c" "cn_context c = Some new_context"
    and "content (cn_input c) = line @ CR # LF # rest" "CR \<notin> set line"
    and "processRequestLine new_request line = Inr (r, False)"
  shows "\<exists>c'. onMessage cb t c = Inr c' \<and>
    stream c' = stream c @ (if peer_gone bad_request c then [] else bad_request) \<and>
    cn_state c' = kDisconnecting \<and> sk_shut c' = (content (cn_output c') = [])"
proof -
  have nl: "next_line (content (cn_input c)) = Some (line, rest)" using assms(4,5) by simp
  have st: "ctx_state new_context = kExpectRequestLine" by (simp add: new_context_def)
  have line: "processRequestLine (ctx_request new_context) line = Inr (r, False)"
    using assms(6) by (simp add: new_context_def)
  from onMessage_rejected [where cb = cb and t = t, OF assms(1) _ assms(3) parse_spec_eqs(3) [OF st nl line]] assms(2)
  show ?thesis by (auto simp: connected_def)
qed

theorem bad_request_answered_witness:
  "\<exists>c'. onMessage defaultHttpCallback 3 (sample_http (''nonsense'' @ crlf) [WriteOk 100]) = Inr c' \<and>
     stream c' = ''HTTP/1.1 400 Bad Request'' @ crlf @ crlf \<and> cn_state c' = kDisconnecting"
proof -
  let ?c = "sample_http (''nonsense'' @ crlf) [WriteOk 100]"
  have p: "processRequestLine new_request ''nonsense'' = Inr (new_request, False)"
    by (simp add: processRequestLine_def)
  have g: "\<not> peer_gone d ?c" for d by (rule peer_stays_not_gone) (simp add: peer_stays_def)
  have "content (cn_input ?c) = ''nonsense'' @ CR # LF # []" by simp
  from bad_request_answered [OF sample_http_simps(1,2,4) this _ p, of defaultHttpCallback 3] g
  show ?thesis by (auto simp: bad_request_def)
qed

text \<open>Pipelined requests stall: when a read delivers a whole request and further bytes, only the
  first request is answered; the further bytes, even another complete request, stay in the input
  buffer, and no number of write events adds anything to the stream: the answer to the second
  request waits for the peer to send more.\<close>

theorem pipelined_request_waits:
  assumes "conn_inv c" "connected c" "cn_context c = Some new_context" "peer_stays c"
    and "msg_ok m1" "msg_ok m2" "content (cn_input c) = msg_text m1 @ msg_text m2"
    and "answer_of cb t m1 = Inr rsp" "fits_int rsp"
  shows "\<exists>c1 c2. onMessage cb t c = Inr c1 \<and> write_events n c1 = Inr c2 \<and>
    stream c2 = stream c @ render rsp \<and> content (cn_input c1) = msg_text m2 \<and>
    cn_context c1 = Some new_context"
proof -
  have sp: "parse_spec new_context t (content (cn_input c)) =
      Inr (True, request_context (msg_request t m1), msg_text m2)"
    using parse_msg [OF assms(5)] assms(7) by simp
  obtain c1 where c1: "onMessage cb t c = Inr c1" "conn_inv c1" "stream c1 = stream c @ render rsp"
      "content (cn_input c1) = msg_text m2" "cn_context c1 = Some new_context"
    using onMessage_request [where cb = cb, OF assms(1) _ assms(3) sp assms(8) [unfolded answer_of_def] assms(9)]
      assms(2) peer_stays_not_gone [OF assms(4)] by (auto simp: connected_def)
  obtain c2 where "write_events n c1 = Inr c2" "stream c2 = stream c1"
    using write_events_stream [OF c1(2)] by blast
  with c1 show ?thesis by auto
qed

theorem pipelined_request_waits_witness:
  "\<exists>c1 c2. onMessage (\<lambda>req resp. Inr resp) 3 (sample_http (msg_text sample_msg @ msg_text sample_msg) []) = Inr c1 \<and>
     write_events 10 c1 = Inr c2 \<and> stream c2 = render (new_response False) \<and>
     content (cn_input c1) = msg_text sample_msg"
proof -
  have "peer_stays (sample_http (msg_text sample_msg @ msg_text sample_msg) [])" by (simp add: peer_stays_def)
  from pipelined_request_waits [OF sample_http_simps(1,2,4) this sample_msg_ok(1) sample_msg_ok(1) _
      sample_msg_keeps [of 3] empty_response_fits, of 10]
  show ?thesis by auto
qed

text \<open>C7. Over any history of an HTTP connection in its loop thread, its byte stream only grows, the
  kernel has at every moment accepted a prefix of it, nothing is added once the connection is no
  longer connected, and when the end of the stream has been sent, the kernel has accepted the whole
  stream and never gets another byte.\<close>

theorem http_stream_integrity:
  assumes "connectEstablished onConnection (new_connection x ptr fd p ws) = Inr c0"
    and "run_events onConnection (onMessage cb) Inr es c0 = Inr c1"
    and "run_events onConnection (onMessage cb) Inr es' c1 = Inr c2"
  shows "prefix (stream c1) (stream c2) \<and> prefix (sk_wire c1) (sk_wire c2) \<and> prefix (sk_wire c1) (stream c1) \<and>
    (\<not> connected c1 \<longrightarrow> stream c2 = stream c1) \<and>
    (sk_shut c1 \<longrightarrow> sk_wire c1 = stream c1 \<and> sk_wire c2 = sk_wire c1)"
proof -
  have c0: "conn_inv c0" "cn_state c0 = kConnected"
    using established_live [of x ptr fd p ws] assms(1) by (auto simp: http_live_def)
  from conn_stepD [OF http.run_events_step [OF c0(1) assms(2)] c0(1)]
  have c1: "conn_inv c1" "conn_le c0 c1" by auto
  from conn_stepD [OF http.run_events_step [OF c1(1) assms(3)] c1(1)]
  have c2: "conn_inv c2" "conn_le c1 c2" by auto
  have rank: "1 \<le> state_rank (cn_state c1)" using c1(2) c0(2) by (simp add: conn_le_def)
  then have frozen: "\<not> connected c1 \<Longrightarrow> stream c2 = stream c1"
    using c2(2) by (cases "cn_state c1") (auto simp: conn_le_def connected_def)
  have shut: "sk_wire c1 = stream c1 \<and> sk_wire c2 = sk_wire c1" if "sk_shut c1"
  proof -
    have "content (cn_output c1) = []" "2 \<le> state_rank (cn_state c1)" "sk_shut c2"
      using that c1(1) c2(2) by (auto simp: conn_inv_def conn_le_def)
    moreover from this(3) have "content (cn_output c2) = []" using c2(1) by (simp add: conn_inv_def)
    moreover have "stream c2 = stream c1" using c2(2) calculation(2) by (simp add: conn_le_def)
    ultimately show ?thesis by (simp add: stream_def)
  qed
  from c2(2) frozen shut show ?thesis by (auto simp: conn_le_def stream_def)
qed

theorem http_stream_integrity_witness:
  "\<exists>c0 c2. connectEstablished onConnection (new_connection None 1 7 new_poller [WriteOk 2]) = Inr c0 \<and>
     run_events onConnection (onMessage defaultHttpCallback) Inr [ApiShutdown] c0 = Inr (shutdown True c0) \<and>
     run_events onConnection (onMessage defaultHttpCallback) Inr [ApiSend 0 ''late''] (shutdown True c0) = Inr c2 \<and>
     sk_wire c2 = sk_wire (shutdown True c0)"
proof -
  obtain c0 where c0: "connectEstablished onConnection (new_connection None 1 7 new_poller [WriteOk 2]) = Inr c0"
      "ready c0" "stream c0 = []"
    using established_ready [of "[WriteOk 2]" None 1 7 new_poller] by auto
  let ?c1 = "shutdown True c0"
  have r1: "run_events onConnection (onMessage defaultHttpCallback) Inr [ApiShutdown] c0 = Inr ?c1" by simp
  have "conn_inv ?c1" using conn_stepD [OF shutdown_step] ready_inv(1) [OF c0(2)] by blast
  then obtain c2 where c2: "send True 0 ''late'' ?c1 = Inr c2" using send_ok by blast
  then have r2: "run_events onConnection (onMessage defaultHttpCallback) Inr [ApiSend 0 ''late''] ?c1 = Inr c2"
    by simp
  have "content (cn_output c0) = []" using c0(3) by (simp add: stream_def)
  then have "sk_shut ?c1"
    using shutdown_connected [of c0] c0(2) ready_inv(1) [OF c0(2)] by (simp add: ready_def)
  with http_stream_integrity [OF c0(1) r1 r2] c0(1) r1 r2 show ?thesis by blast
qed

end
