(* ===== verification/Timestamp.thy ===== *)
theory Timestamp
  imports Prelude
begin

text \<open>
  \<open>mymuduo/utils/Timestamp.h\<close>, \<open>Timestamp.cpp\<close> and \<open>mymuduo/utils/Atomic.h\<close>: time stamps in
  microseconds (an \<open>int64_t\<close>), the addition of a \<open>double\<close> number of seconds,, the text
  of a time stamp (\<open>localtime\<close> of the C library is an argument), and the atomic counters.
\<close>

section \<open>Signed 64-bit numbers\<close>

definition int64 :: "int \<Rightarrow> int res" where
  "int64 x = (if - (2 ^ 63) \<le> x \<and> x < 2 ^ 63 then Inr x else Inl IntOverflow)"

lemma int64_eq_Inr: "int64 x = Inr y \<longleftrightarrow> y = x \<and> - (2 ^ 63) \<le> x \<and> x < 2 ^ 63"
  by (auto simp: int64_def)

section \<open>Doubles\<close>

text \<open>
  A finite double is an integer times a power of two. Multiplication rounds the exact product to 53
  significant bits, ties to even. The exponent range plays no role for what the code does with a
  product: a product too large for a double is too large for \<open>int64_t\<close>, and one that is
  subnormal is cut to zero.
\<close>

datatype double = DFinite int int | DInf bool | DNaN

fun bit_length :: "nat \<Rightarrow> nat" where
  "bit_length n = (if n = 0 then 0 else Suc (bit_length (n div 2)))"

declare bit_length.simps [simp del]

definition round_half_even :: "nat \<Rightarrow> nat \<Rightarrow> nat" where
  "round_half_even n k =
     (let q = n div 2 ^ k; r = n mod 2 ^ k
      in if 2 * r < 2 ^ k then q
         else if 2 ^ k < 2 * r then q + 1
         else q + q mod 2)"

definition round53 :: "int \<Rightarrow> int \<Rightarrow> int \<times> int" where
  "round53 m e =
     (let n = nat \<bar>m\<bar>; k = bit_length n - 53
      in (sgn m * int (round_half_even n k), e + int k))"

definition double_mult_int :: "double \<Rightarrow> int \<Rightarrow> double" where
  "double_mult_int d n =
     (case d of
        DFinite m e \<Rightarrow> (case round53 (m * n) e of (m', e') \<Rightarrow> DFinite m' e')
      | DInf neg \<Rightarrow> (if n = 0 then DNaN else DInf (neg \<noteq> (n < 0)))
      | DNaN \<Rightarrow> DNaN)"

definition double_pos :: "double \<Rightarrow> bool" where
  "double_pos d = (case d of DFinite m e \<Rightarrow> 0 < m | DInf neg \<Rightarrow> \<not> neg | DNaN \<Rightarrow> False)"

text \<open>\<open>static_cast<int64_t>\<close> cuts off the fraction; out of range it is undefined.\<close>

definition double_to_int64 :: "double \<Rightarrow> int res" where
  "double_to_int64 d =
     (case d of
        DFinite m e \<Rightarrow>
          int64 (if 0 \<le> e then m * 2 ^ nat e else sgn m * (\<bar>m\<bar> div 2 ^ nat (- e)))
      | DInf neg \<Rightarrow> Inl IntOverflow
      | DNaN \<Rightarrow> Inl IntOverflow)"

section \<open>Time stamps\<close>

type_synonym timestamp = int

definition kMicroSecondsPerSecond :: int where "kMicroSecondsPerSecond = 1000 * 1000"

definition invalid_time :: timestamp where "invalid_time = 0"

definition valid_time :: "timestamp \<Rightarrow> bool" where "valid_time t \<longleftrightarrow> 0 < t"

text \<open>\<open>now()\<close> wraps the result of \<open>time(NULL)\<close>, which counts seconds, without scaling it.\<close>

definition now_time :: "int \<Rightarrow> timestamp" where "now_time unix_seconds = unix_seconds"

definition addTime :: "timestamp \<Rightarrow> double \<Rightarrow> timestamp res" where
  "addTime t seconds =
     bind_res (double_to_int64 (double_mult_int seconds kMicroSecondsPerSecond)) (\<lambda>delta.
     int64 (t + delta))"

definition swap_time :: "timestamp \<Rightarrow> timestamp \<Rightarrow> timestamp \<times> timestamp" where
  "swap_time s t = (t, s)"

section \<open>The text of a time stamp\<close>

record tm =
  tm_year :: int
  tm_mon :: int
  tm_mday :: int
  tm_hour :: int
  tm_min :: int
  tm_sec :: int

text \<open>The conversions \<open>%4d\<close> and \<open>%02d\<close> of \<open>snprintf\<close>: a field is filled up with spaces before the sign or
  with zeros behind it.\<close>

definition print_int :: "bool \<Rightarrow> nat \<Rightarrow> int \<Rightarrow> string" where
  "print_int zeros w n =
     (let sign = (if n < 0 then ''-'' else []); ds = dec (nat \<bar>n\<bar>); fill = w - length (sign @ ds)
      in if zeros then sign @ replicate fill (CHR ''0'') @ ds else replicate fill (CHR '' '') @ sign @ ds)"

definition time_text :: "int \<Rightarrow> int \<Rightarrow> tm \<Rightarrow> string" where
  "time_text year month t =
     print_int False 4 year @ ''/'' @ print_int True 2 month @ ''/'' @ print_int True 2 (tm_mday t) @ '' '' @
     print_int True 2 (tm_hour t) @ '':'' @ print_int True 2 (tm_min t) @ '':'' @ print_int True 2 (tm_sec t)"

text \<open>\<open>localtime\<close> gets the stored number as if it were in seconds. The two additions are in \<open>int\<close>; the
  text is cut to the 127 characters that the buffer holds before its NUL.\<close>

definition time_toString :: "(int \<Rightarrow> tm option) \<Rightarrow> timestamp \<Rightarrow> string res" where
  "time_toString localtime t =
     (case localtime t of
        None \<Rightarrow> Inl NullDeref
      | Some tm_time \<Rightarrow>
          if int_max < tm_year tm_time + 1900 \<or> int_max < tm_mon tm_time + 1 then Inl IntOverflow
          else Inr (take 127 (time_text (tm_year tm_time + 1900) (tm_mon tm_time + 1) tm_time)))"

section \<open>Atomic counters\<close>

text \<open>The \<open>__sync\<close> builtins act on the value in one step and wrap around.\<close>

definition atomic_get :: "'a::len word \<Rightarrow> 'a word \<times> 'a word" where
  "atomic_get v = (v, if v = 0 then 0 else v)"

definition getAndAdd :: "'a::len word \<Rightarrow> 'a word \<Rightarrow> 'a word \<times> 'a word" where
  "getAndAdd x v = (v, v + x)"

definition addAndGet :: "'a::len word \<Rightarrow> 'a word \<Rightarrow> 'a word \<times> 'a word" where
  "addAndGet x v = (case getAndAdd x v of (old, v') \<Rightarrow> (old + x, v'))"

definition incrementAndGet :: "'a::len word \<Rightarrow> 'a word \<times> 'a word" where
  "incrementAndGet v = addAndGet 1 v"

definition decrementAndGet :: "'a::len word \<Rightarrow> 'a word \<times> 'a word" where
  "decrementAndGet v = addAndGet (-1) v"

text \<open>The three that drop the result.\<close>

definition atomic_add :: "'a::len word \<Rightarrow> 'a word \<Rightarrow> 'a word" where
  "atomic_add x v = snd (getAndAdd x v)"

definition atomic_increment :: "'a::len word \<Rightarrow> 'a word" where
  "atomic_increment v = snd (incrementAndGet v)"

definition atomic_decrement :: "'a::len word \<Rightarrow> 'a word" where
  "atomic_decrement v = snd (decrementAndGet v)"

definition getAndSet :: "'a::len word \<Rightarrow> 'a word \<Rightarrow> 'a word \<times> 'a word" where
  "getAndSet n v = (v, n)"

lemma incrementAndGet_eq [simp]: "incrementAndGet v = (v + 1, v + 1)"
  by (simp add: incrementAndGet_def addAndGet_def getAndAdd_def)

lemma atomic_updates [simp]:
  "atomic_add x v = v + x" "atomic_increment v = v + 1" "atomic_decrement v = v - 1"
  by (simp_all add: atomic_add_def atomic_increment_def atomic_decrement_def addAndGet_def decrementAndGet_def getAndAdd_def)

lemma atomic_undo: "atomic_decrement (atomic_increment v) = v" "atomic_add (- x) (atomic_add x v) = v"
  by simp_all

section \<open>Exact sums\<close>

lemma bit_length_le: "n < 2 ^ k \<Longrightarrow> bit_length n \<le> k"
proof (induction n arbitrary: k rule: bit_length.induct)
  case (1 n)
  show ?case
  proof (cases "n = 0")
    case True
    then show ?thesis by (simp add: bit_length.simps)
  next
    case False
    with "1.prems" obtain j where k: "k = Suc j" by (cases k) auto
    with "1.prems" have "n div 2 < 2 ^ j" by (simp add: div_less_iff_less_mult mult.commute)
    with "1.IH" [OF False] False k show ?thesis by (subst bit_length.simps) simp
  qed
qed

lemma round53_exact:
  assumes "\<bar>m\<bar> < 2 ^ 53"
  shows "round53 m e = (m, e)"
proof -
  have "nat \<bar>m\<bar> < 2 ^ 53" using assms by (simp add: nat_less_iff)
  then have "bit_length (nat \<bar>m\<bar>) - 53 = 0" using bit_length_le by simp
  then show ?thesis by (simp add: round53_def round_half_even_def Let_def sgn_mult_abs)
qed

text \<open>A whole number of seconds.\<close>

definition whole :: "int \<Rightarrow> double" where "whole n = DFinite n 0"

lemma addTime_whole:
  assumes "\<bar>n\<bar> * 1000000 < 2 ^ 53" "0 \<le> t" "t < 2 ^ 62"
  shows "addTime t (whole n) = Inr (t + 1000000 * n)"
proof -
  have "round53 (n * 1000000) 0 = (n * 1000000, 0)"
    by (rule round53_exact) (use assms(1) in \<open>simp add: abs_mult\<close>)
  moreover have "int64 (n * 1000000) = Inr (n * 1000000)" "int64 (t + n * 1000000) = Inr (t + n * 1000000)"
    using assms by (auto simp: int64_def)
  ultimately show ?thesis
    by (simp add: addTime_def whole_def double_mult_int_def double_to_int64_def kMicroSecondsPerSecond_def
        mult.commute)
qed

section \<open>Printed times\<close>

lemma length_print_int:
  assumes "\<bar>n\<bar> < 10 ^ k" "0 < k"
  shows "length (print_int z w n) \<le> max w (Suc k)"
proof -
  have "nat \<bar>n\<bar> < 10 ^ k" using assms(1) by (simp add: nat_less_iff)
  from length_dec [OF this assms(2)] show ?thesis by (auto simp: print_int_def Let_def)
qed

lemma undec_less: "\<forall>c \<in> set ds. is_digit c \<Longrightarrow> undec ds < 10 ^ length ds"
proof (induction ds rule: rev_induct)
  case (snoc c ds)
  then have "undec ds + 1 \<le> 10 ^ length ds" "digit_val c \<le> 9" by (auto simp: is_digit_def digit_val_def)
  moreover have "undec (ds @ [c]) = 10 * undec ds + digit_val c" by (simp add: undec_def)
  ultimately show ?case by simp
qed (simp add: undec_def)

lemma undec_zeros: "undec (replicate k (CHR ''0'') @ ds) = undec ds"
  by (induction k) (simp_all add: undec_def digit_val_def)

text \<open>A number that fits its field takes exactly the field.\<close>

lemma print_int_field:
  assumes "0 \<le> n" "n < 10 ^ w" "0 < w"
  shows "length (print_int z w n) = w" "int (undec (print_int True w n)) = n"
proof -
  have "nat n < 10 ^ w" using assms(1,2) by (simp add: nat_less_iff)
  from length_dec [OF this assms(3)] show "length (print_int z w n) = w"
    using assms(1) by (simp add: print_int_def Let_def)
  show "int (undec (print_int True w n)) = n" using assms(1) by (simp add: print_int_def Let_def undec_zeros)
qed

text \<open>A year of four digits needs no filling.\<close>

lemma print_int_year:
  assumes "1000 \<le> n" "n < 10000"
  shows "print_int False 4 n = print_int True 4 n"
proof -
  have "\<not> length (dec (nat n)) \<le> 3"
  proof
    assume "length (dec (nat n)) \<le> 3"
    then have "(10 :: nat) ^ length (dec (nat n)) \<le> 10 ^ 3" by (intro power_increasing) simp_all
    with undec_less [OF dec_digits] have "undec (dec (nat n)) < 10 ^ 3" by (rule less_le_trans)
    with assms show False by simp
  qed
  with assms(1) show ?thesis by (simp add: print_int_def Let_def)
qed

text \<open>The buffer is never too small: whatever \<open>localtime\<close> returns, the text is not cut.\<close>

lemma toString_complete:
  assumes "localtime t = Some tm_time" "int_min \<le> tm_year tm_time" "int_min \<le> tm_mon tm_time"
    "\<forall>n \<in> {tm_mday tm_time, tm_hour tm_time, tm_min tm_time, tm_sec tm_time}. int_min \<le> n \<and> n \<le> int_max"
    "time_toString localtime t = Inr s"
  shows "s = time_text (tm_year tm_time + 1900) (tm_mon tm_time + 1) tm_time \<and> length s \<le> 71"
proof -
  let ?ns = "{tm_year tm_time + 1900, tm_mon tm_time + 1, tm_mday tm_time, tm_hour tm_time, tm_min tm_time, tm_sec tm_time}"
  have "\<bar>n\<bar> < 10 ^ 10" if "n \<in> ?ns" for n
    using that assms by (auto simp: time_toString_def int_min_def int_max_def split: if_splits)
  then have "length (print_int z w n) \<le> max w 11" if "n \<in> ?ns" for n z w
    using length_print_int [of n 10 z w] that by simp
  then have "length (print_int z w n) \<le> 11" if "n \<in> ?ns" "w \<le> 11" for n z w
    using that by (metis max.absorb2)
  then have "length (print_int False 4 (tm_year tm_time + 1900)) \<le> 11" "length (print_int True 2 (tm_mon tm_time + 1)) \<le> 11"
      "length (print_int True 2 (tm_mday tm_time)) \<le> 11" "length (print_int True 2 (tm_hour tm_time)) \<le> 11"
      "length (print_int True 2 (tm_min tm_time)) \<le> 11" "length (print_int True 2 (tm_sec tm_time)) \<le> 11"
    by simp_all
  then have "length (time_text (tm_year tm_time + 1900) (tm_mon tm_time + 1) tm_time) \<le> 71"
    by (simp add: time_text_def)
  then show ?thesis using assms(1,5) by (auto simp: time_toString_def split: if_splits)
qed

text \<open>From the text of a time between the years 1000 and 9999 every field can be read back at its place.\<close>

definition field :: "nat \<Rightarrow> nat \<Rightarrow> string \<Rightarrow> int" where
  "field i w s = int (undec (take w (drop i s)))"

definition calendar :: "tm \<Rightarrow> bool" where
  "calendar t \<longleftrightarrow> 1000 \<le> tm_year t + 1900 \<and> tm_year t + 1900 < 10000 \<and> 0 \<le> tm_mon t \<and> tm_mon t < 12 \<and>
     1 \<le> tm_mday t \<and> tm_mday t \<le> 31 \<and> 0 \<le> tm_hour t \<and> tm_hour t < 24 \<and> 0 \<le> tm_min t \<and> tm_min t < 60 \<and>
     0 \<le> tm_sec t \<and> tm_sec t \<le> 60"

lemma toString_fields:
  assumes "localtime t = Some tm_time" "calendar tm_time"
  shows "\<exists>s. time_toString localtime t = Inr s \<and> length s = 19 \<and>
    tm_time = \<lparr>tm_year = field 0 4 s - 1900, tm_mon = field 5 2 s - 1, tm_mday = field 8 2 s,
      tm_hour = field 11 2 s, tm_min = field 14 2 s, tm_sec = field 17 2 s\<rparr>"
proof -
  note c = assms(2) [unfolded calendar_def]
  let ?s = "time_text (tm_year tm_time + 1900) (tm_mon tm_time + 1) tm_time"
  have l: "length (print_int False 4 (tm_year tm_time + 1900)) = 4" "length (print_int True 2 (tm_mon tm_time + 1)) = 2"
      "length (print_int True 2 (tm_mday tm_time)) = 2" "length (print_int True 2 (tm_hour tm_time)) = 2"
      "length (print_int True 2 (tm_min tm_time)) = 2" "length (print_int True 2 (tm_sec tm_time)) = 2"
    using c by (simp_all add: print_int_field)
  then have len: "length ?s = 19" by (simp add: time_text_def)
  then have "time_toString localtime t = Inr ?s"
    using c assms(1) by (simp add: time_toString_def int_max_def)
  moreover have "field 0 4 ?s = tm_year tm_time + 1900" "field 5 2 ?s = tm_mon tm_time + 1"
      "field 8 2 ?s = tm_mday tm_time" "field 11 2 ?s = tm_hour tm_time" "field 14 2 ?s = tm_min tm_time"
      "field 17 2 ?s = tm_sec tm_time"
    using c l by (simp_all add: field_def time_text_def print_int_year print_int_field)
  ultimately show ?thesis using len by (intro exI [of _ ?s]) simp
qed

section \<open>Properties\<close>

text \<open>C40. \<open>addTime\<close> is exact for every whole number of seconds up to 2^33 in size, and the time stamp
  that \<open>now\<close> makes is in seconds although the type counts microseconds: a time stamp n seconds after
  now is not reached until a million times n seconds have passed.\<close>

theorem deadline_million_times_late:
  assumes "0 < n" "n \<le> 2 ^ 33" "0 \<le> s" "s < 2 ^ 62"
  shows "addTime (now_time s) (whole n) = Inr (s + 1000000 * n) \<and>
    (\<forall>s'. s + 1000000 * n \<le> now_time s' \<longleftrightarrow> 1000000 * n \<le> s' - s)"
proof -
  have "\<bar>n\<bar> * 1000000 < 2 ^ 53" using assms(1,2) by simp
  from addTime_whole [OF this assms(3,4)] show ?thesis by (auto simp: now_time_def)
qed

theorem deadline_million_times_late_witness:
  "addTime (now_time 1700000000) (whole 3) = Inr 1703000000 \<and> \<not> 1703000000 \<le> now_time (1700000000 + 3)"
  using deadline_million_times_late [of 3 1700000000] by simp

end
