(* ===== verification/TimerQueue.thy ===== *)
theory TimerQueue
  imports Timestamp EPollPoller "HOL-Library.Product_Lexorder"
begin

text \<open>
  \<open>mymuduo/net/Timer.h\<close>, \<open>Timer.cpp\<close>, \<open>TimerId.h\<close>, \<open>TimerQueue.h\<close> and \<open>TimerQueue.cpp\<close>: the timers of
  a loop, in the thread of the loop. Timers live in an explicit heap, because the queue keeps raw
  pointers to them in two sets and deletes them itself: every access through a pointer that is not
  allocated is \<open>UseAfterFree\<close>.
\<close>

section \<open>Ordered sets\<close>

text \<open>\<open>std::set\<close> as the sorted list of its elements.\<close>

definition sset_insert :: "'a::linorder \<Rightarrow> 'a list \<Rightarrow> 'a list" where
  "sset_insert x xs = (if x \<in> set xs then xs else insort x xs)"

definition sset_erase :: "'a::linorder \<Rightarrow> 'a list \<Rightarrow> 'a list" where
  "sset_erase x xs = filter (\<lambda>y. y \<noteq> x) xs"

definition sset :: "'a::linorder list \<Rightarrow> bool" where
  "sset xs \<longleftrightarrow> sorted xs \<and> distinct xs"

lemma sset_Nil [simp]: "sset []"
  by (simp add: sset_def)

lemma sset_insert_set [simp]: "set (sset_insert x xs) = insert x (set xs)"
  by (auto simp: sset_insert_def set_insort_key)

lemma sset_erase_set [simp]: "set (sset_erase x xs) = set xs - {x}"
  by (auto simp: sset_erase_def)

lemma sset_insert_inv [inv_intro]: "sset xs \<Longrightarrow> sset (sset_insert x xs)"
  by (simp add: sset_def sset_insert_def sorted_insort distinct_insort)

lemma sset_erase_inv [inv_intro]: "sset xs \<Longrightarrow> sset (sset_erase x xs)"
  by (simp add: sset_def sset_erase_def sorted_wrt_filter)

lemma sset_hd_le: "sset xs \<Longrightarrow> x \<in> set xs \<Longrightarrow> hd xs \<le> x"
  by (cases xs) (auto simp: sset_def)

section \<open>Timers\<close>

text \<open>The memory address of a timer is a number; the callback a name.\<close>

definition UINTPTR_MAX :: nat where "UINTPTR_MAX = 2 ^ 64 - 1"

record 'f timer =
  tm_callback :: 'f
  tm_expiration :: timestamp
  tm_interval :: double
  tm_repeat :: bool
  tm_sequence :: "64 word"

record timer_id =
  tid_timer :: nat
  tid_sequence :: "64 word"

definition new_timer :: "'f \<Rightarrow> timestamp \<Rightarrow> double \<Rightarrow> 64 word \<Rightarrow> 'f timer \<times> 64 word" where
  "new_timer cb time interval numCreated =
     (let (seq, numCreated') = incrementAndGet numCreated
      in (\<lparr>tm_callback = cb, tm_expiration = time, tm_interval = interval,
           tm_repeat = double_pos interval, tm_sequence = seq\<rparr>, numCreated'))"

definition restart :: "'f timer \<Rightarrow> timestamp \<Rightarrow> 'f timer res" where
  "restart t now =
     (if tm_repeat t
      then bind_res (addTime now (tm_interval t)) (\<lambda>e. Inr (t\<lparr>tm_expiration := e\<rparr>))
      else Inr (t\<lparr>tm_expiration := invalid_time\<rparr>))"

section \<open>The queue\<close>

text \<open>
  Besides the members: \<open>tq_heap\<close> holds the allocated timers, \<open>tq_created\<close> the static counter,
  \<open>tq_reads\<close> how often the clock was read, \<open>tq_armed\<close> the expiration for which the timer descriptor was
  last set, with the relative time, and \<open>tq_fired\<close> the callbacks run so far.
\<close>

record 'f timer_queue =
  tq_timers :: "(timestamp \<times> nat) list"
  tq_active :: "(nat \<times> 64 word) set"
  tq_calling :: bool
  tq_canceling :: "(nat \<times> 64 word) set"
  tq_heap :: "nat \<rightharpoonup> 'f timer"
  tq_created :: "64 word"
  tq_reads :: nat
  tq_armed :: "(timestamp \<times> int \<times> int) option"
  tq_fired :: "'f list"

definition new_timer_queue :: "'f timer_queue" where
  "new_timer_queue = \<lparr>tq_timers = [], tq_active = {}, tq_calling = False, tq_canceling = {},
     tq_heap = Map.empty, tq_created = 0, tq_reads = 0, tq_armed = None, tq_fired = []\<rparr>"

text \<open>\<open>clk\<close> gives the seconds that the successive calls of \<open>time\<close> return.\<close>

definition read_clock :: "(nat \<Rightarrow> int) \<Rightarrow> 'f timer_queue \<Rightarrow> timestamp \<times> 'f timer_queue" where
  "read_clock clk q = (now_time (clk (tq_reads q)), q\<lparr>tq_reads := Suc (tq_reads q)\<rparr>)"

definition deref :: "'f timer_queue \<Rightarrow> nat \<Rightarrow> 'f timer res" where
  "deref q a = (case tq_heap q a of None \<Rightarrow> Inl UseAfterFree | Some t \<Rightarrow> Inr t)"

definition delete_timer :: "nat \<Rightarrow> 'f timer_queue \<Rightarrow> 'f timer_queue res" where
  "delete_timer a q =
     (if tq_heap q a = None then Inl UseAfterFree else Inr (q\<lparr>tq_heap := (tq_heap q)(a := None)\<rparr>))"

text \<open>The quotient and the remainder of C, of a number that is at least 100.\<close>

definition howMuchTimeFromNow :: "timestamp \<Rightarrow> timestamp \<Rightarrow> (int \<times> int) res" where
  "howMuchTimeFromNow time now =
     bind_res (int64 (time - now)) (\<lambda>d.
       let microseconds = (if d < 100 then 100 else d)
       in Inr (microseconds div kMicroSecondsPerSecond, microseconds mod kMicroSecondsPerSecond * 1000))"

definition resetTimerfd :: "(nat \<Rightarrow> int) \<Rightarrow> timestamp \<Rightarrow> 'f timer_queue \<Rightarrow> 'f timer_queue res" where
  "resetTimerfd clk expiration q =
     (let (now, q1) = read_clock clk q
      in bind_res (howMuchTimeFromNow expiration now) (\<lambda>(s, ns).
           Inr (q1\<lparr>tq_armed := Some (expiration, s, ns)\<rparr>)))"

definition timer_insert :: "nat \<Rightarrow> 'f timer_queue \<Rightarrow> (bool \<times> 'f timer_queue) res" where
  "timer_insert timer q =
     bind_res (deref q timer) (\<lambda>t.
       let time = tm_expiration t;
           earliestChanged = (tq_timers q = [] \<or> time < fst (hd (tq_timers q)))
       in Inr (earliestChanged,
               q\<lparr>tq_timers := sset_insert (time, timer) (tq_timers q),
                 tq_active := insert (timer, tm_sequence t) (tq_active q)\<rparr>))"

definition addTimerInLoop :: "(nat \<Rightarrow> int) \<Rightarrow> nat \<Rightarrow> 'f timer_queue \<Rightarrow> 'f timer_queue res" where
  "addTimerInLoop clk timer q =
     bind_res (timer_insert timer q) (\<lambda>(earliestChanged, q1).
       if earliestChanged
       then bind_res (deref q1 timer) (\<lambda>t. resetTimerfd clk (tm_expiration t) q1)
       else Inr q1)"

text \<open>\<open>alloc\<close> is \<open>operator new\<close>: an address that is not allocated, if there is one.\<close>

definition addTimer :: "((nat \<rightharpoonup> 'f timer) \<Rightarrow> nat option) \<Rightarrow> (nat \<Rightarrow> int) \<Rightarrow> 'f \<Rightarrow> timestamp \<Rightarrow> double \<Rightarrow>
    'f timer_queue \<Rightarrow> (timer_id \<times> 'f timer_queue) res" where
  "addTimer alloc clk cb time interval q =
     (case alloc (tq_heap q) of
        None \<Rightarrow> Inl BadAlloc
      | Some a \<Rightarrow>
          let (t, n) = new_timer cb time interval (tq_created q);
              q1 = q\<lparr>tq_heap := (tq_heap q)(a \<mapsto> t), tq_created := n\<rparr>
          in bind_res (addTimerInLoop clk a q1) (\<lambda>q2.
             bind_res (deref q2 a) (\<lambda>t2.
             Inr (\<lparr>tid_timer = a, tid_sequence = tm_sequence t2\<rparr>, q2))))"

definition cancelInLoop :: "timer_id \<Rightarrow> 'f timer_queue \<Rightarrow> 'f timer_queue res" where
  "cancelInLoop timerId q =
     (let timer = (tid_timer timerId, tid_sequence timerId)
      in if timer \<in> tq_active q
         then
           bind_res (deref q (fst timer)) (\<lambda>t.
           bind_res (delete_timer (fst timer)
               (q\<lparr>tq_timers := sset_erase (tm_expiration t, fst timer) (tq_timers q)\<rparr>)) (\<lambda>q1.
           Inr (q1\<lparr>tq_active := tq_active q1 - {timer}\<rparr>)))
         else if tq_calling q then Inr (q\<lparr>tq_canceling := insert timer (tq_canceling q)\<rparr>)
         else Inr q)"

text \<open>Erasing the expired timers from the active set.\<close>

fun erase_active :: "(timestamp \<times> nat) list \<Rightarrow> 'f timer_queue \<Rightarrow> 'f timer_queue res" where
  "erase_active [] q = Inr q"
| "erase_active ((w, a) # es) q =
     bind_res (deref q a) (\<lambda>t.
     erase_active es (q\<lparr>tq_active := tq_active q - {(a, tm_sequence t)}\<rparr>))"

definition getExpired :: "timestamp \<Rightarrow> 'f timer_queue \<Rightarrow> ((timestamp \<times> nat) list \<times> 'f timer_queue) res" where
  "getExpired now q =
     (let sentry = (now, UINTPTR_MAX);
          expired = takeWhile (\<lambda>e. e < sentry) (tq_timers q);
          q1 = q\<lparr>tq_timers := dropWhile (\<lambda>e. e < sentry) (tq_timers q)\<rparr>
      in bind_res (erase_active expired q1) (\<lambda>q2. Inr (expired, q2)))"

fun reset_loop :: "(timestamp \<times> nat) list \<Rightarrow> timestamp \<Rightarrow> 'f timer_queue \<Rightarrow> 'f timer_queue res" where
  "reset_loop [] now q = Inr q"
| "reset_loop ((w, a) # es) now q =
     bind_res (deref q a) (\<lambda>t.
       if tm_repeat t \<and> (a, tm_sequence t) \<notin> tq_canceling q
       then bind_res (restart t now) (\<lambda>t'.
            bind_res (timer_insert a (q\<lparr>tq_heap := (tq_heap q)(a \<mapsto> t')\<rparr>)) (\<lambda>(_, q').
            reset_loop es now q'))
       else bind_res (delete_timer a q) (reset_loop es now))"

definition reset_timers ::
    "(nat \<Rightarrow> int) \<Rightarrow> (timestamp \<times> nat) list \<Rightarrow> timestamp \<Rightarrow> 'f timer_queue \<Rightarrow> 'f timer_queue res" where
  "reset_timers clk expired now q =
     bind_res (reset_loop expired now q) (\<lambda>q1.
     bind_res
       (case tq_timers q1 of
          [] \<Rightarrow> Inr invalid_time
        | e # es \<Rightarrow> bind_res (deref q1 (snd e)) (\<lambda>t. Inr (tm_expiration t)))
       (\<lambda>nextExpire. if valid_time nextExpire then resetTimerfd clk nextExpire q1 else Inr q1))"

text \<open>
  What a callback does to the timers of its own loop; a cancellation may name any timer, by an
  identifier it got before. \<open>acts\<close> gives the actions of each callback.
\<close>

datatype 'f timer_act = ActAdd 'f timestamp double | ActCancel timer_id

fun run_acts :: "((nat \<rightharpoonup> 'f timer) \<Rightarrow> nat option) \<Rightarrow> (nat \<Rightarrow> int) \<Rightarrow> 'f timer_act list \<Rightarrow>
    'f timer_queue \<Rightarrow> 'f timer_queue res" where
  "run_acts alloc clk [] q = Inr q"
| "run_acts alloc clk (ActAdd f w i # as) q =
     bind_res (addTimer alloc clk f w i q) (\<lambda>(_, q1). run_acts alloc clk as q1)"
| "run_acts alloc clk (ActCancel i # as) q =
     bind_res (cancelInLoop i q) (run_acts alloc clk as)"

fun run_callbacks :: "((nat \<rightharpoonup> 'f timer) \<Rightarrow> nat option) \<Rightarrow> (nat \<Rightarrow> int) \<Rightarrow> ('f \<Rightarrow> 'f timer_act list) \<Rightarrow>
    (timestamp \<times> nat) list \<Rightarrow> 'f timer_queue \<Rightarrow> 'f timer_queue res" where
  "run_callbacks alloc clk acts [] q = Inr q"
| "run_callbacks alloc clk acts ((w, a) # es) q =
     bind_res (deref q a) (\<lambda>t.
     bind_res (run_acts alloc clk (acts (tm_callback t)) (q\<lparr>tq_fired := tq_fired q @ [tm_callback t]\<rparr>))
       (run_callbacks alloc clk acts es))"

text \<open>The descriptor has fired: it is no longer armed.\<close>

definition timers_handleRead :: "((nat \<rightharpoonup> 'f timer) \<Rightarrow> nat option) \<Rightarrow> (nat \<Rightarrow> int) \<Rightarrow>
    ('f \<Rightarrow> 'f timer_act list) \<Rightarrow> 'f timer_queue \<Rightarrow> 'f timer_queue res" where
  "timers_handleRead alloc clk acts q =
     (let (now, q0) = read_clock clk (q\<lparr>tq_armed := None\<rparr>)
      in bind_res (getExpired now q0) (\<lambda>(expired, q1).
         bind_res (run_callbacks alloc clk acts expired (q1\<lparr>tq_calling := True, tq_canceling := {}\<rparr>)) (\<lambda>q2.
         reset_timers clk expired now (q2\<lparr>tq_calling := False\<rparr>))))"

text \<open>The loop of the destructor.\<close>

fun delete_timers :: "(timestamp \<times> nat) list \<Rightarrow> 'f timer_queue \<Rightarrow> 'f timer_queue res" where
  "delete_timers [] q = Inr q"
| "delete_timers (e # es) q = bind_res (delete_timer (snd e) q) (delete_timers es)"

definition delete_timer_queue :: "'f timer_queue \<Rightarrow> 'f timer_queue res" where
  "delete_timer_queue q = delete_timers (tq_timers q) q"

section \<open>The invariant\<close>

text \<open>
  The two sets are determined by the heap: they hold exactly the allocated timers that are not in
  \<open>out\<close>, the timers taken out of the queue at the moment (those whose callbacks are running).
\<close>

definition tq_inv :: "nat set \<Rightarrow> 'f timer_queue \<Rightarrow> bool" where
  "tq_inv out q \<longleftrightarrow> sset (tq_timers q) \<and>
     (\<forall>w a. (w, a) \<in> set (tq_timers q) \<longleftrightarrow> (\<exists>t. tq_heap q a = Some t \<and> a \<notin> out \<and> w = tm_expiration t)) \<and>
     (\<forall>a s. (a, s) \<in> tq_active q \<longleftrightarrow> (\<exists>t. tq_heap q a = Some t \<and> a \<notin> out \<and> s = tm_sequence t)) \<and>
     out \<subseteq> dom (tq_heap q) \<and> dom (tq_heap q) \<subseteq> {..<UINTPTR_MAX} \<and>
     (\<forall>a t. tq_heap q a = Some t \<longrightarrow> tm_repeat t = double_pos (tm_interval t))"

abbreviation tq_ok :: "('a \<Rightarrow> bool) \<Rightarrow> 'a res \<Rightarrow> bool" where
  "tq_ok P r \<equiv> res_ok {IntOverflow, BadAlloc} P r"

definition alloc_ok :: "((nat \<rightharpoonup> 'f timer) \<Rightarrow> nat option) \<Rightarrow> bool" where
  "alloc_ok alloc \<longleftrightarrow> (\<forall>h a. alloc h = Some a \<longrightarrow> h a = None \<and> a < UINTPTR_MAX)"

lemma new_timer_queue_inv [inv_intro]: "tq_inv {} new_timer_queue"
  by (simp add: tq_inv_def new_timer_queue_def)

lemma tq_inv_timer:
  "tq_inv out q \<Longrightarrow> (w, a) \<in> set (tq_timers q) \<Longrightarrow> \<exists>t. tq_heap q a = Some t \<and> a \<notin> out \<and> w = tm_expiration t"
  unfolding tq_inv_def by blast

lemma tq_inv_cong:
  "tq_timers q' = tq_timers q \<Longrightarrow> tq_active q' = tq_active q \<Longrightarrow> tq_heap q' = tq_heap q \<Longrightarrow>
     tq_inv out q' = tq_inv out q"
  by (simp add: tq_inv_def)

text \<open>
  The descriptor is armed for every queued timer that expires in \<open>X\<close>: for its time or an earlier one.
\<close>

definition armed_for :: "timestamp set \<Rightarrow> 'f timer_queue \<Rightarrow> bool" where
  "armed_for X q \<longleftrightarrow> (\<forall>e \<in> set (tq_timers q). fst e \<in> X \<longrightarrow> (\<exists>w' d. tq_armed q = Some (w', d) \<and> w' \<le> fst e))"

lemma armed_forD:
  "armed_for X q \<Longrightarrow> e \<in> set (tq_timers q) \<Longrightarrow> fst e \<in> X \<Longrightarrow>
     \<exists>w' d. tq_armed q = Some (w', d) \<and> w' \<le> fst e"
  by (simp add: armed_for_def)

definition down_closed :: "timestamp set \<Rightarrow> bool" where
  "down_closed X \<longleftrightarrow> (\<forall>w \<in> X. \<forall>v \<le> w. v \<in> X)"

lemma down_closed_simps [simp]: "down_closed UNIV" "down_closed {..t}"
  by (auto simp: down_closed_def)

text \<open>What the operations of a callback keep: the timers that are out, and the arming.\<close>

definition tq_keeps :: "nat set \<Rightarrow> timestamp set \<Rightarrow> 'f timer_queue \<Rightarrow> 'f timer_queue \<Rightarrow> bool" where
  "tq_keeps out X q q' \<longleftrightarrow> tq_inv out q' \<and> (\<forall>a \<in> out. tq_heap q' a = tq_heap q a) \<and>
     tq_calling q' = tq_calling q \<and> (armed_for X q \<longrightarrow> armed_for X q') \<and>
     (\<forall>i. tq_calling q \<longrightarrow> i \<in> tq_canceling q \<longrightarrow> i \<in> tq_canceling q') \<and> tq_fired q' = tq_fired q"

lemma tq_keeps_refl: "tq_inv out q \<Longrightarrow> tq_keeps out X q q"
  by (simp add: tq_keeps_def)

lemma tq_keeps_trans: "tq_keeps out X q q1 \<Longrightarrow> tq_keeps out X q1 q2 \<Longrightarrow> tq_keeps out X q q2"
  by (simp add: tq_keeps_def)

lemma timer_insert_ok:
  assumes "tq_inv out q" "a \<in> out"
  shows "\<exists>b t. timer_insert a q = Inr (b, q\<lparr>tq_timers := sset_insert (tm_expiration t, a) (tq_timers q),
      tq_active := insert (a, tm_sequence t) (tq_active q)\<rparr>) \<and> tq_heap q a = Some t \<and>
    b = (tq_timers q = [] \<or> tm_expiration t < fst (hd (tq_timers q))) \<and>
    tq_inv (out - {a}) (q\<lparr>tq_timers := sset_insert (tm_expiration t, a) (tq_timers q),
      tq_active := insert (a, tm_sequence t) (tq_active q)\<rparr>)"
proof -
  from assms obtain t where t: "tq_heap q a = Some t" by (auto simp: tq_inv_def)
  have "tq_inv (out - {a}) (q\<lparr>tq_timers := sset_insert (tm_expiration t, a) (tq_timers q),
      tq_active := insert (a, tm_sequence t) (tq_active q)\<rparr>)"
    using assms t unfolding tq_inv_def by (auto intro: sset_insert_inv)
  with t show ?thesis by (auto simp: timer_insert_def deref_def Let_def)
qed

lemma delete_timer_ok:
  assumes "tq_inv out q" "a \<in> out"
  shows "delete_timer a q = Inr (q\<lparr>tq_heap := (tq_heap q)(a := None)\<rparr>) \<and>
    tq_inv (out - {a}) (q\<lparr>tq_heap := (tq_heap q)(a := None)\<rparr>)"
proof -
  have "tq_inv (out - {a}) (q\<lparr>tq_heap := (tq_heap q)(a := None)\<rparr>)"
    using assms unfolding tq_inv_def by (auto split: if_splits)
  with assms show ?thesis by (auto simp: delete_timer_def tq_inv_def)
qed

section \<open>Adding and cancelling\<close>

lemma resetTimerfd_ok:
  "tq_ok (\<lambda>q'. \<exists>d. q' = q\<lparr>tq_reads := Suc (tq_reads q), tq_armed := Some (e, d)\<rparr>) (resetTimerfd clk e q)"
  by (auto simp: resetTimerfd_def read_clock_def howMuchTimeFromNow_def int64_def Let_def)

text \<open>A timer that is out enters the queue, and the descriptor is set when it is the earliest.\<close>

lemma addTimerInLoop_ok:
  assumes "tq_inv out q" "a \<in> out" "down_closed X"
  shows "tq_ok (\<lambda>q'. tq_keeps (out - {a}) X q q' \<and> tq_heap q' = tq_heap q) (addTimerInLoop clk a q)"
proof -
  obtain b t where ins: "timer_insert a q = Inr (b, q\<lparr>tq_timers := sset_insert (tm_expiration t, a) (tq_timers q),
      tq_active := insert (a, tm_sequence t) (tq_active q)\<rparr>)" and t: "tq_heap q a = Some t"
      and b: "b = (tq_timers q = [] \<or> tm_expiration t < fst (hd (tq_timers q)))"
      and inv: "tq_inv (out - {a}) (q\<lparr>tq_timers := sset_insert (tm_expiration t, a) (tq_timers q),
      tq_active := insert (a, tm_sequence t) (tq_active q)\<rparr>)"
    using timer_insert_ok [OF assms(1,2)] by blast
  define q1 where "q1 = q\<lparr>tq_timers := sset_insert (tm_expiration t, a) (tq_timers q),
      tq_active := insert (a, tm_sequence t) (tq_active q)\<rparr>"
  have first: "fst (hd (tq_timers q)) \<le> w" if "(w, c) \<in> set (tq_timers q)" for w c
    using assms(1) sset_hd_le [of "tq_timers q" "(w, c)"] that by (auto simp: tq_inv_def less_eq_prod_def)
  show ?thesis
  proof (cases b)
    case True
    have "armed_for X (q1\<lparr>tq_reads := r, tq_armed := Some (tm_expiration t, d)\<rparr>)" for r d
      using True b first by (fastforce simp: armed_for_def q1_def)
    then have keeps: "tq_keeps (out - {a}) X q (q1\<lparr>tq_reads := r, tq_armed := Some (tm_expiration t, d)\<rparr>)" for r d
      using inv by (simp add: tq_keeps_def q1_def tq_inv_def)
    have "addTimerInLoop clk a q = resetTimerfd clk (tm_expiration t) q1"
      using ins True t by (simp add: addTimerInLoop_def deref_def q1_def)
    then show ?thesis
      using resetTimerfd_ok [where q = q1 and e = "tm_expiration t" and clk = clk] keeps
      by (auto elim!: res_ok_weaken) (simp_all add: q1_def)
  next
    case False
    then have ne: "tq_timers q \<noteq> []" and le: "fst (hd (tq_timers q)) \<le> tm_expiration t" using b by auto
    have "armed_for X q1" if ar: "armed_for X q"
    proof -
      have "\<exists>w' d. tq_armed q = Some (w', d) \<and> w' \<le> fst e" if e: "e \<in> set (tq_timers q1)" "fst e \<in> X" for e
      proof (cases "e \<in> set (tq_timers q)")
        case True
        with armed_forD [OF ar _ e(2)] show ?thesis by blast
      next
        case False
        with e have w: "fst e = tm_expiration t" by (auto simp: q1_def)
        have "hd (tq_timers q) \<in> set (tq_timers q)" using ne by simp
        moreover have "fst (hd (tq_timers q)) \<in> X" using assms(3) e(2) le w by (auto simp: down_closed_def)
        ultimately have "\<exists>w' d. tq_armed q = Some (w', d) \<and> w' \<le> fst (hd (tq_timers q))"
          using armed_forD [OF ar] by blast
        with le w show ?thesis by force
      qed
      moreover have "tq_armed q1 = tq_armed q" by (simp add: q1_def)
      ultimately show ?thesis unfolding armed_for_def by simp
    qed
    with False ins inv show ?thesis by (simp add: addTimerInLoop_def tq_keeps_def q1_def)
  qed
qed

text \<open>A timer that has just been made is allocated and in no set: it is out.\<close>

lemma new_timer_inv:
  assumes "tq_inv out q" "tq_heap q a = None" "a < UINTPTR_MAX" "new_timer f w iv (tq_created q) = (t, n)"
  shows "a \<notin> out" "tq_inv (insert a out) (q\<lparr>tq_heap := (tq_heap q)(a \<mapsto> t), tq_created := n\<rparr>)"
proof -
  show fresh: "a \<notin> out" using assms(1,2) by (auto simp: tq_inv_def)
  have "tm_repeat t = double_pos (tm_interval t)" using assms(4) by (auto simp: new_timer_def)
  then show "tq_inv (insert a out) (q\<lparr>tq_heap := (tq_heap q)(a \<mapsto> t), tq_created := n\<rparr>)"
    using assms(1-3) fresh unfolding tq_inv_def by auto
qed

lemma addTimer_ok:
  assumes "tq_inv out q" "alloc_ok alloc" "down_closed X"
  shows "tq_ok (\<lambda>(i, q'). tq_keeps out X q q') (addTimer alloc clk f w iv q)"
proof (cases "alloc (tq_heap q)")
  case None
  then show ?thesis by (simp add: addTimer_def)
next
  case (Some a)
  with assms(2) have a: "tq_heap q a = None" "a < UINTPTR_MAX" by (auto simp: alloc_ok_def)
  obtain t n where tn: "new_timer f w iv (tq_created q) = (t, n)" by fastforce
  define q1 where "q1 = q\<lparr>tq_heap := (tq_heap q)(a \<mapsto> t), tq_created := n\<rparr>"
  have fresh: "a \<notin> out" and "tq_inv (insert a out) q1"
    using new_timer_inv [OF assms(1) a tn] by (simp_all add: q1_def)
  from addTimerInLoop_ok [OF this(2) _ assms(3), of a clk] fresh
  have "tq_ok (\<lambda>q'. tq_keeps out X q1 q' \<and> tq_heap q' = tq_heap q1) (addTimerInLoop clk a q1)" by simp
  moreover have "tq_keeps out X q q2" if "tq_keeps out X q1 q2" for q2
  proof -
    have "\<forall>b \<in> out. tq_heap q1 b = tq_heap q b" "armed_for X q1 = armed_for X q"
        "tq_calling q1 = tq_calling q" "tq_canceling q1 = tq_canceling q" "tq_fired q1 = tq_fired q"
      using fresh by (auto simp: q1_def armed_for_def)
    with that show ?thesis by (simp add: tq_keeps_def)
  qed
  moreover have "addTimer alloc clk f w iv q = bind_res (addTimerInLoop clk a q1) (\<lambda>q2.
      bind_res (deref q2 a) (\<lambda>t2. Inr (\<lparr>tid_timer = a, tid_sequence = tm_sequence t2\<rparr>, q2)))"
    using Some tn by (simp add: addTimer_def q1_def)
  moreover have "tq_heap q1 a = Some t" by (simp add: q1_def)
  ultimately show ?thesis
    by (cases "addTimerInLoop clk a q1") (simp_all add: deref_def)
qed

lemma cancelInLoop_ok:
  assumes "tq_inv out q"
  shows "tq_ok (tq_keeps out X q) (cancelInLoop i q)"
proof (cases "(tid_timer i, tid_sequence i) \<in> tq_active q")
  case True
  then obtain t where t: "tq_heap q (tid_timer i) = Some t" "tid_timer i \<notin> out" "tid_sequence i = tm_sequence t"
    using assms by (auto simp: tq_inv_def)
  define q' where "q' = q\<lparr>tq_timers := sset_erase (tm_expiration t, tid_timer i) (tq_timers q),
    tq_heap := (tq_heap q)(tid_timer i := None),
    tq_active := tq_active q - {(tid_timer i, tid_sequence i)}\<rparr>"
  have "cancelInLoop i q = Inr q'"
    using True t by (simp add: cancelInLoop_def deref_def delete_timer_def q'_def)
  moreover have "tq_inv out q'"
    using assms t unfolding tq_inv_def q'_def by (auto intro: sset_erase_inv split: if_splits)
  ultimately show ?thesis using t(2) by (auto simp: tq_keeps_def q'_def armed_for_def)
next
  case False
  with assms show ?thesis
    by (auto simp: cancelInLoop_def tq_keeps_def Let_def armed_for_def tq_inv_def)
qed

lemma run_acts_ok:
  assumes "alloc_ok alloc" "down_closed X"
  shows "tq_inv out q \<Longrightarrow> tq_ok (tq_keeps out X q) (run_acts alloc clk as q)"
proof (induction as arbitrary: q)
  case Nil
  then show ?case by (simp add: tq_keeps_refl)
next
  case (Cons x as)
  have next_ok: "tq_ok (tq_keeps out X q) (run_acts alloc clk as q1)" if "tq_keeps out X q q1" for q1
  proof -
    have "tq_inv out q1" using that by (simp add: tq_keeps_def)
    from Cons.IH [OF this] show ?thesis by (rule res_ok_weaken) (rule tq_keeps_trans [OF that])
  qed
  show ?case
  proof (cases x)
    case (ActAdd f w i)
    show ?thesis
      unfolding ActAdd run_acts.simps
      by (rule res_ok_bind [OF addTimer_ok [OF Cons.prems assms]]) (auto intro: next_ok)
  next
    case (ActCancel i)
    show ?thesis
      unfolding ActCancel run_acts.simps
      by (rule res_ok_bind [OF cancelInLoop_ok [OF Cons.prems]]) (rule next_ok)
  qed
qed

section \<open>Expiry\<close>

text \<open>Removing the timers from the active set.\<close>

lemma erase_active_ok:
  "\<forall>e \<in> set es. tq_heap q (snd e) \<noteq> None \<Longrightarrow>
     erase_active es q = Inr (q\<lparr>tq_active := tq_active q -
       {(a, tm_sequence t) | a t. a \<in> snd ` set es \<and> tq_heap q a = Some t}\<rparr>)"
proof (induction es arbitrary: q)
  case (Cons e es)
  obtain w a where e: "e = (w, a)" by (cases e)
  with Cons.prems obtain t where t: "tq_heap q a = Some t" by auto
  have "tq_active q - {(a, tm_sequence t)} - {(b, tm_sequence t') | b t'. b \<in> snd ` set es \<and> tq_heap q b = Some t'} =
      tq_active q - {(b, tm_sequence t') | b t'. b \<in> snd ` set (e # es) \<and> tq_heap q b = Some t'}"
    using e t by auto
  with Cons.IH [of "q\<lparr>tq_active := tq_active q - {(a, tm_sequence t)}\<rparr>"] Cons.prems e t
  show ?case by (simp add: deref_def)
qed simp

definition due :: "timestamp \<Rightarrow> 'f timer_queue \<Rightarrow> (timestamp \<times> nat) list" where
  "due now q = filter (\<lambda>e. fst e \<le> now) (tq_timers q)"

lemma takeWhile_sorted:
  assumes "\<And>x y. x \<le> y \<Longrightarrow> P y \<Longrightarrow> P x"
  shows "sorted xs \<Longrightarrow> takeWhile P xs = filter P xs \<and> dropWhile P xs = filter (\<lambda>x. \<not> P x) xs"
proof (induction xs)
  case (Cons x xs)
  show ?case
  proof (cases "P x")
    case True
    with Cons show ?thesis by simp
  next
    case False
    then have none: "\<not> P y" if "y \<in> set xs" for y using Cons.prems assms [of x y] that by auto
    then have "filter P xs = []" "filter (\<lambda>x. \<not> P x) xs = xs" by (simp_all add: filter_empty_conv)
    with False show ?thesis by simp
  qed
qed simp

lemma tq_inv_sets:
  assumes "tq_inv out q"
  shows "(w, a) \<in> set (tq_timers q) \<longleftrightarrow> (\<exists>t. tq_heap q a = Some t \<and> a \<notin> out \<and> w = tm_expiration t)"
    "(a, sq) \<in> tq_active q \<longleftrightarrow> (\<exists>t. tq_heap q a = Some t \<and> a \<notin> out \<and> sq = tm_sequence t)"
  using assms unfolding tq_inv_def by blast+

lemma due_mem:
  assumes "tq_inv out q"
  shows "a \<in> snd ` set (due now q) \<longleftrightarrow> (\<exists>t. tq_heap q a = Some t \<and> a \<notin> out \<and> tm_expiration t \<le> now)"
proof
  assume "a \<in> snd ` set (due now q)"
  then obtain w where "(w, a) \<in> set (tq_timers q)" "w \<le> now" by (auto simp: due_def)
  then show "\<exists>t. tq_heap q a = Some t \<and> a \<notin> out \<and> tm_expiration t \<le> now" by (auto simp: tq_inv_sets [OF assms])
next
  assume "\<exists>t. tq_heap q a = Some t \<and> a \<notin> out \<and> tm_expiration t \<le> now"
  then obtain w where "(w, a) \<in> set (tq_timers q)" "w \<le> now" by (auto simp: tq_inv_sets [OF assms])
  then have "(w, a) \<in> set (due now q)" by (simp add: due_def)
  then show "a \<in> snd ` set (due now q)" by force
qed

text \<open>The search for the sentry splits the queue into the due timers and the others.\<close>

lemma sentry_splits:
  assumes "tq_inv out q"
  shows "takeWhile (\<lambda>e. e < (now, UINTPTR_MAX)) (tq_timers q) = due now q"
    "dropWhile (\<lambda>e. e < (now, UINTPTR_MAX)) (tq_timers q) = filter (\<lambda>e. now < fst e) (tq_timers q)"
proof -
  let ?P = "\<lambda>e :: timestamp \<times> nat. e < (now, UINTPTR_MAX)"
  have small: "snd e < UINTPTR_MAX" if "e \<in> set (tq_timers q)" for e
    using assms that by (cases e) (auto simp: tq_inv_def)
  have P: "?P e \<longleftrightarrow> fst e \<le> now" if "e \<in> set (tq_timers q)" for e
    using small [OF that] by (cases e) (auto simp: less_prod_def)
  have "sset (tq_timers q)" using assms by (simp add: tq_inv_def)
  then have "takeWhile ?P (tq_timers q) = filter ?P (tq_timers q)"
      "dropWhile ?P (tq_timers q) = filter (\<lambda>e. \<not> ?P e) (tq_timers q)"
    using takeWhile_sorted [of ?P "tq_timers q"] by (simp_all add: sset_def)
  then show "takeWhile ?P (tq_timers q) = due now q"
      "dropWhile ?P (tq_timers q) = filter (\<lambda>e. now < fst e) (tq_timers q)"
    using P unfolding due_def by (auto cong: filter_cong simp: not_le)
qed

lemma getExpired_ok:
  assumes inv: "tq_inv out q"
  shows "\<exists>q1. getExpired now q = Inr (due now q, q1) \<and> tq_inv (out \<union> snd ` set (due now q)) q1 \<and>
    out \<inter> snd ` set (due now q) = {} \<and>
    distinct (map snd (due now q)) \<and> tq_timers q1 = filter (\<lambda>e. now < fst e) (tq_timers q) \<and>
    (\<exists>A. q1 = q\<lparr>tq_timers := tq_timers q1, tq_active := A\<rparr>)"
proof -
  note T = tq_inv_sets(1) [OF inv] and A = tq_inv_sets(2) [OF inv] and mem = due_mem [OF inv, of _ now]
  define q0 where "q0 = q\<lparr>tq_timers := filter (\<lambda>e. now < fst e) (tq_timers q)\<rparr>"
  define A where "A = tq_active q - {(a, tm_sequence t) | a t. a \<in> snd ` set (due now q) \<and> tq_heap q a = Some t}"
  have alive: "\<forall>e \<in> set (due now q). tq_heap q0 (snd e) \<noteq> None" by (auto simp: due_def q0_def T)
  have ge: "getExpired now q = Inr (due now q, q0\<lparr>tq_active := A\<rparr>)"
    using erase_active_ok [OF alive] sentry_splits [OF inv, of now] by (simp add: getExpired_def Let_def A_def q0_def)
  have s: "sset (tq_timers q)" using inv by (simp add: tq_inv_def)
  have "tq_inv (out \<union> snd ` set (due now q)) (q0\<lparr>tq_active := A\<rparr>)"
  proof -
    have "sset (filter (\<lambda>e. now < fst e) (tq_timers q))" using s by (simp add: sset_def sorted_wrt_filter)
    moreover have "(w, a) \<in> set (filter (\<lambda>e. now < fst e) (tq_timers q)) \<longleftrightarrow>
        (\<exists>t. tq_heap q a = Some t \<and> a \<notin> out \<union> snd ` set (due now q) \<and> w = tm_expiration t)" for w a
      using mem by (auto simp: T)
    moreover have "(a, sq) \<in> A \<longleftrightarrow>
        (\<exists>t. tq_heap q a = Some t \<and> a \<notin> out \<union> snd ` set (due now q) \<and> sq = tm_sequence t)" for a sq
      unfolding A_def Diff_iff mem_Collect_eq A by auto
    moreover have "out \<union> snd ` set (due now q) \<subseteq> dom (tq_heap q)"
    proof (rule Un_least)
      show "out \<subseteq> dom (tq_heap q)" using inv by (simp add: tq_inv_def)
      show "snd ` set (due now q) \<subseteq> dom (tq_heap q)" using mem by blast
    qed
    ultimately show ?thesis using inv by (simp add: tq_inv_def q0_def)
  qed
  moreover have "distinct (map snd (due now q))"
    using s by (auto simp: sset_def due_def distinct_map inj_on_def T)
  moreover have "out \<inter> snd ` set (due now q) = {}" using mem by blast
  ultimately show ?thesis using ge by (auto simp: q0_def)
qed

text \<open>The callbacks of the expired timers, which are out.\<close>

lemma run_callbacks_ok:
  assumes "alloc_ok alloc" "down_closed X"
  shows "tq_inv out q \<Longrightarrow> snd ` set es \<subseteq> out \<Longrightarrow>
    tq_ok (\<lambda>q'. \<exists>fs. fs = map (\<lambda>e. tm_callback (the (tq_heap q (snd e)))) es \<and>
        tq_keeps out X (q\<lparr>tq_fired := tq_fired q @ fs\<rparr>) q')
      (run_callbacks alloc clk acts es q)"
proof (induction es arbitrary: q)
  case Nil
  then show ?case by (simp add: tq_keeps_refl)
next
  case (Cons e es)
  obtain w a where e: "e = (w, a)" by (cases e)
  from Cons.prems e obtain t where t: "tq_heap q a = Some t" by (auto simp: tq_inv_def)
  define q0 where "q0 = q\<lparr>tq_fired := tq_fired q @ [tm_callback t]\<rparr>"
  have inv0: "tq_inv out q0" using Cons.prems(1) by (simp add: q0_def tq_inv_def)
  have "tq_ok (\<lambda>q'. \<exists>fs. fs = map (\<lambda>e. tm_callback (the (tq_heap q (snd e)))) (e # es) \<and>
        tq_keeps out X (q\<lparr>tq_fired := tq_fired q @ fs\<rparr>) q') (run_callbacks alloc clk acts es q1)"
    if k: "tq_keeps out X q0 q1" for q1
  proof -
    have "tq_inv out q1" using k by (simp add: tq_keeps_def)
    moreover have same: "map (\<lambda>e. tm_callback (the (tq_heap q1 (snd e)))) es =
        map (\<lambda>e. tm_callback (the (tq_heap q (snd e)))) es"
      using k Cons.prems(2) by (auto simp: tq_keeps_def q0_def)
    ultimately have "tq_ok (\<lambda>q'. \<exists>fs. fs = map (\<lambda>e. tm_callback (the (tq_heap q (snd e)))) es \<and>
        tq_keeps out X (q1\<lparr>tq_fired := tq_fired q1 @ fs\<rparr>) q') (run_callbacks alloc clk acts es q1)"
      using Cons.IH [of q1, unfolded same] Cons.prems(2) by simp
    moreover have "tq_keeps out X (q\<lparr>tq_fired := tq_fired q @ tm_callback t # fs\<rparr>) q'"
      if "tq_keeps out X (q1\<lparr>tq_fired := tq_fired q1 @ fs\<rparr>) q'" for fs q'
      using that k by (simp add: tq_keeps_def q0_def armed_for_def)
    ultimately show ?thesis using t e by (auto elim!: res_ok_weaken)
  qed
  then show ?case
    using run_acts_ok [OF assms inv0, of clk "acts (tm_callback t)"] t
    by (auto simp: e deref_def simp flip: q0_def intro: res_ok_bind)
qed

section \<open>Putting repeating timers back\<close>

lemma round53_nonneg: "0 \<le> m \<Longrightarrow> 0 \<le> fst (round53 m e)"
  by (simp add: round53_def Let_def sgn_if)

lemma addTime_ahead:
  assumes "double_pos d" "addTime now d = Inr e"
  shows "now \<le> e"
proof (cases d)
  case (DFinite m x)
  obtain m' x' where r: "round53 (m * kMicroSecondsPerSecond) x = (m', x')" by fastforce
  have "0 \<le> m'"
    using round53_nonneg [of "m * kMicroSecondsPerSecond" x] r assms(1) DFinite
    by (simp add: double_pos_def kMicroSecondsPerSecond_def)
  then show ?thesis
    using assms(2) DFinite r
    by (auto simp: addTime_def double_mult_int_def double_to_int64_def bind_res_eq_Inr_iff int64_eq_Inr
        pos_imp_zdiv_nonneg_iff sgn_if split: if_splits)
qed (use assms in \<open>auto simp: addTime_def double_mult_int_def double_to_int64_def kMicroSecondsPerSecond_def\<close>)

lemma restart_faults: "fails_in {IntOverflow, BadAlloc} (restart t now)"
  by (auto simp: restart_def addTime_def double_to_int64_def int64_def split: double.splits
      intro!: fails_in_bind)

definition reset_result :: "(nat \<times> 64 word) set \<Rightarrow> timestamp \<Rightarrow> nat \<Rightarrow> 'f timer \<Rightarrow> 'f timer option \<Rightarrow> bool" where
  "reset_result C now a t r \<longleftrightarrow>
     (if tm_repeat t \<and> (a, tm_sequence t) \<notin> C then \<exists>t'. restart t now = Inr t' \<and> r = Some t' else r = None)"

lemma restart_fields:
  "restart t now = Inr t' \<Longrightarrow> tm_sequence t' = tm_sequence t \<and> tm_repeat t' = tm_repeat t \<and>
     tm_interval t' = tm_interval t \<and> tm_callback t' = tm_callback t \<and>
     (tm_repeat t \<longrightarrow> double_pos (tm_interval t) \<longrightarrow> now \<le> tm_expiration t')"
  by (auto simp: restart_def bind_res_eq_Inr_iff addTime_ahead split: if_splits)

lemma reset_one:
  assumes "tq_inv out q" "a \<in> out" "tq_heap q a = Some t" "0 < now" "restart t now = Inr t'" "tm_repeat t"
  shows "\<exists>b q'. timer_insert a (q\<lparr>tq_heap := (tq_heap q)(a \<mapsto> t')\<rparr>) = Inr (b, q') \<and> tq_inv (out - {a}) q' \<and>
    tq_heap q' = (tq_heap q)(a \<mapsto> t') \<and> (armed_for {..0} q \<longrightarrow> armed_for {..0} q') \<and>
    tq_fired q' = tq_fired q \<and> tq_canceling q' = tq_canceling q \<and> tq_calling q' = tq_calling q"
proof -
  let ?q = "q\<lparr>tq_heap := (tq_heap q)(a \<mapsto> t')\<rparr>"
  have rp: "double_pos (tm_interval t)" using assms(1,3,6) by (auto simp: tq_inv_def)
  have t': "0 < tm_expiration t'" "tm_repeat t' = double_pos (tm_interval t')"
    using restart_fields [OF assms(5)] rp assms(4,6) by auto
  have "a < UINTPTR_MAX" using assms(1,2) unfolding tq_inv_def by blast
  then have "tq_inv out ?q" using assms(1,2) t'(2) unfolding tq_inv_def by auto
  from timer_insert_ok [OF this assms(2)] obtain b where
    "timer_insert a ?q = Inr (b, ?q\<lparr>tq_timers := sset_insert (tm_expiration t', a) (tq_timers ?q),
      tq_active := insert (a, tm_sequence t') (tq_active ?q)\<rparr>)"
    "tq_inv (out - {a}) (?q\<lparr>tq_timers := sset_insert (tm_expiration t', a) (tq_timers ?q),
      tq_active := insert (a, tm_sequence t') (tq_active ?q)\<rparr>)" by auto
  with t'(1) show ?thesis by (auto simp: armed_for_def)
qed

definition reset_post :: "'f timer_queue \<Rightarrow> nat set \<Rightarrow> timestamp \<Rightarrow> 'f timer_queue \<Rightarrow> bool" where
  "reset_post q S now q' \<longleftrightarrow> (armed_for {..0} q \<longrightarrow> armed_for {..0} q') \<and> tq_fired q' = tq_fired q \<and>
     tq_canceling q' = tq_canceling q \<and> tq_calling q' = tq_calling q \<and>
     (\<forall>a. a \<notin> S \<longrightarrow> tq_heap q' a = tq_heap q a) \<and>
     (\<forall>a \<in> S. reset_result (tq_canceling q) now a (the (tq_heap q a)) (tq_heap q' a))"

lemma reset_post_step:
  assumes "reset_post q1 S now q'" "a \<notin> S" "armed_for {..0} q \<longrightarrow> armed_for {..0} q1"
    and "tq_fired q1 = tq_fired q" "tq_canceling q1 = tq_canceling q" "tq_calling q1 = tq_calling q"
    and "tq_heap q1 = (tq_heap q)(a := r)" "reset_result (tq_canceling q) now a (the (tq_heap q a)) r"
  shows "reset_post q (insert a S) now q'"
proof -
  have "tq_heap q1 b = tq_heap q b" if "b \<noteq> a" for b using assms(7) that by simp
  moreover have "tq_heap q' a = r" using assms(1,2,7) by (simp add: reset_post_def)
  moreover have "b \<noteq> a" if "b \<in> S" for b using that assms(2) by blast
  ultimately show ?thesis using assms unfolding reset_post_def by auto
qed

lemma reset_loop_ok:
  assumes "0 < now"
  shows "tq_inv (out \<union> snd ` set es) q \<Longrightarrow> out \<inter> snd ` set es = {} \<Longrightarrow> distinct (map snd es) \<Longrightarrow>
    tq_ok (\<lambda>q'. tq_inv out q' \<and> reset_post q (snd ` set es) now q') (reset_loop es now q)"
proof (induction es arbitrary: q)
  case Nil
  then show ?case by (simp add: reset_post_def)
next
  case (Cons e es)
  obtain w a where e: "e = (w, a)" by (cases e)
  let ?S = "snd ` set es"
  have a: "a \<in> out \<union> snd ` set (e # es)" "a \<notin> ?S" and S: "out \<union> snd ` set (e # es) - {a} = out \<union> ?S"
    using Cons.prems(2,3) e by auto
  obtain t where t: "tq_heap q a = Some t" using Cons.prems(1) a(1) by (auto simp: tq_inv_def e)
  have rest: "tq_ok (\<lambda>q'. tq_inv out q' \<and> reset_post q (snd ` set (e # es)) now q') (reset_loop es now q1)"
    if "tq_inv (out \<union> ?S) q1" "armed_for {..0} q \<longrightarrow> armed_for {..0} q1" "tq_fired q1 = tq_fired q"
      "tq_canceling q1 = tq_canceling q" "tq_calling q1 = tq_calling q"
      "tq_heap q1 = (tq_heap q)(a := r)" "reset_result (tq_canceling q) now a t r" for q1 r
  proof -
    have "reset_post q (snd ` set (e # es)) now q'" if "reset_post q1 ?S now q'" for q'
      using reset_post_step [OF that a(2) \<open>armed_for {..0} q \<longrightarrow> armed_for {..0} q1\<close>]
        \<open>tq_fired q1 = tq_fired q\<close> \<open>tq_canceling q1 = tq_canceling q\<close> \<open>tq_calling q1 = tq_calling q\<close>
        \<open>tq_heap q1 = (tq_heap q)(a := r)\<close> \<open>reset_result (tq_canceling q) now a t r\<close> t e
      by simp
    moreover have "tq_ok (\<lambda>q'. tq_inv out q' \<and> reset_post q1 ?S now q') (reset_loop es now q1)"
      using Cons.IH [OF that(1)] Cons.prems(2,3) by simp
    ultimately show ?thesis by (auto elim!: res_ok_weaken)
  qed
  show ?case
  proof (cases "tm_repeat t \<and> (a, tm_sequence t) \<notin> tq_canceling q")
    case True
    show ?thesis
    proof (cases "restart t now")
      case (Inl err)
      with restart_faults [of t now] True t show ?thesis by (simp add: e deref_def)
    next
      case (Inr t')
      obtain b q1 where q1: "timer_insert a (q\<lparr>tq_heap := (tq_heap q)(a \<mapsto> t')\<rparr>) = Inr (b, q1)" "tq_inv (out \<union> ?S) q1"
          "tq_heap q1 = (tq_heap q)(a \<mapsto> t')" "armed_for {..0} q \<longrightarrow> armed_for {..0} q1"
          "tq_fired q1 = tq_fired q" "tq_canceling q1 = tq_canceling q" "tq_calling q1 = tq_calling q"
        using reset_one [OF Cons.prems(1) a(1) t assms Inr] True S by auto
      have "reset_result (tq_canceling q) now a t (Some t')"
        using True Inr by (simp add: reset_result_def)
      from rest [OF q1(2,4,5,6,7,3) this] show ?thesis using True t Inr q1(1) by (simp add: e deref_def)
    qed
  next
    case False
    have del: "delete_timer a q = Inr (q\<lparr>tq_heap := (tq_heap q)(a := None)\<rparr>)"
        "tq_inv (out \<union> ?S) (q\<lparr>tq_heap := (tq_heap q)(a := None)\<rparr>)"
      using delete_timer_ok [OF Cons.prems(1) a(1)] S by simp_all
    have "reset_result (tq_canceling q) now a t None" using False by (auto simp: reset_result_def)
    then have "tq_ok (\<lambda>q'. tq_inv out q' \<and> reset_post q (snd ` set (e # es)) now q')
        (reset_loop es now (q\<lparr>tq_heap := (tq_heap q)(a := None)\<rparr>))"
      by (intro rest [OF del(2), of None]) (auto simp: armed_for_def)
    with False t del(1) show ?thesis by (auto simp: e deref_def)
  qed
qed

lemma reset_timers_ok:
  assumes "0 < now" "tq_inv (out \<union> snd ` set es) q" "out \<inter> snd ` set es = {}" "distinct (map snd es)" "armed_for {..0} q"
  shows "tq_ok (\<lambda>q'. tq_inv out q' \<and> armed_for UNIV q' \<and>
      (\<exists>q1. reset_post q (snd ` set es) now q1 \<and> tq_heap q' = tq_heap q1 \<and> tq_fired q' = tq_fired q1 \<and>
        tq_calling q' = tq_calling q1)) (reset_timers clk es now q)"
proof -
  have "tq_ok (\<lambda>q'. tq_inv out q' \<and> armed_for UNIV q' \<and>
      (\<exists>q1. reset_post q (snd ` set es) now q1 \<and> tq_heap q' = tq_heap q1 \<and> tq_fired q' = tq_fired q1 \<and>
        tq_calling q' = tq_calling q1))
      (bind_res (case tq_timers q1 of [] \<Rightarrow> Inr invalid_time
        | e # es \<Rightarrow> bind_res (deref q1 (snd e)) (\<lambda>t. Inr (tm_expiration t)))
       (\<lambda>nextExpire. if valid_time nextExpire then resetTimerfd clk nextExpire q1 else Inr q1))"
    if inv: "tq_inv out q1" and post: "reset_post q (snd ` set es) now q1" for q1
  proof (cases "tq_timers q1")
    case Nil
    with inv post show ?thesis by (auto simp: invalid_time_def valid_time_def armed_for_def)
  next
    case (Cons e rest)
    obtain w a where e: "e = (w, a)" by (cases e)
    then obtain t where t: "tq_heap q1 a = Some t" "w = tm_expiration t"
      using tq_inv_timer [OF inv, of w a] Cons by auto
    have first: "w \<le> fst x" if "x \<in> set (tq_timers q1)" for x
      using sset_hd_le [of "tq_timers q1" x] that inv Cons e by (auto simp: tq_inv_def less_eq_prod_def)
    show ?thesis
    proof (cases "0 < w")
      case True
      have "tq_inv out (q1\<lparr>tq_reads := r, tq_armed := Some (w, d)\<rparr>) \<and>
          armed_for UNIV (q1\<lparr>tq_reads := r, tq_armed := Some (w, d)\<rparr>)" for r d
        using inv first by (auto simp: armed_for_def tq_inv_def)
      then show ?thesis
        using resetTimerfd_ok [where q = q1 and e = w and clk = clk] Cons e t True post
        by (auto simp: deref_def valid_time_def elim!: res_ok_weaken)
    next
      case False
      have "armed_for {..0} q1" using post assms(5) by (simp add: reset_post_def)
      moreover have "(w, a) \<in> set (tq_timers q1)" using Cons e by simp
      ultimately obtain w' d where "tq_armed q1 = Some (w', d)" "w' \<le> w"
        using armed_forD [of "{..0}" q1 "(w, a)"] False by auto
      then have "armed_for UNIV q1" using first by (force simp: armed_for_def)
      with inv post Cons e t False show ?thesis by (auto simp: deref_def valid_time_def)
    qed
  qed
  then show ?thesis
    unfolding reset_timers_def
    by (intro res_ok_bind [OF reset_loop_ok [OF assms(1-4)]]) auto
qed

section \<open>Cancelling a timer whose round is running\<close>

lemma run_acts_cancels:
  assumes "alloc_ok alloc" "tid_timer i \<in> out"
  shows "tq_inv out q \<Longrightarrow> tq_calling q \<Longrightarrow>
    ActCancel i \<in> set as \<or> (tid_timer i, tid_sequence i) \<in> tq_canceling q \<Longrightarrow>
    tq_ok (\<lambda>q'. (tid_timer i, tid_sequence i) \<in> tq_canceling q') (run_acts alloc clk as q)"
proof (induction as arbitrary: q)
  case (Cons x as)
  show ?case
  proof (cases x)
    case (ActAdd f w iv)
    have "tq_ok (\<lambda>q'. (tid_timer i, tid_sequence i) \<in> tq_canceling q') (run_acts alloc clk as q1)"
      if "tq_keeps out {} q q1" for q1
      using that Cons.prems ActAdd by (intro Cons.IH) (auto simp: tq_keeps_def)
    then show ?thesis
      unfolding ActAdd run_acts.simps
      using addTimer_ok [OF Cons.prems(1) assms(1), of "{}" clk f w iv]
      by (auto simp: down_closed_def intro!: res_ok_bind)
  next
    case (ActCancel j)
    have notin: "(tid_timer i, tid_sequence i) \<notin> tq_active q"
      using Cons.prems(1) assms(2) by (auto simp: tq_inv_def)
    have next_ok: "tq_ok (\<lambda>q'. (tid_timer i, tid_sequence i) \<in> tq_canceling q') (run_acts alloc clk as q1)"
      if k: "tq_keeps out {} q q1" and c: "cancelInLoop j q = Inr q1" for q1
    proof (rule Cons.IH)
      show "tq_inv out q1" "tq_calling q1" using k Cons.prems(2) by (auto simp: tq_keeps_def)
      show "ActCancel i \<in> set as \<or> (tid_timer i, tid_sequence i) \<in> tq_canceling q1"
      proof (cases "j = i")
        case True
        then show ?thesis using c notin Cons.prems(2) by (auto simp: cancelInLoop_def)
      next
        case False
        then show ?thesis using k Cons.prems ActCancel by (auto simp: tq_keeps_def)
      qed
    qed
    show ?thesis
      unfolding ActCancel run_acts.simps
      by (rule res_ok_bind [OF cancelInLoop_ok [OF Cons.prems(1)]]) (rule next_ok)
  qed
qed simp

lemma run_callbacks_cancels:
  assumes "alloc_ok alloc" "tid_timer i \<in> out"
  shows "tq_inv out q \<Longrightarrow> tq_calling q \<Longrightarrow> snd ` set es \<subseteq> out \<Longrightarrow>
    (\<exists>e \<in> set es. ActCancel i \<in> set (acts (tm_callback (the (tq_heap q (snd e)))))) \<or>
      (tid_timer i, tid_sequence i) \<in> tq_canceling q \<Longrightarrow>
    tq_ok (\<lambda>q'. (tid_timer i, tid_sequence i) \<in> tq_canceling q') (run_callbacks alloc clk acts es q)"
proof (induction es arbitrary: q)
  case (Cons e es)
  obtain w a where e: "e = (w, a)" by (cases e)
  from Cons.prems e obtain t where t: "tq_heap q a = Some t" by (auto simp: tq_inv_def)
  define q0 where "q0 = q\<lparr>tq_fired := tq_fired q @ [tm_callback t]\<rparr>"
  have inv0: "tq_inv out q0" "tq_calling q0" using Cons.prems(1,2) by (simp_all add: q0_def tq_inv_def)
  have down: "down_closed {}" by (simp add: down_closed_def)
  have "tq_ok (\<lambda>q'. (tid_timer i, tid_sequence i) \<in> tq_canceling q') (run_callbacks alloc clk acts es q1)"
    if r: "run_acts alloc clk (acts (tm_callback t)) q0 = Inr q1" for q1
  proof (rule Cons.IH)
    have k: "tq_keeps out {} q0 q1"
      using run_acts_ok [OF assms(1) down inv0(1), of clk "acts (tm_callback t)"] r by simp
    then show "tq_inv out q1" "tq_calling q1" using inv0(2) by (auto simp: tq_keeps_def)
    show "snd ` set es \<subseteq> out" using Cons.prems(3) by simp
    have same: "tq_heap q1 (snd e') = tq_heap q (snd e')" if "e' \<in> set es" for e'
      using k that Cons.prems(3) by (auto simp: tq_keeps_def q0_def)
    show "(\<exists>e \<in> set es. ActCancel i \<in> set (acts (tm_callback (the (tq_heap q1 (snd e)))))) \<or>
        (tid_timer i, tid_sequence i) \<in> tq_canceling q1"
    proof (cases "\<exists>e' \<in> set es. ActCancel i \<in> set (acts (tm_callback (the (tq_heap q (snd e')))))")
      case True
      then show ?thesis using same by auto
    next
      case False
      then have "ActCancel i \<in> set (acts (tm_callback t)) \<or> (tid_timer i, tid_sequence i) \<in> tq_canceling q0"
        using Cons.prems(4) e t by (auto simp: q0_def)
      from run_acts_cancels [OF assms inv0 this, of clk] r show ?thesis by simp
    qed
  qed
  then show ?case
    by (cases "run_acts alloc clk (acts (tm_callback t)) q0")
      (use t run_acts_ok [OF assms(1) down inv0(1), of clk "acts (tm_callback t)"] in
        \<open>auto simp: e deref_def simp flip: q0_def\<close>)
qed simp

lemma run_callbacks_quiet:
  "\<forall>e \<in> set es. acts (tm_callback (the (tq_heap q (snd e)))) = [] \<Longrightarrow>
     run_callbacks alloc clk acts es q = Inr q' \<Longrightarrow> tq_canceling q' = tq_canceling q"
proof (induction es arbitrary: q)
  case (Cons e es)
  obtain w a where e: "e = (w, a)" by (cases e)
  with Cons.prems obtain t where t: "tq_heap q a = Some t"
    by (cases "tq_heap q a") (auto simp: deref_def)
  define q0 where "q0 = q\<lparr>tq_fired := tq_fired q @ [tm_callback t]\<rparr>"
  have "tq_heap q0 = tq_heap q" "tq_canceling q0 = tq_canceling q" by (simp_all add: q0_def)
  with Cons.IH [of q0] Cons.prems t show ?case by (simp add: e deref_def flip: q0_def)
qed simp

section \<open>A round of the queue\<close>

definition round_post :: "nat set \<Rightarrow> ('f \<Rightarrow> 'f timer_act list) \<Rightarrow> timestamp \<Rightarrow> 'f timer_queue \<Rightarrow> 'f timer_queue \<Rightarrow> bool" where
  "round_post out acts now q q' \<longleftrightarrow> tq_inv out q' \<and> (\<forall>a \<in> out. tq_heap q' a = tq_heap q a) \<and> armed_for UNIV q' \<and> \<not> tq_calling q' \<and>
     tq_fired q' = tq_fired q @ map (\<lambda>e. tm_callback (the (tq_heap q (snd e)))) (due now q) \<and>
     (\<exists>C. (\<forall>e \<in> set (due now q).
             reset_result C now (snd e) (the (tq_heap q (snd e))) (tq_heap q' (snd e))) \<and>
          (\<forall>e \<in> set (due now q). \<forall>i. ActCancel i \<in> set (acts (tm_callback (the (tq_heap q (snd e))))) \<longrightarrow>
             tid_timer i \<in> snd ` set (due now q) \<longrightarrow> (tid_timer i, tid_sequence i) \<in> C) \<and>
          ((\<forall>e \<in> set (due now q). acts (tm_callback (the (tq_heap q (snd e)))) = []) \<longrightarrow> C = {}))"

text \<open>The end of a round: \<open>q4\<close> is the queue after the callbacks of the due timers.\<close>

lemma round_reset_ok:
  assumes now: "0 < now" and q4: "tq_inv (out \<union> snd ` set (due now q)) q4" "armed_for {..0} q4" "\<not> tq_calling q4"
      "tq_fired q4 = tq_fired q @ map (\<lambda>e. tm_callback (the (tq_heap q (snd e)))) (due now q)"
      "\<forall>a \<in> out \<union> snd ` set (due now q). tq_heap q4 a = tq_heap q a"
    and es: "out \<inter> snd ` set (due now q) = {}" "distinct (map snd (due now q))"
    and canc: "\<And>e i. e \<in> set (due now q) \<Longrightarrow> ActCancel i \<in> set (acts (tm_callback (the (tq_heap q (snd e))))) \<Longrightarrow>
      tid_timer i \<in> snd ` set (due now q) \<Longrightarrow> (tid_timer i, tid_sequence i) \<in> tq_canceling q4"
    and quiet: "\<forall>e \<in> set (due now q). acts (tm_callback (the (tq_heap q (snd e)))) = [] \<Longrightarrow> tq_canceling q4 = {}"
  shows "tq_ok (round_post out acts now q) (reset_timers clk (due now q) now q4)"
proof -
  have "round_post out acts now q q'"
    if "tq_inv out q'" "armed_for UNIV q'" "reset_post q4 (snd ` set (due now q)) now q5" "tq_heap q' = tq_heap q5"
      "tq_fired q' = tq_fired q5" "tq_calling q' = tq_calling q5" for q' q5
  proof -
    have "tq_heap q' a = tq_heap q a" if a: "a \<in> out" for a
    proof -
      have "a \<notin> snd ` set (due now q)" using a es(1) by blast
      then have "tq_heap q5 a = tq_heap q4 a" using \<open>reset_post q4 (snd ` set (due now q)) now q5\<close> unfolding reset_post_def by blast
      with a q4(5) \<open>tq_heap q' = tq_heap q5\<close> show ?thesis by simp
    qed
    with that q4(3-5) canc quiet show ?thesis
      unfolding round_post_def by (intro conjI exI [of _ "tq_canceling q4"] ballI) (simp_all add: reset_post_def)
  qed
  then show ?thesis
    using reset_timers_ok [OF now q4(1) es q4(2), of clk] by (auto elim!: res_ok_weaken)
qed

lemma timers_handleRead_ok:
  assumes "alloc_ok alloc" "tq_inv out q" "0 < clk (tq_reads q)"
  shows "tq_ok (round_post out acts (now_time (clk (tq_reads q))) q) (timers_handleRead alloc clk acts q)"
proof -
  define now where "now = now_time (clk (tq_reads q))"
  define q0 where "q0 = q\<lparr>tq_armed := None, tq_reads := Suc (tq_reads q)\<rparr>"
  have now: "0 < now" using assms(3) by (simp add: now_def now_time_def)
  have inv0: "tq_inv out q0" and due0: "due now q0 = due now q" and q0: "tq_heap q0 = tq_heap q" "tq_fired q0 = tq_fired q"
    using assms(2) by (simp_all add: q0_def tq_inv_def due_def)
  let ?es = "due now q"
  obtain q1 A where disj: "out \<inter> snd ` set ?es = {}" and ge: "getExpired now q0 = Inr (?es, q1)" and inv1: "tq_inv (out \<union> snd ` set ?es) q1"
      and dist: "distinct (map snd ?es)" and tm: "tq_timers q1 = filter (\<lambda>e. now < fst e) (tq_timers q0)"
      and q1: "q1 = q0\<lparr>tq_timers := tq_timers q1, tq_active := A\<rparr>"
    using getExpired_ok [OF inv0, of now] due0 by auto
  have h1: "tq_heap q1 = tq_heap q" "tq_fired q1 = tq_fired q" by (subst q1, simp add: q0)+
  define q2 where "q2 = q1\<lparr>tq_calling := True, tq_canceling := {}\<rparr>"
  have q2: "tq_heap q2 = tq_heap q" "tq_fired q2 = tq_fired q" "tq_calling q2" "tq_canceling q2 = {}"
      "tq_timers q2 = tq_timers q1"
    using h1 by (simp_all add: q2_def)
  have inv2: "tq_inv (out \<union> snd ` set ?es) q2" using inv1 by (simp add: q2_def tq_inv_def)
  have arm2: "armed_for {..0} q2" using tm now q2(5) by (auto simp: armed_for_def)
  let ?cbs = "map (\<lambda>e. tm_callback (the (tq_heap q (snd e)))) ?es"
  have step: "tq_ok (round_post out acts now q) (reset_timers clk ?es now (q3\<lparr>tq_calling := False\<rparr>))"
    if r: "run_callbacks alloc clk acts ?es q2 = Inr q3" for q3
  proof -
    have k: "tq_keeps (out \<union> snd ` set ?es) {..0} (q2\<lparr>tq_fired := tq_fired q @ ?cbs\<rparr>) q3"
      using run_callbacks_ok [OF assms(1) down_closed_simps(2) inv2 Un_upper2, of 0 clk acts] r q2 by simp
    have arm: "armed_for {..0} (q2\<lparr>tq_fired := tq_fired q @ ?cbs\<rparr>)" using arm2 by (simp add: armed_for_def)
    define q4 where "q4 = q3\<lparr>tq_calling := False\<rparr>"
    have q4: "tq_inv (out \<union> snd ` set ?es) q4" "armed_for {..0} q4" "tq_fired q4 = tq_fired q @ ?cbs"
        "\<forall>a \<in> out \<union> snd ` set ?es. tq_heap q4 a = tq_heap q a" "tq_canceling q4 = tq_canceling q3" "\<not> tq_calling q4"
      using k arm q2(1) by (simp_all add: tq_keeps_def q4_def tq_inv_def armed_for_def)
    have canc: "(tid_timer i, tid_sequence i) \<in> tq_canceling q4"
      if "e \<in> set ?es" "ActCancel i \<in> set (acts (tm_callback (the (tq_heap q (snd e)))))"
        "tid_timer i \<in> snd ` set ?es" for e i
      using run_callbacks_cancels [OF assms(1) UnI2 [OF that(3)] inv2 q2(3) Un_upper2, of acts clk] that r q2(1) q4(5) by auto
    have quiet: "tq_canceling q4 = {}"
      if "\<forall>e \<in> set ?es. acts (tm_callback (the (tq_heap q (snd e)))) = []"
      using run_callbacks_quiet [of ?es acts q2, OF _ r] that q2(1,4) q4(5) by simp
    show ?thesis
      using round_reset_ok [OF now q4(1,2,6,3,4) disj dist, of acts clk] canc quiet by (simp add: q4_def)
  qed
  have "timers_handleRead alloc clk acts q = bind_res (run_callbacks alloc clk acts ?es q2)
      (\<lambda>q3. reset_timers clk ?es now (q3\<lparr>tq_calling := False\<rparr>))"
    using ge by (simp add: timers_handleRead_def read_clock_def q0_def q2_def flip: now_def)
  then show ?thesis
    using run_callbacks_ok [OF assms(1) down_closed_simps(2) inv2 Un_upper2, of 0 clk acts] step
    by (auto simp flip: now_def intro!: res_ok_bind)
qed

section \<open>Histories of the queue\<close>

datatype 'f timer_op = OpAdd 'f timestamp double | OpCancel timer_id | OpFire

fun run_timer_ops :: "((nat \<rightharpoonup> 'f timer) \<Rightarrow> nat option) \<Rightarrow> (nat \<Rightarrow> int) \<Rightarrow> ('f \<Rightarrow> 'f timer_act list) \<Rightarrow>
    'f timer_op list \<Rightarrow> 'f timer_queue \<Rightarrow> 'f timer_queue res" where
  "run_timer_ops alloc clk acts [] q = Inr q"
| "run_timer_ops alloc clk acts (OpAdd f w iv # ops) q =
     bind_res (addTimer alloc clk f w iv q) (\<lambda>(_, q1). run_timer_ops alloc clk acts ops q1)"
| "run_timer_ops alloc clk acts (OpCancel i # ops) q =
     bind_res (cancelInLoop i q) (run_timer_ops alloc clk acts ops)"
| "run_timer_ops alloc clk acts (OpFire # ops) q =
     bind_res (timers_handleRead alloc clk acts q) (run_timer_ops alloc clk acts ops)"

definition tq_ready :: "'f timer_queue \<Rightarrow> bool" where
  "tq_ready q \<longleftrightarrow> tq_inv {} q \<and> armed_for UNIV q \<and> \<not> tq_calling q"

lemma tq_keeps_ready: "tq_ready q \<Longrightarrow> tq_keeps {} UNIV q q' \<Longrightarrow> tq_ready q'"
  by (simp add: tq_ready_def tq_keeps_def)

lemma run_timer_ops_ok:
  assumes "alloc_ok alloc" "\<And>n. 0 < clk n"
  shows "tq_ready q \<Longrightarrow> tq_ok tq_ready (run_timer_ops alloc clk acts ops q)"
proof (induction ops arbitrary: q)
  case (Cons x ops)
  have inv: "tq_inv {} q" using Cons.prems by (simp add: tq_ready_def)
  show ?case
  proof (cases x)
    case (OpAdd f w iv)
    show ?thesis
      unfolding OpAdd run_timer_ops.simps
      by (rule res_ok_bind [OF addTimer_ok [OF inv assms(1) down_closed_simps(1)]])
        (auto intro: Cons.IH tq_keeps_ready [OF Cons.prems])
  next
    case (OpCancel i)
    show ?thesis
      unfolding OpCancel run_timer_ops.simps
      by (rule res_ok_bind [OF cancelInLoop_ok [OF inv]]) (rule Cons.IH, rule tq_keeps_ready [OF Cons.prems])
  next
    case OpFire
    show ?thesis
      unfolding OpFire run_timer_ops.simps
      by (rule res_ok_bind [OF timers_handleRead_ok [where clk = clk, OF assms(1) inv assms(2)]])
        (rule Cons.IH, simp add: round_post_def tq_ready_def)
  qed
qed simp

lemma new_timer_queue_ready: "tq_ready new_timer_queue"
  using new_timer_queue_inv by (simp add: tq_ready_def armed_for_def) (simp add: new_timer_queue_def)

text \<open>Destroying the queue frees every timer once.\<close>

lemma delete_timers_ok:
  "distinct (map snd es) \<Longrightarrow> snd ` set es \<subseteq> dom (tq_heap q) \<Longrightarrow>
     \<exists>q'. delete_timers es q = Inr q' \<and> dom (tq_heap q') = dom (tq_heap q) - snd ` set es"
proof (induction es arbitrary: q)
  case (Cons e es)
  let ?q = "q\<lparr>tq_heap := (tq_heap q)(snd e := None)\<rparr>"
  have d: "delete_timer (snd e) q = Inr ?q" using Cons.prems(2) by (auto simp: delete_timer_def)
  have "snd ` set es \<subseteq> dom (tq_heap q) - {snd e}" using Cons.prems by (simp add: subset_Diff_insert)
  then have "snd ` set es \<subseteq> dom (tq_heap ?q)" by simp
  from Cons.prems(1) have "distinct (map snd es)" by simp
  from Cons.IH [OF this \<open>snd ` set es \<subseteq> dom (tq_heap ?q)\<close>] obtain q' where
      q': "delete_timers es ?q = Inr q'" "dom (tq_heap q') = dom (tq_heap ?q) - snd ` set es"
    by blast
  have "dom (tq_heap ?q) = dom (tq_heap q) - {snd e}" by simp
  then have "dom (tq_heap q') = dom (tq_heap q) - snd ` set (e # es)"
    by (simp only: q'(2) list.set image_insert) blast
  moreover have "delete_timers (e # es) q = Inr q'" using d q'(1) by simp
  ultimately show ?case by blast
qed simp

lemma delete_timer_queue_ok:
  assumes "tq_ready q"
  shows "\<exists>q'. delete_timer_queue q = Inr q' \<and> tq_heap q' = Map.empty"
proof -
  have inv: "tq_inv {} q" using assms by (simp add: tq_ready_def)
  have T: "(w, a) \<in> set (tq_timers q) \<longleftrightarrow> (\<exists>t. tq_heap q a = Some t \<and> w = tm_expiration t)" for w a
    using inv unfolding tq_inv_def by blast
  have "sset (tq_timers q)" using inv by (simp add: tq_inv_def)
  then have d: "distinct (map snd (tq_timers q))" by (auto simp: sset_def distinct_map inj_on_def T)
  have "snd ` set (tq_timers q) = dom (tq_heap q)"
  proof (intro equalityI subsetI)
    fix a assume "a \<in> dom (tq_heap q)"
    then obtain w where "(w, a) \<in> set (tq_timers q)" by (auto simp: T)
    then show "a \<in> snd ` set (tq_timers q)" by force
  qed (auto simp: T)
  with delete_timers_ok [OF d, of q] show ?thesis by (auto simp: delete_timer_queue_def)
qed

text \<open>An allocator that searches the first addresses, for examples.\<close>

definition first_fit :: "nat \<Rightarrow> (nat \<rightharpoonup> 'f timer) \<Rightarrow> nat option" where
  "first_fit n h = find (\<lambda>a. h a = None) [1..<n]"

lemma first_fit_ok: "n \<le> UINTPTR_MAX \<Longrightarrow> alloc_ok (first_fit n)"
  by (auto simp: alloc_ok_def first_fit_def find_Some_iff)

lemma UINTPTR_MAX_large: "100 \<le> UINTPTR_MAX"
  by (simp add: UINTPTR_MAX_def)

section \<open>Properties\<close>

text \<open>C4. The timer queue is memory safe and leaks nothing: over every sequence of additions,
  cancellations of any identifiers (stale ones included) and firings whose callbacks add and cancel
  timers themselves, no freed timer is touched and the only failures are an overflow of the time and
  the exhaustion of memory; afterwards the allocated timers are exactly the queued ones, the two sets
  agree with them, and whenever a timer is queued the descriptor is armed for its expiration or an
  earlier time.\<close>

theorem timer_queue_safe:
  assumes "alloc_ok alloc" "\<And>n. 0 < clk n"
  shows "case run_timer_ops alloc clk acts ops new_timer_queue of
      Inl e \<Rightarrow> e \<in> {IntOverflow, BadAlloc}
    | Inr q \<Rightarrow>
        dom (tq_heap q) = snd ` set (tq_timers q) \<and> sorted (tq_timers q) \<and> distinct (map snd (tq_timers q)) \<and>
        (\<forall>(w, a) \<in> set (tq_timers q). \<exists>t. tq_heap q a = Some t \<and> tm_expiration t = w \<and>
           (a, tm_sequence t) \<in> tq_active q) \<and>
        (tq_timers q \<noteq> [] \<longrightarrow> (\<exists>w d. tq_armed q = Some (w, d) \<and> w \<le> fst (hd (tq_timers q))))"
proof (cases "run_timer_ops alloc clk acts ops new_timer_queue")
  case (Inl e)
  with run_timer_ops_ok [where clk = clk and acts = acts and ops = ops, OF assms new_timer_queue_ready] show ?thesis by simp
next
  case (Inr q)
  with run_timer_ops_ok [where clk = clk and acts = acts and ops = ops, OF assms new_timer_queue_ready]
  have inv: "tq_inv {} q" and arm: "armed_for UNIV q" by (auto simp: tq_ready_def)
  have T: "(w, a) \<in> set (tq_timers q) \<longleftrightarrow> (\<exists>t. tq_heap q a = Some t \<and> w = tm_expiration t)" for w a
    using inv unfolding tq_inv_def by blast
  have A: "(a, sq) \<in> tq_active q \<longleftrightarrow> (\<exists>t. tq_heap q a = Some t \<and> sq = tm_sequence t)" for a sq
    using inv unfolding tq_inv_def by blast
  have "dom (tq_heap q) = snd ` set (tq_timers q)"
  proof (intro equalityI subsetI)
    fix a assume "a \<in> dom (tq_heap q)"
    then obtain w where "(w, a) \<in> set (tq_timers q)" by (auto simp: T)
    then show "a \<in> snd ` set (tq_timers q)" by force
  qed (auto simp: T)
  moreover have s: "sset (tq_timers q)" using inv by (simp add: tq_inv_def)
  then have "sorted (tq_timers q)" by (simp add: sset_def)
  moreover have "distinct (map snd (tq_timers q))"
    using s by (auto simp: sset_def distinct_map inj_on_def T)
  moreover have "\<forall>(w, a) \<in> set (tq_timers q). \<exists>t. tq_heap q a = Some t \<and> tm_expiration t = w \<and>
      (a, tm_sequence t) \<in> tq_active q"
    by (auto simp: T A)
  moreover have "\<exists>w d. tq_armed q = Some (w, d) \<and> w \<le> fst (hd (tq_timers q))" if "tq_timers q \<noteq> []"
    using armed_forD [OF arm, of "hd (tq_timers q)"] that by simp
  ultimately show ?thesis using Inr by auto
qed

theorem timer_queue_safe_witness:
  "case run_timer_ops (first_fit 100) (\<lambda>n. 50 + int n) (\<lambda>f. [ActCancel \<lparr>tid_timer = 1, tid_sequence = 1\<rparr>])
      [OpAdd ''tick'' 10 (whole 1), OpFire] new_timer_queue of
      Inl e \<Rightarrow> e \<in> {IntOverflow, BadAlloc} | Inr q \<Rightarrow> dom (tq_heap q) = snd ` set (tq_timers q)"
  using timer_queue_safe [where alloc = "first_fit 100" and clk = "\<lambda>n. 50 + int n"
      and acts = "\<lambda>f. [ActCancel \<lparr>tid_timer = 1, tid_sequence = 1\<rparr>]"
      and ops = "[OpAdd ''tick'' 10 (whole 1), OpFire]", OF first_fit_ok [OF UINTPTR_MAX_large]]
  by (cases "run_timer_ops (first_fit 100) (\<lambda>n. 50 + int n) (\<lambda>f. [ActCancel \<lparr>tid_timer = 1, tid_sequence = 1\<rparr>])
      [OpAdd ''tick'' 10 (whole 1), OpFire] new_timer_queue") auto



end
