(* ===== verification/TimerThreads.thy ===== *)
theory TimerThreads
  imports TimerQueue
begin

text \<open>
  The timer queue used by several threads: \<open>addTimer\<close> and \<open>cancel\<close> hand their work to the loop with
  \<open>runInLoop\<close>, and the loop runs these functors and fires the timers. A step is the code between two points
  at which another thread can act. A firing is one step: what other threads do meanwhile touches only the
  allocator, the counter of timers and the queue of functors.
\<close>

section \<open>The threads\<close>

text \<open>How far a thread has got in \<open>addTimer\<close>: it has made the timer, has handed it to the loop, or has
  returned.\<close>

datatype add_call = NoCall | Created nat | Handed nat | Returned timer_id

datatype timer_task = AddTask nat | CancelTask timer_id

record 'f timer_sys =
  ts_timers :: "'f timer_queue"
  ts_functors :: "timer_task list"
  ts_calls :: "nat \<Rightarrow> add_call"

definition new_timer_sys :: "'f timer_sys" where
  "new_timer_sys = \<lparr>ts_timers = new_timer_queue, ts_functors = [], ts_calls = (\<lambda>_. NoCall)\<rparr>"

fun run_timer_task :: "(nat \<Rightarrow> int) \<Rightarrow> timer_task \<Rightarrow> 'f timer_queue \<Rightarrow> 'f timer_queue res" where
  "run_timer_task clk (AddTask a) q = addTimerInLoop clk a q"
| "run_timer_task clk (CancelTask i) q = cancelInLoop i q"

text \<open>\<open>runInLoop\<close>: \<open>here\<close> is whether the caller is the thread of the loop.\<close>

definition timers_runInLoop :: "(nat \<Rightarrow> int) \<Rightarrow> bool \<Rightarrow> timer_task \<Rightarrow> 'f timer_sys \<Rightarrow> 'f timer_sys res" where
  "timers_runInLoop clk here task s =
     (if here
      then bind_res (run_timer_task clk task (ts_timers s)) (\<lambda>q. Inr (s\<lparr>ts_timers := q\<rparr>))
      else Inr (s\<lparr>ts_functors := ts_functors s @ [task]\<rparr>))"

text \<open>The three statements of \<open>addTimer\<close> in the thread \<open>t\<close>.\<close>

definition create_timer :: "((nat \<rightharpoonup> 'f timer) \<Rightarrow> nat option) \<Rightarrow> nat \<Rightarrow> 'f \<Rightarrow> timestamp \<Rightarrow> double \<Rightarrow>
    'f timer_sys \<Rightarrow> 'f timer_sys res" where
  "create_timer alloc t cb time interval s =
     (case alloc (tq_heap (ts_timers s)) of
        None \<Rightarrow> Inl BadAlloc
      | Some a \<Rightarrow>
          let q = ts_timers s; (timer, n) = new_timer cb time interval (tq_created q)
          in Inr (s\<lparr>ts_timers := q\<lparr>tq_heap := (tq_heap q)(a \<mapsto> timer), tq_created := n\<rparr>,
                    ts_calls := (ts_calls s)(t := Created a)\<rparr>))"

definition hand_timer :: "(nat \<Rightarrow> int) \<Rightarrow> nat \<Rightarrow> nat \<Rightarrow> nat \<Rightarrow> 'f timer_sys \<Rightarrow> 'f timer_sys res" where
  "hand_timer clk loop t a s =
     bind_res (timers_runInLoop clk (t = loop) (AddTask a) s) (\<lambda>s1.
       Inr (s1\<lparr>ts_calls := (ts_calls s1)(t := Handed a)\<rparr>))"

definition return_id :: "nat \<Rightarrow> nat \<Rightarrow> 'f timer_sys \<Rightarrow> 'f timer_sys res" where
  "return_id t a s =
     bind_res (deref (ts_timers s) a) (\<lambda>timer.
       Inr (s\<lparr>ts_calls := (ts_calls s)(t := Returned \<lparr>tid_timer = a, tid_sequence = tm_sequence timer\<rparr>)\<rparr>))"

definition timers_cancel :: "(nat \<Rightarrow> int) \<Rightarrow> nat \<Rightarrow> nat \<Rightarrow> timer_id \<Rightarrow> 'f timer_sys \<Rightarrow> 'f timer_sys res" where
  "timers_cancel clk loop t timerId s = timers_runInLoop clk (t = loop) (CancelTask timerId) s"

fun in_call :: "add_call \<Rightarrow> bool" where
  "in_call (Created a) = True"
| "in_call (Handed a) = True"
| "in_call _ = False"

text \<open>A cancellation may name any timer, also one that was never made or is long gone.\<close>

inductive timer_step ::
    "((nat \<rightharpoonup> 'f timer) \<Rightarrow> nat option) \<Rightarrow> (nat \<Rightarrow> int) \<Rightarrow> ('f \<Rightarrow> 'f timer_act list) \<Rightarrow> nat \<Rightarrow>
      'f timer_sys \<Rightarrow> 'f timer_sys \<Rightarrow> bool"
  for alloc clk acts loop where
  t_create: "\<not> in_call (ts_calls s t) \<Longrightarrow> create_timer alloc t f w iv s = Inr s' \<Longrightarrow> timer_step alloc clk acts loop s s'"
| t_hand: "ts_calls s t = Created a \<Longrightarrow> hand_timer clk loop t a s = Inr s' \<Longrightarrow> timer_step alloc clk acts loop s s'"
| t_return: "ts_calls s t = Handed a \<Longrightarrow> return_id t a s = Inr s' \<Longrightarrow> timer_step alloc clk acts loop s s'"
| t_cancel: "\<not> in_call (ts_calls s t) \<Longrightarrow> timers_cancel clk loop t i s = Inr s' \<Longrightarrow> timer_step alloc clk acts loop s s'"
| t_run: "\<not> in_call (ts_calls s loop) \<Longrightarrow> ts_functors s = task # tasks \<Longrightarrow>
    run_timer_task clk task (ts_timers s) = Inr q \<Longrightarrow>
    timer_step alloc clk acts loop s (s\<lparr>ts_timers := q, ts_functors := tasks\<rparr>)"
| t_fire: "\<not> in_call (ts_calls s loop) \<Longrightarrow> timers_handleRead alloc clk acts (ts_timers s) = Inr q \<Longrightarrow>
    timer_step alloc clk acts loop s (s\<lparr>ts_timers := q\<rparr>)"

section \<open>The invariant\<close>

text \<open>The timers on their way to the loop: made, or in a functor. Each is on its way once.\<close>

fun adds :: "timer_task list \<Rightarrow> nat list" where
  "adds [] = []"
| "adds (AddTask a # ts) = a # adds ts"
| "adds (CancelTask i # ts) = adds ts"

fun made :: "add_call \<Rightarrow> nat option" where
  "made (Created a) = Some a"
| "made _ = None"

definition created :: "(nat \<Rightarrow> add_call) \<Rightarrow> nat set" where
  "created calls = {a. \<exists>t. made (calls t) = Some a}"

definition handover_ok :: "timer_task list \<Rightarrow> (nat \<Rightarrow> add_call) \<Rightarrow> bool" where
  "handover_ok tasks calls \<longleftrightarrow> distinct (adds tasks) \<and> set (adds tasks) \<inter> created calls = {} \<and>
     (\<forall>t u a. made (calls t) = Some a \<longrightarrow> made (calls u) = Some a \<longrightarrow> t = u)"

definition shared_ok :: "nat \<Rightarrow> 'f timer_sys \<Rightarrow> bool" where
  "shared_ok loop s \<longleftrightarrow> tq_inv (set (adds (ts_functors s)) \<union> created (ts_calls s)) (ts_timers s) \<and>
     armed_for UNIV (ts_timers s) \<and> \<not> tq_calling (ts_timers s) \<and> handover_ok (ts_functors s) (ts_calls s) \<and>
     (\<forall>a. ts_calls s loop = Handed a \<longrightarrow> tq_heap (ts_timers s) a \<noteq> None)"

lemma adds_append [simp]: "adds (ts @ us) = adds ts @ adds us"
  by (induction ts rule: adds.induct) auto

lemma adds_AddTask: "a \<in> set (adds ts) \<longleftrightarrow> AddTask a \<in> set ts"
  by (induction ts rule: adds.induct) auto

lemma made_Some [simp]: "made c = Some a \<longleftrightarrow> c = Created a"
  by (cases c) auto

lemma made_done: "\<not> in_call c \<Longrightarrow> made c = None"
  by (cases c) auto

lemma shared_okD:
  assumes "shared_ok loop s"
  shows "tq_inv (set (adds (ts_functors s)) \<union> created (ts_calls s)) (ts_timers s)" "armed_for UNIV (ts_timers s)"
    "\<not> tq_calling (ts_timers s)" "handover_ok (ts_functors s) (ts_calls s)"
    "ts_calls s loop = Handed a \<Longrightarrow> tq_heap (ts_timers s) a \<noteq> None"
  using assms by (simp_all add: shared_ok_def)

text \<open>What a thread does in its own call.\<close>

lemma created_keep:
  assumes "made c = made (calls t)"
  shows "created (calls(t := c)) = created calls" "handover_ok tasks (calls(t := c)) = handover_ok tasks calls"
proof -
  have same: "made ((calls(t := c)) u) = made (calls u)" for u using assms by simp
  then show "created (calls(t := c)) = created calls" by (simp only: created_def)
  with same show "handover_ok tasks (calls(t := c)) = handover_ok tasks calls" by (simp only: handover_ok_def)
qed

lemma created_new:
  assumes "made (calls t) = None"
  shows "created (calls(t := Created a)) = insert a (created calls)"
proof (rule set_eqI)
  fix b
  have "(\<exists>u. made ((calls(t := Created a)) u) = Some b) \<longleftrightarrow> b = a \<or> (\<exists>u. made (calls u) = Some b)"
  proof (cases "\<exists>u. made (calls u) = Some b")
    case True
    then obtain u where u: "made (calls u) = Some b" by blast
    with assms have "u \<noteq> t" by auto
    with u have "made ((calls(t := Created a)) u) = Some b" by simp
    with u show ?thesis by blast
  next
    case False
    then show ?thesis by (auto split: if_splits)
  qed
  then show "b \<in> created (calls(t := Created a)) \<longleftrightarrow> b \<in> insert a (created calls)"
    by (simp only: created_def mem_Collect_eq insert_iff)
qed

lemma handover_create:
  assumes "handover_ok tasks calls" "made (calls t) = None" "a \<notin> set (adds tasks) \<union> created calls"
  shows "handover_ok tasks (calls(t := Created a))"
proof -
  have "u = v" if "made ((calls(t := Created a)) u) = Some b" "made ((calls(t := Created a)) v) = Some b" for u v b
    using that assms(1,3) by (auto simp: handover_ok_def created_def split: if_splits)
  then show ?thesis
    using assms(1,3) unfolding handover_ok_def created_new [where calls = calls and t = t, OF assms(2)] by blast
qed

lemma handover_leave:
  assumes "handover_ok tasks calls" "calls t = Created a" "made c = None"
  shows "created (calls(t := c)) = created calls - {a}" "handover_ok tasks (calls(t := c))"
    "handover_ok (tasks @ [AddTask a]) (calls(t := c))"
proof -
  have other: "made ((calls(t := c)) u) = Some b \<longleftrightarrow> u \<noteq> t \<and> made (calls u) = Some b" for u b
    using assms(3) by (cases "u = t") simp_all
  have inj: "u = v" if "made (calls u) = Some b" "made (calls v) = Some b" for u v b
    using assms(1) that unfolding handover_ok_def by blast
  have t: "made (calls t) = Some a" using assms(2) by simp
  show left: "created (calls(t := c)) = created calls - {a}"
  proof (rule set_eqI)
    fix b
    have "(\<exists>u. u \<noteq> t \<and> made (calls u) = Some b) \<longleftrightarrow> (\<exists>u. made (calls u) = Some b) \<and> b \<noteq> a"
      using inj t by (metis option.inject)
    then show "b \<in> created (calls(t := c)) \<longleftrightarrow> b \<in> created calls - {a}"
      unfolding created_def mem_Collect_eq other by simp
  qed
  have a: "a \<in> created calls" using t unfolding created_def by blast
  then show "handover_ok tasks (calls(t := c))" "handover_ok (tasks @ [AddTask a]) (calls(t := c))"
    using assms(1) inj unfolding handover_ok_def left other by auto
qed

lemma handover_tasks:
  "handover_ok (tasks @ [CancelTask i]) calls = handover_ok tasks calls"
  "handover_ok (CancelTask i # tasks) calls = handover_ok tasks calls"
  "handover_ok (AddTask a # tasks) calls \<Longrightarrow> handover_ok tasks calls \<and> a \<notin> set (adds tasks) \<union> created calls"
  by (auto simp: handover_ok_def)

section \<open>Every step keeps the invariant\<close>

text \<open>An operation of the loop on its queue.\<close>

lemma queue_op_ok:
  assumes "tq_keeps out UNIV q q'" "armed_for UNIV q" "\<not> tq_calling q"
  shows "tq_inv out q'" "armed_for UNIV q'" "\<not> tq_calling q'"
  using assms by (simp_all add: tq_keeps_def)

lemma create_ok:
  assumes ok: "shared_ok loop s" and alloc: "alloc_ok alloc" and idle: "\<not> in_call (ts_calls s t)"
    and run: "create_timer alloc t f w iv s = Inr s'"
  shows "shared_ok loop s'"
proof -
  let ?q = "ts_timers s" and ?out = "set (adds (ts_functors s)) \<union> created (ts_calls s)"
  obtain timer n where tn: "new_timer f w iv (tq_created ?q) = (timer, n)" by fastforce
  from run obtain a where a: "alloc (tq_heap ?q) = Some a" by (auto simp: create_timer_def split: option.splits)
  with alloc have fresh: "tq_heap ?q a = None" "a < UINTPTR_MAX" by (auto simp: alloc_ok_def)
  let ?q' = "?q\<lparr>tq_heap := (tq_heap ?q)(a \<mapsto> timer), tq_created := n\<rparr>"
  have s': "s' = s\<lparr>ts_timers := ?q', ts_calls := (ts_calls s)(t := Created a)\<rparr>"
    using run a tn by (simp add: create_timer_def Let_def)
  note new = new_timer_inv [OF shared_okD(1) [OF ok] fresh tn]
  note made = made_done [OF idle]
  have "tq_inv (set (adds (ts_functors s)) \<union> created ((ts_calls s)(t := Created a))) ?q'"
    using new(2) by (simp add: created_new [where calls = "ts_calls s", OF made])
  moreover have "handover_ok (ts_functors s) ((ts_calls s)(t := Created a))"
    by (rule handover_create [OF shared_okD(4) [OF ok] made new(1)])
  moreover have "tq_heap ?q' b \<noteq> None" if "((ts_calls s)(t := Created a)) loop = Handed b" for b
    using that shared_okD(5) [OF ok, of b] by (auto split: if_splits)
  moreover have "armed_for UNIV ?q'" using shared_okD(2) [OF ok] by (simp add: armed_for_def)
  ultimately show ?thesis using shared_okD(3) [OF ok] by (simp add: s' shared_ok_def)
qed

lemma hand_ok:
  assumes ok: "shared_ok loop s" and call: "ts_calls s t = Created a"
    and run: "hand_timer clk loop t a s = Inr s'"
  shows "shared_ok loop s'"
proof -
  let ?q = "ts_timers s" and ?out = "set (adds (ts_functors s)) \<union> created (ts_calls s)"
    and ?calls = "(ts_calls s)(t := Handed a)"
  note leave = handover_leave [where c = "Handed a", OF shared_okD(4) [OF ok] call made.simps(3)]
  have "a \<in> created (ts_calls s)" using call by (auto simp: created_def)
  moreover from this have "a \<notin> set (adds (ts_functors s))" using shared_okD(4) [OF ok] by (auto simp: handover_ok_def)
  ultimately have a: "a \<in> ?out" "?out - {a} = set (adds (ts_functors s)) \<union> created ?calls"
      "?out = set (adds (ts_functors s @ [AddTask a])) \<union> created ?calls"
    unfolding leave(1) by auto
  have live: "tq_heap ?q a \<noteq> None" using shared_okD(1) [OF ok] a(1) by (auto simp: tq_inv_def)
  show ?thesis
  proof (cases "t = loop")
    case True
    with run obtain q where q: "addTimerInLoop clk a ?q = Inr q" "s' = s\<lparr>ts_timers := q, ts_calls := ?calls\<rparr>"
      by (auto simp: hand_timer_def timers_runInLoop_def bind_res_eq_Inr_iff)
    have k: "tq_keeps (?out - {a}) UNIV ?q q" "tq_heap q = tq_heap ?q"
      using addTimerInLoop_ok [OF shared_okD(1) [OF ok] a(1) down_closed_simps(1), of clk] q(1) by simp_all
    note op = queue_op_ok [OF k(1) shared_okD(2,3) [OF ok]]
    have "tq_heap q b \<noteq> None" if "?calls loop = Handed b" for b using that True live k(2) by simp
    with op leave(2) a(2) show ?thesis by (simp add: q(2) shared_ok_def)
  next
    case False
    with run have s': "s' = s\<lparr>ts_functors := ts_functors s @ [AddTask a], ts_calls := ?calls\<rparr>"
      by (simp add: hand_timer_def timers_runInLoop_def)
    have "tq_inv (set (adds (ts_functors s @ [AddTask a])) \<union> created ?calls) ?q"
      using shared_okD(1) [OF ok] unfolding a(3) .
    with False leave(3) shared_okD(2,3,5) [OF ok] show ?thesis by (simp add: s' shared_ok_def)
  qed
qed

lemma return_ok:
  assumes ok: "shared_ok loop s" and call: "ts_calls s t = Handed a" and run: "return_id t a s = Inr s'"
  shows "shared_ok loop s'"
proof -
  from run obtain timer where "deref (ts_timers s) a = Inr timer" by (auto simp: return_id_def bind_res_eq_Inr_iff)
  with run have s': "s' = s\<lparr>ts_calls := (ts_calls s)(t := Returned \<lparr>tid_timer = a, tid_sequence = tm_sequence timer\<rparr>)\<rparr>"
    by (simp add: return_id_def)
  let ?c = "Returned \<lparr>tid_timer = a, tid_sequence = tm_sequence timer\<rparr>"
  have "made ?c = made (ts_calls s t)" by (simp add: call)
  note keep = created_keep [where calls = "ts_calls s" and t = t, OF this]
  show ?thesis using ok by (auto simp: s' shared_ok_def keep split: if_splits)
qed

lemma run_timer_task_ok:
  assumes ok: "shared_ok loop s" and head: "ts_functors s = task # tasks"
  shows "tq_ok (\<lambda>q. tq_keeps (set (adds tasks) \<union> created (ts_calls s)) UNIV (ts_timers s) q)
    (run_timer_task clk task (ts_timers s))"
proof (cases task)
  case (AddTask a)
  have "a \<notin> set (adds tasks) \<union> created (ts_calls s)"
    using shared_okD(4) [OF ok] handover_tasks(3) [of a tasks "ts_calls s"] head AddTask by simp
  moreover have inv: "tq_inv (insert a (set (adds tasks) \<union> created (ts_calls s))) (ts_timers s)"
    using shared_okD(1) [OF ok] head AddTask by simp
  ultimately show ?thesis
    using addTimerInLoop_ok [OF inv insertI1 down_closed_simps(1), of clk] AddTask
    by (auto elim!: res_ok_weaken)
next
  case (CancelTask i)
  then show ?thesis using cancelInLoop_ok [where X = UNIV] shared_okD(1) [OF ok] head by simp
qed

lemma cancel_ok:
  assumes ok: "shared_ok loop s" and run: "timers_cancel clk loop t i s = Inr s'"
    and idle: "\<not> in_call (ts_calls s t)"
  shows "shared_ok loop s'"
proof (cases "t = loop")
  case True
  with run obtain q where q: "cancelInLoop i (ts_timers s) = Inr q" "s' = s\<lparr>ts_timers := q\<rparr>"
    by (auto simp: timers_cancel_def timers_runInLoop_def bind_res_eq_Inr_iff)
  have "tq_keeps (set (adds (ts_functors s)) \<union> created (ts_calls s)) UNIV (ts_timers s) q"
    using cancelInLoop_ok [where X = UNIV, OF shared_okD(1) [OF ok], of i] q(1) by simp
  note op = queue_op_ok [OF this shared_okD(2,3) [OF ok]]
  from idle True have "ts_calls s loop \<noteq> Handed b" for b by auto
  with op shared_okD(4) [OF ok] show ?thesis by (simp add: q(2) shared_ok_def)
next
  case False
  with run have "s' = s\<lparr>ts_functors := ts_functors s @ [CancelTask i]\<rparr>"
    by (simp add: timers_cancel_def timers_runInLoop_def)
  with ok show ?thesis by (simp add: shared_ok_def handover_tasks)
qed

lemma fire_ok:
  assumes ok: "shared_ok loop s" and env: "alloc_ok alloc" "\<And>n. 0 < clk n"
  shows "tq_ok (\<lambda>q. tq_inv (set (adds (ts_functors s)) \<union> created (ts_calls s)) q \<and> armed_for UNIV q \<and> \<not> tq_calling q)
    (timers_handleRead alloc clk acts (ts_timers s))"
  using timers_handleRead_ok [where clk = clk and acts = acts, OF env(1) shared_okD(1) [OF ok] env(2)]
  by (auto simp: round_post_def elim!: res_ok_weaken)

lemma timer_step_ok:
  assumes env: "alloc_ok alloc" "\<And>n. 0 < clk n"
  shows "timer_step alloc clk acts loop s s' \<Longrightarrow> shared_ok loop s \<Longrightarrow> shared_ok loop s'"
proof (induction rule: timer_step.induct)
  case (t_create s t f w iv s')
  then show ?case using create_ok [OF _ env(1)] by blast
next
  case (t_hand s t a s')
  then show ?case using hand_ok by blast
next
  case (t_return s t a s')
  then show ?case using return_ok by blast
next
  case (t_cancel s t i s')
  then show ?case using cancel_ok by blast
next
  case (t_run s task tasks q)
  have "tq_keeps (set (adds tasks) \<union> created (ts_calls s)) UNIV (ts_timers s) q"
    using run_timer_task_ok [OF t_run(4,2), of clk] t_run(3) by simp
  note op = queue_op_ok [OF this shared_okD(2,3) [OF t_run(4)]]
  have "handover_ok tasks (ts_calls s)"
    using shared_okD(4) [OF t_run(4)] handover_tasks(2,3) t_run(2) by (cases task) auto
  moreover have "ts_calls s loop \<noteq> Handed b" for b using t_run(1) by auto
  ultimately show ?case using op by (simp add: shared_ok_def)
next
  case (t_fire s q)
  have "ts_calls s loop \<noteq> Handed b" for b using t_fire(1) by auto
  with fire_ok [where clk = clk and acts = acts, OF t_fire(3) env] t_fire(2) shared_okD(4) [OF t_fire(3)]
  show ?case by (simp add: shared_ok_def)
qed

lemma new_timer_sys_ok: "shared_ok loop new_timer_sys"
  using new_timer_queue_ready
  by (simp add: shared_ok_def new_timer_sys_def tq_ready_def handover_ok_def created_def)

lemma timer_steps_ok:
  assumes "alloc_ok alloc" "\<And>n. 0 < clk n" "(timer_step alloc clk acts loop)\<^sup>*\<^sup>* new_timer_sys s"
  shows "shared_ok loop s"
  using assms(3) by (induction rule: rtranclp_induct) (auto intro: new_timer_sys_ok timer_step_ok [where clk = clk, OF assms(1,2)])

text \<open>A cancellation in the loop always succeeds, and the timer it names is not active any more.\<close>

lemma cancel_takes_effect:
  assumes "tq_inv out q"
  shows "\<exists>q'. cancelInLoop i q = Inr q' \<and> (tid_timer i, tid_sequence i) \<notin> tq_active q'"
proof (cases "(tid_timer i, tid_sequence i) \<in> tq_active q")
  case True
  then obtain t where "tq_heap q (tid_timer i) = Some t" using assms by (auto simp: tq_inv_def)
  with True show ?thesis by (simp add: cancelInLoop_def deref_def delete_timer_def)
next
  case False
  then show ?thesis by (simp add: cancelInLoop_def)
qed

section \<open>Properties\<close>

text \<open>C22. Timers can be added and cancelled from any thread, up to one read: in every interleaving of the
  loop with any number of threads that add timers and cancel any identifiers, while the callbacks do the
  same, every timer that is allocated is either in the queue of the loop or on its way there with exactly
  one thread or functor, so nothing is lost, freed twice or leaked; the descriptor is armed for the first
  timer. Running a functor and firing fail only with an overflow of the time or the exhaustion of memory, a
  functor that cancels never fails and leaves the timer inactive, and reading the sequence number at the
  end of \<open>addTimer\<close> is safe in the thread of the loop, and in other threads as long as the loop has not
  run the functor.\<close>

theorem shared_timers_safe:
  assumes "alloc_ok alloc" "\<And>n. 0 < clk n" "(timer_step alloc clk acts loop)\<^sup>*\<^sup>* new_timer_sys s"
  shows "let q = ts_timers s; tasks = ts_functors s; calls = ts_calls s in
    (\<forall>a. tq_heap q a \<noteq> None \<longleftrightarrow>
       a \<in> snd ` set (tq_timers q) \<or> AddTask a \<in> set tasks \<or> (\<exists>t. calls t = Created a)) \<and>
    (\<forall>a t. AddTask a \<in> set tasks \<or> calls t = Created a \<longrightarrow> a \<notin> snd ` set (tq_timers q)) \<and>
    (\<forall>a t u. calls t = Created a \<longrightarrow> AddTask a \<notin> set tasks \<and> (calls u = Created a \<longrightarrow> t = u)) \<and>
    (tq_timers q \<noteq> [] \<longrightarrow> (\<exists>w d. tq_armed q = Some (w, d) \<and> w \<le> fst (hd (tq_timers q)))) \<and>
    (\<forall>task rest e. tasks = task # rest \<longrightarrow> run_timer_task clk task q = Inl e \<longrightarrow> e \<in> {IntOverflow, BadAlloc}) \<and>
    (\<forall>e. timers_handleRead alloc clk acts q = Inl e \<longrightarrow> e \<in> {IntOverflow, BadAlloc}) \<and>
    (\<forall>i. \<exists>q'. cancelInLoop i q = Inr q' \<and> (tid_timer i, tid_sequence i) \<notin> tq_active q') \<and>
    (\<forall>t a. calls t = Handed a \<longrightarrow> t = loop \<or> AddTask a \<in> set tasks \<longrightarrow> (\<exists>s'. return_id t a s = Inr s'))"
proof -
  let ?q = "ts_timers s" and ?out = "set (adds (ts_functors s)) \<union> created (ts_calls s)"
  have ok: "shared_ok loop s" by (rule timer_steps_ok [where clk = clk, OF assms])
  note inv = shared_okD(1) [OF ok]
  have out: "a \<in> ?out \<longleftrightarrow> AddTask a \<in> set (ts_functors s) \<or> (\<exists>t. ts_calls s t = Created a)" for a
    by (simp add: adds_AddTask created_def)
  have T: "(w, a) \<in> set (tq_timers ?q) \<longleftrightarrow> (\<exists>t. tq_heap ?q a = Some t \<and> a \<notin> ?out \<and> w = tm_expiration t)" for w a
    using inv unfolding tq_inv_def by blast
  have queued: "a \<in> snd ` set (tq_timers ?q) \<longleftrightarrow> tq_heap ?q a \<noteq> None \<and> a \<notin> ?out" for a
  proof
    assume "a \<in> snd ` set (tq_timers ?q)"
    then obtain w where "(w, a) \<in> set (tq_timers ?q)" by auto
    then show "tq_heap ?q a \<noteq> None \<and> a \<notin> ?out" unfolding T by blast
  next
    assume "tq_heap ?q a \<noteq> None \<and> a \<notin> ?out"
    then obtain w where "(w, a) \<in> set (tq_timers ?q)" unfolding T by blast
    then show "a \<in> snd ` set (tq_timers ?q)" by force
  qed
  have dom: "?out \<subseteq> dom (tq_heap ?q)" using inv by (simp add: tq_inv_def)
  have hand: "handover_ok (ts_functors s) (ts_calls s)" by (rule shared_okD(4) [OF ok])
  have "tq_heap ?q a \<noteq> None \<longleftrightarrow> a \<in> snd ` set (tq_timers ?q) \<or> AddTask a \<in> set (ts_functors s) \<or>
      (\<exists>t. ts_calls s t = Created a)" for a
    using queued [of a] dom out [of a] by blast
  moreover have "a \<notin> snd ` set (tq_timers ?q)" if "AddTask a \<in> set (ts_functors s) \<or> ts_calls s t = Created a" for a t
    using queued [of a] out [of a] that by blast
  moreover have "AddTask a \<notin> set (ts_functors s) \<and> (ts_calls s u = Created a \<longrightarrow> t = u)" if "ts_calls s t = Created a" for a t u
    using hand that unfolding handover_ok_def by (auto simp: created_def adds_AddTask [symmetric])
  moreover have "\<exists>w d. tq_armed ?q = Some (w, d) \<and> w \<le> fst (hd (tq_timers ?q))" if "tq_timers ?q \<noteq> []"
    using armed_forD [OF shared_okD(2) [OF ok], of "hd (tq_timers ?q)"] that by simp
  moreover have "e \<in> {IntOverflow, BadAlloc}"
    if "ts_functors s = task # rest" "run_timer_task clk task ?q = Inl e" for task rest e
    using run_timer_task_ok [OF ok that(1), of clk] that(2) by simp
  moreover have "e \<in> {IntOverflow, BadAlloc}" if "timers_handleRead alloc clk acts ?q = Inl e" for e
    using fire_ok [where clk = clk and acts = acts, OF ok assms(1,2)] that by simp
  moreover have "\<exists>s'. return_id t a s = Inr s'"
    if "ts_calls s t = Handed a" "t = loop \<or> AddTask a \<in> set (ts_functors s)" for t a
  proof -
    have "tq_heap ?q a \<noteq> None" using that shared_okD(5) [OF ok, of a] dom out [of a] by blast
    then show ?thesis by (auto simp: return_id_def deref_def)
  qed
  ultimately show ?thesis using cancel_takes_effect [OF inv] unfolding Let_def by blast
qed

text \<open>An example of a run: a thread adds a timer that is due, the loop takes it over and fires it, before the
  thread has read its sequence number.\<close>

definition once :: "64 word \<Rightarrow> string timer" where
  "once n = \<lparr>tm_callback = ''once'', tm_expiration = 10, tm_interval = whole 0, tm_repeat = False, tm_sequence = n\<rparr>"

lemma early_firing:
  "\<exists>s2 s3. (timer_step (first_fit 100) (\<lambda>n. 50) (\<lambda>f. []) 0)\<^sup>*\<^sup>* new_timer_sys s2 \<and>
     ts_functors s2 = [AddTask 1] \<and> ts_calls s2 5 = Handed 1 \<and>
     (timer_step (first_fit 100) (\<lambda>n. 50) (\<lambda>f. []) 0)\<^sup>*\<^sup>* s2 s3 \<and> ts_calls s3 5 = Handed 1 \<and>
     tq_heap (ts_timers s3) 1 = None \<and> tq_fired (ts_timers s3) = [''once'']"
proof -
  let ?clk = "\<lambda>n :: nat. 50 :: int" and ?step = "timer_step (first_fit 100) (\<lambda>n. 50) (\<lambda>f :: string. []) 0"
  let ?q1 = "new_timer_queue\<lparr>tq_heap := [1 \<mapsto> once 1], tq_created := 1\<rparr>"
  let ?s1 = "new_timer_sys\<lparr>ts_timers := ?q1, ts_calls := (\<lambda>_. NoCall)(5 := Created 1)\<rparr>"
  let ?s2 = "new_timer_sys\<lparr>ts_timers := ?q1, ts_functors := [AddTask 1], ts_calls := (\<lambda>_. NoCall)(5 := Handed 1)\<rparr>"
  let ?q2 = "?q1\<lparr>tq_timers := [(10, 1)], tq_active := {(1, 1)}, tq_reads := 1, tq_armed := Some (10, 0, 100000)\<rparr>"
  let ?s3 = "?s2\<lparr>ts_timers := ?q2, ts_functors := []\<rparr>"
  let ?q3 = "?q2\<lparr>tq_timers := [], tq_active := {}, tq_heap := Map.empty, tq_armed := None, tq_reads := 2, tq_fired := [''once'']\<rparr>"
  let ?s4 = "?s3\<lparr>ts_timers := ?q3\<rparr>"
  have create: "create_timer (first_fit 100) 5 ''once'' 10 (whole 0) new_timer_sys = Inr ?s1"
    by (simp add: create_timer_def new_timer_sys_def new_timer_queue_def first_fit_def upt_conv_Cons new_timer_def once_def
        whole_def double_pos_def)
  have hand: "hand_timer ?clk 0 5 1 ?s1 = Inr ?s2"
    by (simp add: hand_timer_def timers_runInLoop_def new_timer_sys_def)
  have run: "run_timer_task ?clk (AddTask 1) ?q1 = Inr ?q2"
    by (simp add: addTimerInLoop_def timer_insert_def deref_def sset_insert_def resetTimerfd_def once_def new_timer_queue_def
        read_clock_def howMuchTimeFromNow_def now_time_def int64_def kMicroSecondsPerSecond_def)
  have fire: "timers_handleRead (first_fit 100) ?clk (\<lambda>f. []) ?q2 = Inr ?q3"
    by (simp add: timers_handleRead_def read_clock_def getExpired_def now_time_def UINTPTR_MAX_def once_def new_timer_queue_def
        deref_def reset_timers_def delete_timer_def invalid_time_def valid_time_def)
  have step1: "?step new_timer_sys ?s1" by (rule timer_step.t_create [OF _ create]) (simp add: new_timer_sys_def)
  have step2: "?step ?s1 ?s2" by (rule timer_step.t_hand [OF _ hand]) simp
  have "?step ?s2 (?s2\<lparr>ts_timers := ?q2, ts_functors := []\<rparr>)"
    by (rule timer_step.t_run [where task = "AddTask 1"]) (use run in \<open>simp_all add: new_timer_sys_def\<close>)
  moreover have "?step ?s3 (?s3\<lparr>ts_timers := ?q3\<rparr>)"
    by (rule timer_step.t_fire) (use fire in \<open>simp_all add: new_timer_sys_def\<close>)
  ultimately have "?step\<^sup>*\<^sup>* ?s2 ?s4" by (rule converse_rtranclp_into_rtranclp [OF _ r_into_rtranclp])
  moreover have "?step\<^sup>*\<^sup>* new_timer_sys ?s2"
    by (rule converse_rtranclp_into_rtranclp [where r = ?step, OF step1]) (rule r_into_rtranclp, rule step2)
  moreover have "ts_functors ?s2 = [AddTask 1]" "ts_calls ?s2 5 = Handed 1" "ts_calls ?s4 5 = Handed 1"
      "tq_heap (ts_timers ?s4) 1 = None" "tq_fired (ts_timers ?s4) = [''once'']"
    by simp_all
  ultimately show ?thesis by blast
qed

theorem shared_timers_safe_witness:
  "\<exists>s :: string timer_sys. ts_calls s 5 = Handed 1 \<and> (\<exists>s'. return_id 5 1 s = Inr s') \<and>
     (\<forall>e. timers_handleRead (first_fit 100) (\<lambda>n. 50) (\<lambda>f. []) (ts_timers s) = Inl e \<longrightarrow> e \<in> {IntOverflow, BadAlloc})"
proof -
  obtain s where s: "(timer_step (first_fit 100) (\<lambda>n. 50) (\<lambda>f. []) 0)\<^sup>*\<^sup>* new_timer_sys (s :: string timer_sys)"
      "ts_functors s = [AddTask 1]" "ts_calls s 5 = Handed 1"
    using early_firing by blast
  from shared_timers_safe [OF first_fit_ok [OF UINTPTR_MAX_large] _ s(1)] s(2,3) show ?thesis
    unfolding Let_def by auto
qed

text \<open>The read of the sequence number can come too late: the loop may have freed the timer by then.\<close>

theorem sequence_read_too_late:
  "\<exists>s :: string timer_sys. (timer_step (first_fit 100) (\<lambda>n. 50) (\<lambda>f. []) 0)\<^sup>*\<^sup>* new_timer_sys s \<and>
     ts_calls s 5 = Handed 1 \<and> return_id 5 1 s = Inl UseAfterFree"
proof -
  obtain s2 s3 where "(timer_step (first_fit 100) (\<lambda>n. 50) (\<lambda>f. []) 0)\<^sup>*\<^sup>* new_timer_sys (s2 :: string timer_sys)"
      "(timer_step (first_fit 100) (\<lambda>n. 50) (\<lambda>f. []) 0)\<^sup>*\<^sup>* s2 s3" "ts_calls s3 5 = Handed 1" "tq_heap (ts_timers s3) 1 = None"
    using early_firing by blast
  then show ?thesis by (intro exI [of _ s3]) (simp add: return_id_def deref_def)
qed

end
