(* ===== verification/EventLoop.thy ===== *)
theory EventLoop
  imports TimerQueue
begin

text \<open>
  \<open>mymuduo/net/EventLoop.h\<close>, \<open>EventLoop.cpp\<close>, \<open>DefaultPoller.cpp\<close> and
  \<open>mymuduo/utils/CurrentThread.h\<close>: the queue of functors of a loop, its wake-up descriptor and the
  control flow of \<open>loop()\<close>, first as operations, then as a step relation in which other threads
  interleave with the loop thread at every lock and system call.
\<close>

section \<open>The loop and its operations\<close>

definition kPollTimeMs :: int where "kPollTimeMs = 10000"

text \<open>
  Where the loop thread is: before \<open>loop()\<close>, at the test of the \<open>while\<close>, in \<open>poll\<close>, in the handlers
  of the active channels, in \<open>doPendingFunctors\<close> with the functors still to run, or after \<open>loop()\<close>.
\<close>

datatype 'f loop_pc = NotStarted | AtTest | Polling | Handling | Running "'f list" | Stopped

text \<open>
  \<open>el_wakeup\<close> is the counter of the event descriptor; \<open>el_waking\<close> counts the other threads that have
  queued a functor (or asked to quit) and not yet written to it. \<open>el_done\<close> and \<open>el_log\<close> record the
  functors run and the functors queued, in order.
\<close>

record 'f event_loop =
  el_looping :: bool
  el_quit :: bool
  el_threadId :: int
  el_calling :: bool
  el_pending :: "'f list"
  el_wakeup :: nat
  el_waking :: nat
  el_pc :: "'f loop_pc"
  el_done :: "'f list"
  el_log :: "'f list"

definition new_event_loop :: "int \<Rightarrow> 'f event_loop" where
  "new_event_loop tid = \<lparr>el_looping = False, el_quit = False, el_threadId = tid, el_calling = False,
     el_pending = [], el_wakeup = 0, el_waking = 0, el_pc = NotStarted, el_done = [], el_log = []\<rparr>"

text \<open>\<open>CurrentThread::tid\<close> caches the result of \<open>gettid\<close>, which is never 0.\<close>

definition cacheTid :: "int \<Rightarrow> int \<Rightarrow> int" where
  "cacheTid gettid cached = (if cached = 0 then gettid else cached)"

definition tid :: "int \<Rightarrow> int \<Rightarrow> int \<times> int" where
  "tid gettid cached = (let c = (if cached = 0 then cacheTid gettid cached else cached) in (c, c))"

definition isInLoopThread :: "int \<Rightarrow> 'f event_loop \<Rightarrow> bool" where
  "isInLoopThread t l \<longleftrightarrow> el_threadId l = t"

text \<open>
  Writing 1 to the event descriptor adds 1 to its counter, unless the counter is at its maximum, when
  the write fails; reading resets it, and fails when it is 0.
\<close>

definition eventfd_max :: nat where "eventfd_max = 2 ^ 64 - 2"

definition wakeup :: "'f event_loop \<Rightarrow> 'f event_loop" where
  "wakeup l = (if el_wakeup l < eventfd_max then l\<lparr>el_wakeup := el_wakeup l + 1\<rparr> else l)"

definition loop_handleRead :: "'f event_loop \<Rightarrow> 'f event_loop" where
  "loop_handleRead l = l\<lparr>el_wakeup := 0\<rparr>"

text \<open>The locked part of \<open>queueInLoop\<close>, and the whole of it.\<close>

definition push_functor :: "'f \<Rightarrow> 'f event_loop \<Rightarrow> 'f event_loop" where
  "push_functor cb l = l\<lparr>el_pending := el_pending l @ [cb], el_log := el_log l @ [cb]\<rparr>"

definition loop_queueInLoop :: "int \<Rightarrow> 'f \<Rightarrow> 'f event_loop \<Rightarrow> 'f event_loop" where
  "loop_queueInLoop t cb l =
     (let l1 = push_functor cb l
      in if \<not> isInLoopThread t l1 \<or> el_calling l1 then wakeup l1 else l1)"

definition loop_runInLoop ::
    "('f \<Rightarrow> 'f event_loop \<Rightarrow> 'f event_loop) \<Rightarrow> int \<Rightarrow> 'f \<Rightarrow> 'f event_loop \<Rightarrow> 'f event_loop" where
  "loop_runInLoop run t cb l = (if isInLoopThread t l then run cb l else loop_queueInLoop t cb l)"

definition quit :: "int \<Rightarrow> 'f event_loop \<Rightarrow> 'f event_loop" where
  "quit t l =
     (let l1 = l\<lparr>el_quit := True\<rparr> in if \<not> isInLoopThread t l1 then wakeup l1 else l1)"

text \<open>\<open>doPendingFunctors\<close> in the loop thread; running a functor may queue others.\<close>

definition swap_pending :: "'f event_loop \<Rightarrow> 'f list \<times> 'f event_loop" where
  "swap_pending l = (el_pending l, l\<lparr>el_pending := []\<rparr>)"

fun run_functors :: "('f \<Rightarrow> 'f event_loop \<Rightarrow> 'f event_loop) \<Rightarrow> 'f list \<Rightarrow> 'f event_loop \<Rightarrow> 'f event_loop" where
  "run_functors run [] l = l"
| "run_functors run (f # fs) l = run_functors run fs (run f (l\<lparr>el_done := el_done l @ [f]\<rparr>))"

definition doPendingFunctors ::
    "('f \<Rightarrow> 'f event_loop \<Rightarrow> 'f event_loop) \<Rightarrow> 'f event_loop \<Rightarrow> 'f event_loop" where
  "doPendingFunctors run l =
     (let (functors, l1) = swap_pending (l\<lparr>el_calling := True\<rparr>)
      in (run_functors run functors l1)\<lparr>el_calling := False\<rparr>)"

section \<open>Timers of a loop\<close>

text \<open>
  \<open>timerQueue_\<close> is a pointer that the constructor does not set: \<open>new_loop_timers\<close> is what it leaves.
\<close>

definition new_loop_timers :: "'f timer_queue option" where
  "new_loop_timers = None"

definition loop_addTimer :: "((nat \<rightharpoonup> 'f timer) \<Rightarrow> nat option) \<Rightarrow> (nat \<Rightarrow> int) \<Rightarrow> 'f \<Rightarrow> timestamp \<Rightarrow> double \<Rightarrow>
    'f timer_queue option \<Rightarrow> (timer_id \<times> 'f timer_queue option) res" where
  "loop_addTimer alloc clk cb time interval timerQueue =
     (case timerQueue of
        None \<Rightarrow> Inl NullDeref
      | Some q \<Rightarrow> bind_res (addTimer alloc clk cb time interval q) (\<lambda>(i, q'). Inr (i, Some q')))"

definition runAt :: "((nat \<rightharpoonup> 'f timer) \<Rightarrow> nat option) \<Rightarrow> (nat \<Rightarrow> int) \<Rightarrow> timestamp \<Rightarrow> 'f \<Rightarrow>
    'f timer_queue option \<Rightarrow> (timer_id \<times> 'f timer_queue option) res" where
  "runAt alloc clk time cb timerQueue = loop_addTimer alloc clk cb time (DFinite 0 0) timerQueue"

definition runAfter :: "((nat \<rightharpoonup> 'f timer) \<Rightarrow> nat option) \<Rightarrow> (nat \<Rightarrow> int) \<Rightarrow> int \<Rightarrow> double \<Rightarrow> 'f \<Rightarrow>
    'f timer_queue option \<Rightarrow> (timer_id \<times> 'f timer_queue option) res" where
  "runAfter alloc clk unix_seconds delay cb timerQueue =
     bind_res (addTime (now_time unix_seconds) delay) (\<lambda>time. runAt alloc clk time cb timerQueue)"

definition runEvery :: "((nat \<rightharpoonup> 'f timer) \<Rightarrow> nat option) \<Rightarrow> (nat \<Rightarrow> int) \<Rightarrow> int \<Rightarrow> double \<Rightarrow> 'f \<Rightarrow>
    'f timer_queue option \<Rightarrow> (timer_id \<times> 'f timer_queue option) res" where
  "runEvery alloc clk unix_seconds interval cb timerQueue =
     bind_res (addTime (now_time unix_seconds) interval) (\<lambda>time.
       loop_addTimer alloc clk cb time interval timerQueue)"

definition cancel_timer :: "timer_id \<Rightarrow> 'f timer_queue option \<Rightarrow> 'f timer_queue option res" where
  "cancel_timer timerId timerQueue =
     (case timerQueue of
        None \<Rightarrow> Inl NullDeref
      | Some q \<Rightarrow> bind_res (cancelInLoop timerId q) (\<lambda>q'. Inr (Some q')))"

section \<open>Choosing the poller\<close>

definition newDefaultPoller :: "(string \<Rightarrow> string option) \<Rightarrow> poller option" where
  "newDefaultPoller getenv =
     (case getenv ''MUDUO_USE_POLL'' of Some s \<Rightarrow> None | None \<Rightarrow> Some new_poller)"

text \<open>The constructor of the loop enables reading on the wake-up channel.\<close>

definition construct_loop :: "(string \<Rightarrow> string option) \<Rightarrow> nat \<Rightarrow> int \<Rightarrow> (poller \<times> channel) res" where
  "construct_loop getenv ptr wakeupFd =
     (case newDefaultPoller getenv of
        None \<Rightarrow> Inl NullDeref
      | Some p \<Rightarrow> Inr (enableReading p (new_channel ptr wakeupFd)))"

definition destroy_loop :: "poller \<Rightarrow> channel \<Rightarrow> poller \<times> channel" where
  "destroy_loop p wakeupChannel = (let (p1, ch) = disableAll p wakeupChannel in remove_channel p1 ch)"

text \<open>Constructor and destructor of the timer queue, with the channel of its timer descriptor.\<close>

definition construct_timers :: "nat \<Rightarrow> int \<Rightarrow> poller \<Rightarrow> poller \<times> channel \<times> 'f timer_queue" where
  "construct_timers ptr timerfd p =
     (let (p1, ch) = enableReading p (new_channel ptr timerfd) in (p1, ch, new_timer_queue))"

definition destroy_timers ::
    "poller \<Rightarrow> channel \<Rightarrow> 'f timer_queue \<Rightarrow> (poller \<times> channel \<times> 'f timer_queue) res" where
  "destroy_timers p timerfdChannel q =
     (let (p1, ch1) = disableAll p timerfdChannel; (p2, ch2) = remove_channel p1 ch1
      in bind_res (delete_timer_queue q) (\<lambda>q'. Inr (p2, ch2, q')))"

text \<open>A channel that reads from its creation until it is destroyed.\<close>

lemma reading_lifetime:
  assumes "enableReading p (new_channel ptr fd) = (p1, ch1)" "disableAll p' ch1 = (p2, ch2)"
    "remove_channel p2 ch2 = (p3, ch3)"
  shows "pl_channels p1 = (pl_channels p)(fd \<mapsto> ptr)" "pl_calls p1 = pl_calls p @ [(EPOLL_CTL_ADD, fd, kReadEvent)]"
    "pl_channels p3 = (pl_channels p')(fd := None)" "pl_calls p3 = pl_calls p' @ [(EPOLL_CTL_DEL, fd, kNoneEvent)]"
    "ch_index ch3 = kNew"
  using assms by (auto simp: channel_ops new_channel_def updateChannel_def removeChannel_def isNoneEvent_def set_index_def
      kNoneEvent_def index_values Let_def)

text \<open>The destructor of a timer queue, after anything was done with its timers and with other channels of the
  loop, takes its descriptor out of the poller and of the kernel's set, with one call each for the whole
  life of the queue, and frees every timer that is left.\<close>

lemma timers_lifetime:
  assumes "alloc_ok alloc" "\<And>n. 0 < clk n" "construct_timers ptr fd p = (p1, ch, q0)"
    and "run_timer_ops alloc clk acts ops q0 = Inr q"
  shows "pl_channels p1 = (pl_channels p)(fd \<mapsto> ptr) \<and> pl_calls p1 = pl_calls p @ [(EPOLL_CTL_ADD, fd, kReadEvent)] \<and>
    (\<exists>p3 ch3 q'. destroy_timers p2 ch q = Inr (p3, ch3, q') \<and> tq_heap q' = Map.empty \<and> ch_index ch3 = kNew \<and>
      pl_channels p3 = (pl_channels p2)(fd := None) \<and> pl_calls p3 = pl_calls p2 @ [(EPOLL_CTL_DEL, fd, kNoneEvent)])"
proof -
  from assms(3) have c: "enableReading p (new_channel ptr fd) = (p1, ch)" "q0 = new_timer_queue"
    by (auto simp: construct_timers_def split: prod.splits)
  have "tq_ready q"
    using run_timer_ops_ok [where clk = clk and acts = acts and ops = ops, OF assms(1,2) new_timer_queue_ready] assms(4) c(2)
    by simp
  then obtain q' where q': "delete_timer_queue q = Inr q'" "tq_heap q' = Map.empty" using delete_timer_queue_ok by blast
  obtain pa ca where a: "disableAll p2 ch = (pa, ca)" by fastforce
  obtain p3 ch3 where b: "remove_channel pa ca = (p3, ch3)" by fastforce
  have "destroy_timers p2 ch q = Inr (p3, ch3, q')" by (simp add: destroy_timers_def a b q'(1))
  with reading_lifetime [OF c(1) a b] q'(2) show ?thesis by blast
qed

section \<open>Interleaving\<close>

text \<open>
  One step of the loop thread or of another thread. \<open>poll\<close> may return at any time (other descriptors,
  the time-out); what matters is when it cannot block. Another thread queues a functor in two steps:
  it pushes it under the lock, and later writes to the event descriptor.
\<close>

inductive loop_step :: "'f event_loop \<Rightarrow> 'f event_loop \<Rightarrow> bool" where
  start: "el_pc l = NotStarted \<or> el_pc l = Stopped \<Longrightarrow>
    loop_step l (l\<lparr>el_looping := True, el_quit := False, el_pc := AtTest\<rparr>)"
| test_go: "el_pc l = AtTest \<Longrightarrow> \<not> el_quit l \<Longrightarrow> loop_step l (l\<lparr>el_pc := Polling\<rparr>)"
| test_stop: "el_pc l = AtTest \<Longrightarrow> el_quit l \<Longrightarrow> loop_step l (l\<lparr>el_pc := Stopped, el_looping := False\<rparr>)"
| poll_returns: "el_pc l = Polling \<Longrightarrow> loop_step l (l\<lparr>el_pc := Handling\<rparr>)"
| read_wakeup: "el_pc l = Handling \<Longrightarrow> loop_step l (loop_handleRead l)"
| own_queue: "el_pc l = Handling \<or> (\<exists>fs. el_pc l = Running fs) \<Longrightarrow>
    loop_step l (loop_queueInLoop (el_threadId l) cb l)"
| own_quit: "el_pc l = Handling \<or> (\<exists>fs. el_pc l = Running fs) \<Longrightarrow> loop_step l (quit (el_threadId l) l)"
| swap: "el_pc l = Handling \<Longrightarrow> swap_pending (l\<lparr>el_calling := True\<rparr>) = (fs, l') \<Longrightarrow>
    loop_step l (l'\<lparr>el_pc := Running fs\<rparr>)"
| run: "el_pc l = Running (f # fs) \<Longrightarrow> loop_step l (l\<lparr>el_pc := Running fs, el_done := el_done l @ [f]\<rparr>)"
| run_end: "el_pc l = Running [] \<Longrightarrow> loop_step l (l\<lparr>el_calling := False, el_pc := AtTest\<rparr>)"
| other_push: "loop_step l ((push_functor cb l)\<lparr>el_waking := Suc (el_waking l)\<rparr>)"
| other_quit: "loop_step l (l\<lparr>el_quit := True, el_waking := Suc (el_waking l)\<rparr>)"
| other_wake: "el_waking l = Suc n \<Longrightarrow> loop_step l ((wakeup l)\<lparr>el_waking := n\<rparr>)"

section \<open>Invariants of the interleaving\<close>

fun running :: "'f loop_pc \<Rightarrow> 'f list" where
  "running (Running fs) = fs"
| "running pc = []"

text \<open>
  The loop thread is calling functors exactly inside \<open>doPendingFunctors\<close>; what was run, what is being
  run and what is pending is what was queued, in order; and except while the handlers run (after
  which the pending functors are taken anyway), a pending functor comes with a wake-up that has
  happened or is about to happen, as does a request to quit that \<open>poll\<close> could hide.
\<close>

definition loop_inv :: "'f event_loop \<Rightarrow> bool" where
  "loop_inv l \<longleftrightarrow> (el_calling l \<longleftrightarrow> (\<exists>fs. el_pc l = Running fs)) \<and>
     el_done l @ running (el_pc l) @ el_pending l = el_log l \<and>
     (el_pc l \<noteq> Handling \<longrightarrow> el_pending l \<noteq> [] \<longrightarrow> 0 < el_wakeup l \<or> 0 < el_waking l) \<and>
     (el_pc l = Polling \<longrightarrow> el_quit l \<longrightarrow> 0 < el_wakeup l \<or> 0 < el_waking l) \<and>
     (el_looping l \<longleftrightarrow> el_pc l \<noteq> NotStarted \<and> el_pc l \<noteq> Stopped)"

lemma wakeup_simps [simp]:
  "el_pending (wakeup l) = el_pending l" "el_pc (wakeup l) = el_pc l" "el_calling (wakeup l) = el_calling l"
  "el_done (wakeup l) = el_done l" "el_log (wakeup l) = el_log l" "el_quit (wakeup l) = el_quit l"
  "el_looping (wakeup l) = el_looping l" "el_waking (wakeup l) = el_waking l"
  "el_threadId (wakeup l) = el_threadId l"
  by (simp_all add: wakeup_def)

lemma wakeup_positive [simp]: "0 < el_wakeup (wakeup l)"
  by (simp add: wakeup_def eventfd_max_def)

lemma push_functor_simps [simp]:
  "el_pending (push_functor f l) = el_pending l @ [f]" "el_log (push_functor f l) = el_log l @ [f]"
  "el_pc (push_functor f l) = el_pc l" "el_calling (push_functor f l) = el_calling l"
  "el_done (push_functor f l) = el_done l" "el_quit (push_functor f l) = el_quit l"
  "el_looping (push_functor f l) = el_looping l" "el_waking (push_functor f l) = el_waking l"
  "el_wakeup (push_functor f l) = el_wakeup l" "el_threadId (push_functor f l) = el_threadId l"
  by (simp_all add: push_functor_def)

lemma new_event_loop_inv [inv_intro]: "loop_inv (new_event_loop t)"
  by (simp add: loop_inv_def new_event_loop_def)

lemma loop_step_inv: "loop_step l l' \<Longrightarrow> loop_inv l \<Longrightarrow> loop_inv l'"
proof (induction rule: loop_step.induct)
  case (own_queue l cb)
  then show ?case by (auto simp: loop_inv_def loop_queueInLoop_def isInLoopThread_def Let_def)
qed (auto simp: loop_inv_def loop_handleRead_def quit_def isInLoopThread_def swap_pending_def Let_def)

lemma loop_reachable_inv: "loop_step\<^sup>*\<^sup>* (new_event_loop t) l \<Longrightarrow> loop_inv l"
  by (induction rule: rtranclp_induct) (auto intro: new_event_loop_inv loop_step_inv)

section \<open>Functors that queue functors\<close>

definition spawn_run :: "('f \<Rightarrow> 'f list) \<Rightarrow> 'f \<Rightarrow> 'f event_loop \<Rightarrow> 'f event_loop" where
  "spawn_run spawn f l = fold (loop_queueInLoop (el_threadId l)) (spawn f) l"

lemma fold_queue:
  "el_calling l \<Longrightarrow> t = el_threadId l \<Longrightarrow>
     (let l' = fold (loop_queueInLoop t) fs l in
      el_pending l' = el_pending l @ fs \<and> el_done l' = el_done l \<and> el_calling l' \<and>
      el_threadId l' = el_threadId l \<and> (fs \<noteq> [] \<or> 0 < el_wakeup l \<longrightarrow> 0 < el_wakeup l'))"
proof (induction fs arbitrary: l)
  case (Cons f fs)
  let ?l1 = "loop_queueInLoop t f l"
  have "?l1 = wakeup (push_functor f l)" using Cons.prems by (simp add: loop_queueInLoop_def)
  with Cons.IH [of ?l1] Cons.prems show ?case by (simp add: Let_def)
qed simp

lemma run_functors_spawn:
  "el_calling l \<Longrightarrow>
     (let l' = run_functors (spawn_run spawn) fs l in
      el_pending l' = el_pending l @ concat (map spawn fs) \<and> el_done l' = el_done l @ fs \<and>
      el_threadId l' = el_threadId l \<and>
      (concat (map spawn fs) \<noteq> [] \<or> 0 < el_wakeup l \<longrightarrow> 0 < el_wakeup l'))"
proof (induction fs arbitrary: l)
  case (Cons f fs)
  let ?l0 = "l\<lparr>el_done := el_done l @ [f]\<rparr>"
  let ?l1 = "spawn_run spawn f ?l0"
  have l1: "el_pending ?l1 = el_pending l @ spawn f" "el_done ?l1 = el_done l @ [f]" "el_calling ?l1"
      "el_threadId ?l1 = el_threadId l" "spawn f \<noteq> [] \<or> 0 < el_wakeup l \<longrightarrow> 0 < el_wakeup ?l1"
    using fold_queue [of ?l0 "el_threadId ?l0" "spawn f"] Cons.prems by (simp_all add: spawn_run_def Let_def)
  with Cons.IH [OF l1(3)] show ?case by (auto simp: Let_def)
qed (simp add: Let_def)

section \<open>Properties\<close>



text \<open>C24. Queued functors run exactly once and in the order in which they were queued: in every
  interleaving, the functors run so far, those of the round in progress and the pending ones are
  together exactly the sequence of all functors queued.\<close>

theorem functors_once_in_order:
  assumes "loop_step\<^sup>*\<^sup>* (new_event_loop t) l"
  shows "el_log l = el_done l @ running (el_pc l) @ el_pending l"
  using loop_reachable_inv [OF assms] by (simp add: loop_inv_def)

theorem functors_once_in_order_witness:
  "\<exists>l. loop_step\<^sup>*\<^sup>* (new_event_loop 1) l \<and> el_log l = [''f''] \<and>
     el_log l = el_done l @ running (el_pc l) @ el_pending l"
proof -
  let ?l0 = "new_event_loop 1 :: string event_loop"
  let ?l1 = "(push_functor ''f'' ?l0)\<lparr>el_waking := Suc (el_waking ?l0)\<rparr>"
  have "loop_step ?l0 ?l1" by (rule other_push)
  then have r: "loop_step\<^sup>*\<^sup>* ?l0 ?l1" by blast
  have "el_log ?l1 = [''f'']" by (simp add: new_event_loop_def)
  with functors_once_in_order [OF r] r show ?thesis by blast
qed

text \<open>One call of \<open>doPendingFunctors\<close> runs each functor that was pending when it started once, in
  order, and none that is queued meanwhile: those are left pending, in order, and the loop has woken
  itself so that the next \<open>poll\<close> returns at once.\<close>

theorem doPendingFunctors_one_round:
  shows "let l' = doPendingFunctors (spawn_run spawn) l in
    el_done l' = el_done l @ el_pending l \<and>
    el_pending l' = concat (map spawn (el_pending l)) \<and> \<not> el_calling l' \<and>
    (el_pending l' \<noteq> [] \<longrightarrow> 0 < el_wakeup l')"
  using run_functors_spawn [of "l\<lparr>el_calling := True, el_pending := []\<rparr>" spawn "el_pending l"]
  by (auto simp: doPendingFunctors_def swap_pending_def Let_def)

text \<open>A request to quit that arrives before the loop thread has entered \<open>loop()\<close> is lost: \<open>loop()\<close>
  resets the flag, and the loop can reach a \<open>poll\<close> that nothing will end, with the wake-up of the
  request already consumed, although nobody withdrew the request.\<close>

theorem quit_before_loop_lost:
  assumes "el_pc l = NotStarted" "el_pending l = []" "el_waking l = 0" "t \<noteq> el_threadId l"
  shows "\<exists>l'. loop_step\<^sup>*\<^sup>* (quit t l) l' \<and> el_pc l' = Polling \<and> \<not> el_quit l' \<and> el_wakeup l' = 0 \<and>
    el_waking l' = 0 \<and> el_pending l' = []"
proof -
  define l0 where "l0 = quit t l"
  have l0: "el_pc l0 = NotStarted" "el_pending l0 = []" "el_waking l0 = 0"
    using assms by (simp_all add: l0_def quit_def isInLoopThread_def)
  let ?l1 = "l0\<lparr>el_looping := True, el_quit := False, el_pc := AtTest\<rparr>"
  let ?l2 = "?l1\<lparr>el_pc := Polling\<rparr>"
  let ?l3 = "?l2\<lparr>el_pc := Handling\<rparr>"
  let ?l4 = "loop_handleRead ?l3"
  let ?l5 = "(?l4\<lparr>el_calling := True, el_pending := []\<rparr>)\<lparr>el_pc := Running []\<rparr>"
  let ?l6 = "?l5\<lparr>el_calling := False, el_pc := AtTest\<rparr>"
  let ?l7 = "?l6\<lparr>el_pc := Polling\<rparr>"
  have "loop_step l0 ?l1" by (rule start) (simp add: l0)
  moreover have "loop_step ?l1 ?l2" by (rule test_go) simp_all
  moreover have "loop_step ?l2 ?l3" by (rule poll_returns) simp
  moreover have "loop_step ?l3 ?l4" by (rule read_wakeup) simp
  moreover have "loop_step ?l4 ?l5"
    by (rule swap [where fs = "[]"]) (simp_all add: loop_handleRead_def swap_pending_def l0)
  moreover have "loop_step ?l5 ?l6" by (rule run_end) simp
  moreover have "loop_step ?l6 ?l7" by (rule test_go) (simp_all add: loop_handleRead_def)
  ultimately have "loop_step\<^sup>*\<^sup>* l0 ?l7" by (meson converse_rtranclp_into_rtranclp rtranclp.rtrancl_refl)
  moreover have "el_pc ?l7 = Polling" "\<not> el_quit ?l7" "el_wakeup ?l7 = 0" "el_waking ?l7 = 0" "el_pending ?l7 = []"
    by (simp_all add: loop_handleRead_def l0)
  ultimately show ?thesis unfolding l0_def [symmetric] by blast
qed

theorem quit_before_loop_lost_witness:
  "\<exists>l'. loop_step\<^sup>*\<^sup>* (quit 2 (new_event_loop 1)) l' \<and> el_pc l' = Polling \<and> \<not> el_quit l' \<and> el_wakeup l' = 0"
  using quit_before_loop_lost [of "new_event_loop 1" 2] by (auto simp: new_event_loop_def)

text \<open>The timer interface of a loop cannot be used: the constructor leaves the pointer to the timer
  queue null, and \<open>runAt\<close>, \<open>runAfter\<close>, \<open>runEvery\<close> (when the deadline does not overflow) and \<open>cancel\<close>
  all go through it; and if the environment asks for the poll back end the constructor itself uses a
  null poller.\<close>

theorem loop_timers_null:
  assumes "addTime (now_time s) d = Inr w"
  shows "runAt alloc clk w cb new_loop_timers = Inl NullDeref \<and>
    runAfter alloc clk s d cb new_loop_timers = Inl NullDeref \<and>
    runEvery alloc clk s d cb new_loop_timers = Inl NullDeref \<and>
    cancel_timer i (new_loop_timers :: 'f timer_queue option) = Inl NullDeref \<and>
    (getenv ''MUDUO_USE_POLL'' \<noteq> None \<longrightarrow> construct_loop getenv ptr fd = Inl NullDeref)"
  using assms
  by (auto simp: runAt_def runAfter_def runEvery_def cancel_timer_def loop_addTimer_def new_loop_timers_def
      construct_loop_def newDefaultPoller_def)

theorem loop_timers_null_witness:
  "runAfter (first_fit 100) (\<lambda>n. 5) 5 (whole 3) ''beep'' new_loop_timers = Inl NullDeref"
proof -
  have "addTime (now_time 5) (whole 3) = Inr 3000005" using addTime_whole [of 3 5] by (simp add: now_time_def)
  then show ?thesis by (rule loop_timers_null [THEN conjunct2, THEN conjunct1])
qed

end
