(* ===== verification/EventLoopThread.thy ===== *)
theory EventLoopThread
  imports Prelude
begin

text \<open>
  \<open>mymuduo/net/EventLoopThread.h\<close>, \<open>EventLoopThread.cpp\<close> and the starting and joining of \<open>Thread.cpp\<close>:
  the two threads of a loop thread, the one that creates and destroys the object and the one that runs
  the loop, with the semaphore, the mutex and condition variable, and the flag that stops the loop. A
  step is a piece of code between two points where a thread can wait.
\<close>

section \<open>The state\<close>

text \<open>Where the creator is: before \<open>startLoop\<close>, in \<open>sem_wait\<close>, in \<open>cond_.wait\<close>, after \<open>startLoop\<close> (with
  what it returned), in \<open>join\<close>, and after the destructor.\<close>

datatype creator_pc = Created | InSemWait | InCondWait | GotLoop "nat option" | InJoin | Gone

text \<open>Where the thread is: not created, before \<open>sem_post\<close>, before publishing its loop, before the call of
  \<open>loop()\<close>, in it, after it, and ended.\<close>

datatype worker_pc = NoThread | Starting | Building | Published | Looping | Leaving | Ended

record loop_thread =
  lt_creator :: creator_pc
  lt_worker :: worker_pc
  lt_started :: bool
  lt_joined :: bool
  lt_exiting :: bool
  lt_sem :: nat
  lt_loop :: "nat option"
  lt_quit :: bool

definition new_loop_thread :: loop_thread where
  "new_loop_thread = \<lparr>lt_creator = Created, lt_worker = NoThread, lt_started = False, lt_joined = False,
     lt_exiting = False, lt_sem = 0, lt_loop = None, lt_quit = False\<rparr>"

section \<open>The pieces of code\<close>

text \<open>\<open>Thread::start\<close>, first to the creation of the thread, then past \<open>sem_wait\<close>.\<close>

definition thread_start :: "loop_thread \<Rightarrow> loop_thread" where
  "thread_start s = s\<lparr>lt_started := True, lt_sem := 0, lt_worker := Starting, lt_creator := InSemWait\<rparr>"

definition sem_passed :: "loop_thread \<Rightarrow> loop_thread" where
  "sem_passed s = s\<lparr>lt_sem := lt_sem s - 1, lt_creator := InCondWait\<rparr>"

text \<open>The thread function: \<open>sem_post\<close>; the loop, the callback and its publication; \<open>loop()\<close>, which
  first resets the flag; the reset of the pointer.\<close>

definition thread_posts :: "loop_thread \<Rightarrow> loop_thread" where
  "thread_posts s = s\<lparr>lt_sem := lt_sem s + 1, lt_worker := Building\<rparr>"

definition publish_loop :: "nat \<Rightarrow> loop_thread \<Rightarrow> loop_thread" where
  "publish_loop l s = s\<lparr>lt_loop := Some l, lt_worker := Published\<rparr>"

definition enter_loop :: "loop_thread \<Rightarrow> loop_thread" where
  "enter_loop s = s\<lparr>lt_quit := False, lt_worker := Looping\<rparr>"

definition clear_loop :: "loop_thread \<Rightarrow> loop_thread" where
  "clear_loop s = s\<lparr>lt_loop := None, lt_worker := Ended\<rparr>"

text \<open>\<open>Thread::join\<close> up to the wait for the thread, and whether \<open>~Thread\<close> detaches it.\<close>

definition thread_join :: "loop_thread \<Rightarrow> loop_thread" where
  "thread_join s = s\<lparr>lt_joined := True, lt_creator := InJoin\<rparr>"

definition detaches :: "loop_thread \<Rightarrow> bool" where
  "detaches s \<longleftrightarrow> lt_started s \<and> \<not> lt_joined s"

text \<open>The destructor to its \<open>join\<close>; without a loop it does not join, and \<open>~Thread\<close> detaches.\<close>

definition destroy_loop_thread :: "loop_thread \<Rightarrow> loop_thread" where
  "destroy_loop_thread s =
     (let s1 = s\<lparr>lt_exiting := True\<rparr>
      in if lt_loop s1 \<noteq> None then thread_join (s1\<lparr>lt_quit := True\<rparr>)
         else s1\<lparr>lt_creator := Gone\<rparr>)"

inductive lt_step :: "loop_thread \<Rightarrow> loop_thread \<Rightarrow> bool" where
  start: "lt_creator s = Created \<Longrightarrow> lt_step s (thread_start s)"
| sem_wait: "lt_creator s = InSemWait \<Longrightarrow> 0 < lt_sem s \<Longrightarrow> lt_step s (sem_passed s)"
| sem_post: "lt_worker s = Starting \<Longrightarrow> lt_step s (thread_posts s)"
| build: "lt_worker s = Building \<Longrightarrow> lt_step s (publish_loop l s)"
| cond_wait: "lt_creator s = InCondWait \<Longrightarrow> lt_loop s \<noteq> None \<Longrightarrow> lt_step s (s\<lparr>lt_creator := GotLoop (lt_loop s)\<rparr>)"
| loop: "lt_worker s = Published \<Longrightarrow> lt_step s (enter_loop s)"
| test: "lt_worker s = Looping \<Longrightarrow> lt_quit s \<Longrightarrow> lt_step s (s\<lparr>lt_worker := Leaving\<rparr>)"
| leave: "lt_worker s = Leaving \<Longrightarrow> lt_step s (clear_loop s)"
| destroy: "lt_creator s = GotLoop l \<Longrightarrow> lt_step s (destroy_loop_thread s)"
| join: "lt_creator s = InJoin \<Longrightarrow> lt_worker s = Ended \<Longrightarrow> lt_step s (s\<lparr>lt_creator := Gone\<rparr>)"

lemmas lt_ops = thread_start_def sem_passed_def thread_posts_def publish_loop_def enter_loop_def clear_loop_def
  thread_join_def destroy_loop_thread_def Let_def

section \<open>The invariant\<close>

fun before_return :: "creator_pc \<Rightarrow> bool" where
  "before_return (GotLoop l) = False"
| "before_return InJoin = False"
| "before_return Gone = False"
| "before_return _ = True"

fun has_loop :: "worker_pc \<Rightarrow> bool" where
  "has_loop Published = True"
| "has_loop Looping = True"
| "has_loop Leaving = True"
| "has_loop _ = False"

text \<open>Where the thread can be when the creator is at a given point.\<close>

fun pcs_ok :: "creator_pc \<Rightarrow> worker_pc \<Rightarrow> bool" where
  "pcs_ok Created w = (w = NoThread)"
| "pcs_ok InSemWait w = (w \<in> {Starting, Building, Published, Looping})"
| "pcs_ok InCondWait w = (w \<in> {Building, Published, Looping})"
| "pcs_ok (GotLoop l) w = (l \<noteq> None \<and> w \<in> {Published, Looping})"
| "pcs_ok InJoin w = (w \<in> {Published, Looping, Leaving, Ended})"
| "pcs_ok Gone w = (w = Ended)"

definition lt_inv :: "loop_thread \<Rightarrow> bool" where
  "lt_inv s \<longleftrightarrow> pcs_ok (lt_creator s) (lt_worker s) \<and>
     (lt_loop s \<noteq> None) = has_loop (lt_worker s) \<and>
     (lt_creator s = InSemWait \<longrightarrow> lt_sem s = (if lt_worker s = Starting then 0 else 1)) \<and>
     (lt_quit s \<longrightarrow> \<not> before_return (lt_creator s) \<and> (\<forall>l. lt_creator s \<noteq> GotLoop l))"

lemma lt_inv_step:
  assumes "lt_step s s'" "lt_inv s"
  shows "lt_inv s'"
  using assms(1)
proof cases
  case (sem_wait)
  with assms(2) show ?thesis by (cases "lt_worker s") (simp_all add: lt_inv_def lt_ops)
next
  case (destroy l)
  with assms(2) show ?thesis by (cases "lt_worker s") (simp_all add: lt_inv_def lt_ops)
next
  case (cond_wait)
  with assms(2) show ?thesis by (cases "lt_worker s") (simp_all add: lt_inv_def lt_ops)
qed (use assms(2) in \<open>cases "lt_creator s"; simp add: lt_inv_def lt_ops; fail\<close>)+

lemma lt_inv_reachable: "lt_step\<^sup>*\<^sup>* new_loop_thread s \<Longrightarrow> lt_inv s"
proof (induction rule: rtranclp_induct)
  case base
  show ?case by (simp add: lt_inv_def new_loop_thread_def)
qed (rule lt_inv_step)

text \<open>A loop thread whose object was destroyed after \<open>startLoop\<close> was joined and is not detached.\<close>

lemma never_detached:
  "lt_step\<^sup>*\<^sup>* new_loop_thread s \<Longrightarrow> lt_creator s \<in> {InJoin, Gone} \<Longrightarrow> \<not> detaches s"
proof (induction rule: rtranclp_induct)
  case base
  then show ?case by (simp add: new_loop_thread_def)
next
  case (step s t)
  have inv: "lt_inv s" by (rule lt_inv_reachable [OF step(1)])
  from step(2) show ?case
  proof cases
    case (destroy l)
    with inv have "lt_loop s \<noteq> None" by (auto simp: lt_inv_def)
    with destroy show ?thesis by (simp add: lt_ops detaches_def)
  qed (use step(3,4) in \<open>auto simp: lt_ops detaches_def\<close>)
qed

text \<open>How many steps \<open>startLoop\<close> is away from its end.\<close>

fun creator_rank :: "creator_pc \<Rightarrow> nat" where
  "creator_rank Created = 5"
| "creator_rank InSemWait = 4"
| "creator_rank InCondWait = 3"
| "creator_rank (GotLoop l) = 2"
| "creator_rank InJoin = 1"
| "creator_rank Gone = 0"

fun worker_rank :: "worker_pc \<Rightarrow> nat" where
  "worker_rank NoThread = 6"
| "worker_rank Starting = 5"
| "worker_rank Building = 4"
| "worker_rank Published = 3"
| "worker_rank Looping = 2"
| "worker_rank Leaving = 1"
| "worker_rank Ended = 0"

definition lt_rank :: "loop_thread \<Rightarrow> nat" where
  "lt_rank s = creator_rank (lt_creator s) + worker_rank (lt_worker s)"

lemma lt_rank_step: "lt_step s s' \<Longrightarrow> lt_inv s \<Longrightarrow> lt_rank s' < lt_rank s"
proof (induction rule: lt_step.induct)
  case (start s)
  then show ?case by (auto simp: lt_rank_def lt_inv_def lt_ops)
qed (auto simp: lt_rank_def lt_ops)

lemma lt_step_creator:
  assumes "before_return (lt_creator s)" "lt_inv s"
  shows "\<exists>s'. lt_step s s'"
proof (cases "lt_worker s")
  case NoThread
  with assms have "lt_creator s = Created" by (cases "lt_creator s") (simp_all add: lt_inv_def)
  then show ?thesis using lt_step.start by blast
next
  case Looping
  with assms have "lt_creator s = InSemWait \<and> 0 < lt_sem s \<or> lt_creator s = InCondWait \<and> lt_loop s \<noteq> None"
    by (cases "lt_creator s") (simp_all add: lt_inv_def)
  then show ?thesis using lt_step.sem_wait lt_step.cond_wait by blast
next
  case Ended
  with assms show ?thesis by (cases "lt_creator s") (simp_all add: lt_inv_def)
qed (blast intro: lt_step.intros)+

section \<open>Properties\<close>



text \<open>Destroying a loop thread can block for ever: if the creator destroys the object right after
  \<open>startLoop\<close>, before the new thread has entered \<open>loop()\<close>, the flag it sets is reset by \<open>loop()\<close>, the
  destructor waits in \<open>join\<close> for a thread whose loop never ends, and no step is possible. When the thread
  is already in its loop, the destructor ends.\<close>

theorem destructor_can_block:
  assumes "lt_step\<^sup>*\<^sup>* new_loop_thread s" "lt_creator s = GotLoop r"
  shows "(lt_worker s = Published \<longrightarrow>
      (\<exists>s'. lt_step\<^sup>*\<^sup>* s s' \<and> lt_creator s' = InJoin \<and> lt_worker s' = Looping \<and> (\<forall>s''. \<not> lt_step s' s''))) \<and>
    (lt_worker s = Looping \<longrightarrow> (\<exists>s'. lt_step\<^sup>*\<^sup>* (destroy_loop_thread s) s' \<and> lt_creator s' = Gone \<and> lt_worker s' = Ended))"
proof (intro conjI impI)
  have inv: "lt_inv s" by (rule lt_inv_reachable [OF assms(1)])
  have d: "lt_step s (destroy_loop_thread s)" by (rule destroy [OF assms(2)])
  have w: "lt_worker s \<in> {Published, Looping} \<Longrightarrow> lt_loop s \<noteq> None" 
    using inv by (cases "lt_worker s") (simp_all add: lt_inv_def)
  show "\<exists>s'. lt_step\<^sup>*\<^sup>* s s' \<and> lt_creator s' = InJoin \<and> lt_worker s' = Looping \<and> (\<forall>s''. \<not> lt_step s' s'')"
    if p: "lt_worker s = Published"
  proof -
    let ?s1 = "destroy_loop_thread s"
    have s1: "lt_creator ?s1 = InJoin" "lt_worker ?s1 = Published" using p w by (auto simp: lt_ops)
    let ?s2 = "enter_loop ?s1"
    have s2: "lt_creator ?s2 = InJoin" "lt_worker ?s2 = Looping" "\<not> lt_quit ?s2" using s1 by (simp_all add: enter_loop_def)
    have "\<not> lt_step ?s2 s''" for s'' using s2 by (auto elim: lt_step.cases)
    moreover have "lt_step ?s1 ?s2" by (rule loop [OF s1(2)])
    ultimately show ?thesis using d s2 by (meson converse_rtranclp_into_rtranclp r_into_rtranclp)
  qed
  show "\<exists>s'. lt_step\<^sup>*\<^sup>* (destroy_loop_thread s) s' \<and> lt_creator s' = Gone \<and> lt_worker s' = Ended" if l: "lt_worker s = Looping"
  proof -
    let ?s1 = "destroy_loop_thread s"
    have s1: "lt_creator ?s1 = InJoin" "lt_worker ?s1 = Looping" "lt_quit ?s1" using l w by (auto simp: lt_ops)
    let ?s2 = "?s1\<lparr>lt_worker := Leaving\<rparr>"
    let ?s3 = "clear_loop ?s2"
    let ?s4 = "?s3\<lparr>lt_creator := Gone\<rparr>"
    have "lt_step ?s1 ?s2" by (rule test [OF s1(2,3)])
    moreover have "lt_step ?s2 ?s3" by (rule leave) simp
    moreover have "lt_step ?s3 ?s4" by (rule join) (simp_all add: clear_loop_def s1)
    moreover have "lt_creator ?s4 = Gone" "lt_worker ?s4 = Ended" by (simp_all add: clear_loop_def)
    ultimately show ?thesis by (meson converse_rtranclp_into_rtranclp rtranclp.rtrancl_refl)
  qed
qed

theorem destructor_can_block_witness:
  "\<exists>s s'. lt_step\<^sup>*\<^sup>* new_loop_thread s \<and> lt_creator s = GotLoop (Some 8) \<and> lt_step\<^sup>*\<^sup>* s s' \<and>
     lt_creator s' = InJoin \<and> (\<forall>s''. \<not> lt_step s' s'')"
proof -
  let ?s1 = "thread_start new_loop_thread"
  let ?s2 = "thread_posts ?s1"
  let ?s3 = "sem_passed ?s2"
  let ?s4 = "publish_loop 8 ?s3"
  let ?s5 = "?s4\<lparr>lt_creator := GotLoop (lt_loop ?s4)\<rparr>"
  have "lt_step new_loop_thread ?s1" by (rule start) (simp add: new_loop_thread_def)
  moreover have "lt_step ?s1 ?s2" by (rule sem_post) (simp add: lt_ops)
  moreover have "lt_step ?s2 ?s3" by (rule sem_wait) (simp_all add: lt_ops)
  moreover have "lt_step ?s3 ?s4" by (rule build) (simp add: lt_ops)
  moreover have "lt_step ?s4 ?s5" by (rule cond_wait) (simp_all add: lt_ops)
  ultimately have run: "lt_step\<^sup>*\<^sup>* new_loop_thread ?s5"
    by (meson converse_rtranclp_into_rtranclp rtranclp.rtrancl_refl)
  have c: "lt_creator ?s5 = GotLoop (Some 8)" "lt_worker ?s5 = Published" by (simp_all add: lt_ops)
  from destructor_can_block [OF run c(1)] c run show ?thesis by blast
qed

end
