(* ===== verification/EventLoopThreadPool.thy ===== *)
theory EventLoopThreadPool
  imports Prelude
begin

text \<open>
  \<open>mymuduo/net/EventLoopThreadPool.h\<close>, \<open>EventLoopThreadPool.cpp\<close> and the names and numbers of
  \<open>Thread.cpp\<close>: the loops among which connections are shared out. Creating a thread and its loop
  (\<open>EventLoopThread::startLoop\<close>) is an argument that gives the loop of the i-th thread.
\<close>

section \<open>Threads\<close>

text \<open>\<open>snprintf\<close> into a \<open>char[32]\<close>; the counter is a static atomic \<open>int\<close>.\<close>

definition setDefaultName :: "int \<Rightarrow> string \<Rightarrow> string \<times> int" where
  "setDefaultName numCreated name =
     (let num = numCreated + 1
      in (if name = [] then take 31 (''Thread'' @ dec (nat num)) else name, num))"

section \<open>The pool\<close>

record 'l loop_pool =
  tp_baseLoop :: 'l
  tp_name :: string
  tp_started :: bool
  tp_numThreads :: int
  tp_next :: nat
  tp_threads :: "string list"
  tp_loops :: "'l list"

definition new_pool :: "'l \<Rightarrow> string \<Rightarrow> 'l loop_pool" where
  "new_pool baseLoop nameArg = \<lparr>tp_baseLoop = baseLoop, tp_name = nameArg, tp_started = False,
     tp_numThreads = 0, tp_next = 0, tp_threads = [], tp_loops = []\<rparr>"

definition setThreadNum :: "int \<Rightarrow> 'l loop_pool \<Rightarrow> 'l loop_pool" where
  "setThreadNum n p = p\<lparr>tp_numThreads := n\<rparr>"

text \<open>The loop that creates the threads; the buffer for the name is as long as it needs.\<close>

fun start_threads :: "(nat \<Rightarrow> 'l) \<Rightarrow> nat list \<Rightarrow> 'l loop_pool \<Rightarrow> 'l loop_pool" where
  "start_threads startLoop [] p = p"
| "start_threads startLoop (i # is) p =
     start_threads startLoop is
       (p\<lparr>tp_threads := tp_threads p @ [take (length (tp_name p) + 31) (tp_name p @ dec i)],
          tp_loops := tp_loops p @ [startLoop i]\<rparr>)"

text \<open>Also returns whether the initialisation callback runs on the base loop.\<close>

definition start_pool :: "(nat \<Rightarrow> 'l) \<Rightarrow> bool \<Rightarrow> 'l loop_pool \<Rightarrow> 'l loop_pool \<times> bool" where
  "start_pool startLoop has_cb p =
     (let p1 = start_threads startLoop [0..<nat (tp_numThreads p)] (p\<lparr>tp_started := True\<rparr>)
      in (p1, tp_numThreads p = 0 \<and> has_cb))"

definition getNextLoop :: "'l loop_pool \<Rightarrow> ('l \<times> 'l loop_pool) res" where
  "getNextLoop p =
     (if tp_loops p \<noteq> []
      then if tp_next p < length (tp_loops p)
           then
             let loop = tp_loops p ! tp_next p; n = tp_next p + 1
             in Inr (loop, p\<lparr>tp_next := (if length (tp_loops p) \<le> n then 0 else n)\<rparr>)
           else Inl OutOfBounds
      else Inr (tp_baseLoop p, p))"

definition getAllLoops :: "'l loop_pool \<Rightarrow> 'l list" where
  "getAllLoops p = (if tp_loops p = [] then [tp_baseLoop p] else tp_loops p)"

section \<open>The invariant\<close>

definition pool_inv :: "'l loop_pool \<Rightarrow> bool" where
  "pool_inv p \<longleftrightarrow> tp_loops p = [] \<or> tp_next p < length (tp_loops p)"

lemma getNextLoop_ok:
  assumes "pool_inv p"
  shows "\<exists>p'. getNextLoop p = Inr (getAllLoops p ! (if tp_loops p = [] then 0 else tp_next p), p') \<and> pool_inv p' \<and>
    getAllLoops p' = getAllLoops p \<and> tp_loops p' = tp_loops p \<and> tp_baseLoop p' = tp_baseLoop p \<and>
    (tp_loops p \<noteq> [] \<longrightarrow> tp_next p' = Suc (tp_next p) mod length (tp_loops p))"
proof (cases "tp_loops p = []")
  case True
  then show ?thesis by (auto simp: getNextLoop_def getAllLoops_def pool_inv_def)
next
  case False
  with assms have lt: "tp_next p < length (tp_loops p)" by (simp add: pool_inv_def)
  then have "Suc (tp_next p) mod length (tp_loops p) =
      (if length (tp_loops p) \<le> Suc (tp_next p) then 0 else Suc (tp_next p))"
    by (simp add: mod_Suc)
  with False lt show ?thesis by (auto simp: getNextLoop_def getAllLoops_def pool_inv_def Let_def)
qed

lemma start_threads_eq:
  "start_threads startLoop is p = p\<lparr>tp_threads := tp_threads p @
      map (\<lambda>i. take (length (tp_name p) + 31) (tp_name p @ dec i)) is,
    tp_loops := tp_loops p @ map startLoop is\<rparr>"
  by (induction "is" arbitrary: p) simp_all

lemma start_pool_loops:
  "tp_loops (fst (start_pool startLoop b (setThreadNum n (new_pool base name)))) =
     map startLoop [0..<nat n]"
  "tp_next (fst (start_pool startLoop b (setThreadNum n (new_pool base name)))) = 0"
  "tp_baseLoop (fst (start_pool startLoop b (setThreadNum n (new_pool base name)))) = base"
  by (simp_all add: start_pool_def start_threads_eq setThreadNum_def new_pool_def Let_def)

text \<open>The loops of a sequence of calls.\<close>

fun take_loops :: "nat \<Rightarrow> 'l loop_pool \<Rightarrow> ('l list \<times> 'l loop_pool) res" where
  "take_loops 0 p = Inr ([], p)"
| "take_loops (Suc k) p =
     bind_res (getNextLoop p) (\<lambda>(l, p1). bind_res (take_loops k p1) (\<lambda>(ls, p2). Inr (l # ls, p2)))"

lemma take_loops_ok:
  "pool_inv p \<Longrightarrow> \<exists>p'. take_loops k p =
     Inr (map (\<lambda>i. getAllLoops p ! ((tp_next' + i) mod length (getAllLoops p))) [0..<k], p')"
  if "tp_next' = (if tp_loops p = [] then 0 else tp_next p)" for tp_next'
  using that
proof (induction k arbitrary: p tp_next')
  case (Suc k)
  obtain p1 where p1: "getNextLoop p = Inr (getAllLoops p ! tp_next', p1)" "pool_inv p1"
      "getAllLoops p1 = getAllLoops p" "tp_loops p1 = tp_loops p"
      "tp_loops p \<noteq> [] \<longrightarrow> tp_next p1 = Suc (tp_next p) mod length (tp_loops p)"
    using getNextLoop_ok [OF Suc.prems(1)] Suc.prems(2) by auto
  define n1 where "n1 = (if tp_loops p1 = [] then 0 else tp_next p1)"
  obtain p' where p': "take_loops k p1 =
      Inr (map (\<lambda>i. getAllLoops p ! ((n1 + i) mod length (getAllLoops p))) [0..<k], p')"
    using Suc.IH [OF p1(2) n1_def] p1(3) by auto
  have len: "length (getAllLoops p) = (if tp_loops p = [] then 1 else length (tp_loops p))"
    by (simp add: getAllLoops_def)
  have shift: "(n1 + i) mod length (getAllLoops p) = (tp_next' + Suc i) mod length (getAllLoops p)" for i
    using p1(4,5) Suc.prems(2) by (simp add: n1_def len mod_add_left_eq mod_Suc_eq)
  have first: "tp_next' mod length (getAllLoops p) = tp_next'"
    using Suc.prems by (auto simp: len pool_inv_def)
  have "map (\<lambda>i. getAllLoops p ! ((tp_next' + i) mod length (getAllLoops p))) [0..<Suc k] =
      getAllLoops p ! tp_next' # map (\<lambda>i. getAllLoops p ! ((n1 + i) mod length (getAllLoops p))) [0..<k]"
    by (simp add: upt_conv_Cons map_Suc_upt [symmetric] first shift del: upt_Suc)
  with p1(1) p' show ?case by simp
qed simp

section \<open>Properties\<close>

text \<open>C36. Connections are shared out round robin: after starting a pool with n threads, the calls of
  \<open>getNextLoop\<close> never fail and the k-th one returns the loop of thread k mod n, or the base loop
  when the pool has no threads; a call never leaves the vector of loops.\<close>

theorem round_robin:
  shows "\<exists>p'. take_loops k (fst (start_pool startLoop b (setThreadNum n (new_pool base name)))) =
    Inr (map (\<lambda>i. if n \<le> 0 then base else startLoop (i mod nat n)) [0..<k], p')"
proof -
  let ?p = "fst (start_pool startLoop b (setThreadNum n (new_pool base name)))"
  have inv: "pool_inv ?p" by (auto simp: pool_inv_def start_pool_loops)
  have all: "getAllLoops ?p = (if n \<le> 0 then [base] else map startLoop [0..<nat n])"
    by (simp add: getAllLoops_def start_pool_loops)
  have "(0 :: nat) = (if tp_loops ?p = [] then 0 else tp_next ?p)" by (simp only: start_pool_loops(2) if_cancel)
  from take_loops_ok [OF this inv, of k] obtain p' where "take_loops k ?p =
      Inr (map (\<lambda>i. getAllLoops ?p ! ((0 + i) mod length (getAllLoops ?p))) [0..<k], p')"
    by blast
  moreover have "n \<le> 0 \<or> 0 < n" by auto
  ultimately show ?thesis by (auto simp: all)
qed

end
