(* ===== verification/Acceptor.thy ===== *)
theory Acceptor
  imports TcpConnection InetAddress
begin

text \<open>
  \<open>mymuduo/net/Acceptor.h\<close>, \<open>Acceptor.cpp\<close>: the
  listening socket of a server, registered with the poller of the base loop. The kernel's answer to
  \<open>accept4\<close> is an argument.
\<close>

record acceptor =
  ac_socket :: socket
  ac_channel :: channel
  ac_listenning :: bool

definition new_acceptor :: "nat \<Rightarrow> int \<Rightarrow> sockaddr_in \<Rightarrow> bool \<Rightarrow> acceptor" where
  "new_acceptor ptr fd listenAddr reuseport =
     \<lparr>ac_socket = bindAddress listenAddr (setReusePort True (setReuseAddr True (new_socket fd))),
      ac_channel = new_channel ptr fd, ac_listenning = False\<rparr>"

definition acceptor_do ::
    "(poller \<Rightarrow> channel \<Rightarrow> poller \<times> channel) \<Rightarrow> poller \<times> acceptor \<Rightarrow> poller \<times> acceptor" where
  "acceptor_do f pa = (let (p, a) = pa; (p1, ch) = f p (ac_channel a) in (p1, a\<lparr>ac_channel := ch\<rparr>))"

definition acceptor_listen :: "poller \<times> acceptor \<Rightarrow> poller \<times> acceptor" where
  "acceptor_listen pa =
     (let (p, a) = pa
      in acceptor_do enableReading (p, a\<lparr>ac_listenning := True, ac_socket := socket_listen (ac_socket a)\<rparr>))"

text \<open>The members are destroyed after the body, the channel before the socket.\<close>

definition delete_acceptor :: "poller \<times> acceptor \<Rightarrow> poller \<times> socket" where
  "delete_acceptor pa =
     (let (p, a) = acceptor_do remove_channel (acceptor_do disableAll pa) in (p, delete_socket (ac_socket a)))"

text \<open>The new state and the descriptors that are closed at once.\<close>

definition acceptor_handleRead ::
    "(int \<Rightarrow> sockaddr_in \<Rightarrow> 's \<Rightarrow> 's res) option \<Rightarrow> sockaddr_in \<Rightarrow> errno + int \<times> sockaddr_in \<Rightarrow>
      's \<Rightarrow> ('s \<times> int list) res" where
  "acceptor_handleRead newConnectionCallback peer0 r s =
     (case socket_accept r peer0 of
        (Inr connfd, peerAddr) \<Rightarrow>
          (case newConnectionCallback of
             Some cb \<Rightarrow> bind_res (cb connfd peerAddr s) (\<lambda>s1. Inr (s1, []))
           | None \<Rightarrow> Inr (s, [connfd]))
      | (Inl e, _) \<Rightarrow> Inr (s, []))"

section \<open>The listening socket\<close>

text \<open>The calls on the socket before it listens: both options are on, whatever was asked for.\<close>

definition setup_calls :: "sockaddr_in \<Rightarrow> sock_call list" where
  "setup_calls a = [SetSockOpt SOL_SOCKET SO_REUSEADDR 1, SetSockOpt SOL_SOCKET SO_REUSEPORT 1, SockBind a]"

lemma new_acceptor_simps [simp]:
  "so_calls (ac_socket (new_acceptor ptr fd a reuseport)) = setup_calls a"
  "so_fd (ac_socket (new_acceptor ptr fd a reuseport)) = fd"
  "ac_channel (new_acceptor ptr fd a reuseport) = new_channel ptr fd"
  "\<not> ac_listenning (new_acceptor ptr fd a reuseport)"
  by (simp_all add: new_acceptor_def setup_calls_def sock_defs)

lemma acceptor_listen_simps [simp]:
  "ac_socket (snd (acceptor_listen pa)) = socket_listen (ac_socket (snd pa))"
  "ac_listenning (snd (acceptor_listen pa))"
  by (simp_all add: acceptor_listen_def acceptor_do_def Let_def split: prod.splits)

end
