(* ===== verification/TcpServer.thy ===== *)
theory TcpServer
  imports Acceptor EventLoopThreadPool HttpServer
begin

text \<open>
  \<open>mymuduo/net/TcpServer.h\<close> and \<open>TcpServer.cpp\<close>: the table of connections, how an accepted socket
  becomes a connection of one of the loops, and how a closed connection is taken out of the table in
  the base loop and destroyed in its own loop. The system state holds the server, the connections,
  and for every loop its poller and the functors that the server has queued in it. A loop is named by
  a number, which is also the number of its thread.
\<close>

section \<open>The state\<close>

datatype server_task = TListen | TEstablish nat | TRemove nat | TDestroy nat

record tcp_server =
  sv_loop :: nat
  sv_ipPort :: string
  sv_name :: string
  sv_pool :: "nat loop_pool"
  sv_nextConnId :: int
  sv_started :: "32 word"
  sv_connections :: "string \<rightharpoonup> nat"

text \<open>\<open>sc_destroyed\<close> records that \<open>connectDestroyed\<close> has run.\<close>

record 'x server_conn =
  sc_name :: string
  sc_loop :: nat
  sc_conn :: "'x tcp_connection"
  sc_destroyed :: bool

record 'x server_sys =
  sy_server :: tcp_server
  sy_acceptor :: acceptor
  sy_conns :: "nat \<rightharpoonup> 'x server_conn"
  sy_queues :: "nat \<Rightarrow> server_task list"
  sy_pollers :: "nat \<Rightarrow> poller"

definition new_server :: "nat \<Rightarrow> sockaddr_in \<Rightarrow> string \<Rightarrow> tcp_server res" where
  "new_server loop listenAddr nameArg =
     bind_res (toIpPort listenAddr) (\<lambda>ipPort.
       Inr \<lparr>sv_loop = loop, sv_ipPort = ipPort, sv_name = nameArg, sv_pool = new_pool loop nameArg,
         sv_nextConnId = 1, sv_started = 0, sv_connections = Map.empty\<rparr>)"

definition new_system :: "nat \<Rightarrow> sockaddr_in \<Rightarrow> string \<Rightarrow> bool \<Rightarrow> nat \<Rightarrow> int \<Rightarrow> 'x server_sys res" where
  "new_system loop listenAddr nameArg reuse ptr fd =
     bind_res (new_server loop listenAddr nameArg) (\<lambda>srv.
       Inr \<lparr>sy_server = srv, sy_acceptor = new_acceptor ptr fd listenAddr reuse, sy_conns = Map.empty,
         sy_queues = (\<lambda>_. []), sy_pollers = (\<lambda>_. new_poller)\<rparr>)"

definition server_setThreadNum :: "int \<Rightarrow> tcp_server \<Rightarrow> tcp_server" where
  "server_setThreadNum n srv = srv\<lparr>sv_pool := setThreadNum n (sv_pool srv)\<rparr>"

section \<open>Tasks\<close>

definition queue_task :: "nat \<Rightarrow> server_task \<Rightarrow> 'x server_sys \<Rightarrow> 'x server_sys" where
  "queue_task lp t sy = sy\<lparr>sy_queues := (sy_queues sy)(lp := sy_queues sy lp @ [t])\<rparr>"

text \<open>An operation of a connection sees the poller of its loop.\<close>

definition on_conn ::
    "('x tcp_connection \<Rightarrow> 'x tcp_connection res) \<Rightarrow> nat \<Rightarrow> 'x server_sys \<Rightarrow> 'x server_sys res" where
  "on_conn f a sy =
     (case sy_conns sy a of
        None \<Rightarrow> Inl NullDeref
      | Some sc \<Rightarrow>
          bind_res (f ((sc_conn sc)\<lparr>lp_poller := sy_pollers sy (sc_loop sc)\<rparr>)) (\<lambda>c.
            Inr (sy\<lparr>sy_conns := (sy_conns sy)(a \<mapsto> sc\<lparr>sc_conn := c\<rparr>),
                    sy_pollers := (sy_pollers sy)(sc_loop sc := lp_poller c)\<rparr>)))"

definition set_destroyed :: "nat \<Rightarrow> 'x server_sys \<Rightarrow> 'x server_sys" where
  "set_destroyed a sy = sy\<lparr>sy_conns := (sy_conns sy)(a := map_option (sc_destroyed_update (\<lambda>_. True)) (sy_conns sy a))\<rparr>"

definition removeConnectionInLoop :: "nat \<Rightarrow> 'x server_sys \<Rightarrow> 'x server_sys res" where
  "removeConnectionInLoop a sy =
     (case sy_conns sy a of
        None \<Rightarrow> Inl NullDeref
      | Some sc \<Rightarrow>
          let srv = sy_server sy;
              sy1 = sy\<lparr>sy_server := srv\<lparr>sv_connections := (sv_connections srv)(sc_name sc := None)\<rparr>\<rparr>
          in Inr (queue_task (sc_loop sc) (TDestroy a) sy1))"

definition server_listen :: "'x server_sys \<Rightarrow> 'x server_sys" where
  "server_listen sy =
     (let base = sv_loop (sy_server sy); (p, ac) = acceptor_listen (sy_pollers sy base, sy_acceptor sy)
      in sy\<lparr>sy_acceptor := ac, sy_pollers := (sy_pollers sy)(base := p)\<rparr>)"

fun run_task ::
    "('x tcp_connection \<Rightarrow> 'x tcp_connection res) \<Rightarrow> server_task \<Rightarrow> 'x server_sys \<Rightarrow> 'x server_sys res" where
  "run_task cb TListen sy = Inr (server_listen sy)"
| "run_task cb (TEstablish a) sy = on_conn (connectEstablished cb) a sy"
| "run_task cb (TRemove a) sy = removeConnectionInLoop a sy"
| "run_task cb (TDestroy a) sy =
     bind_res (on_conn (connectDestroyed cb) a sy) (\<lambda>sy1. Inr (set_destroyed a sy1))"

text \<open>\<open>EventLoop::runInLoop\<close> called by thread \<open>t\<close>.\<close>

definition run_in_loop ::
    "('x tcp_connection \<Rightarrow> 'x tcp_connection res) \<Rightarrow> nat \<Rightarrow> nat \<Rightarrow> server_task \<Rightarrow> 'x server_sys \<Rightarrow>
      'x server_sys res" where
  "run_in_loop cb t lp task sy = (if t = lp then run_task cb task sy else Inr (queue_task lp task sy))"

section \<open>Operations\<close>

definition start_server ::
    "('x tcp_connection \<Rightarrow> 'x tcp_connection res) \<Rightarrow> (nat \<Rightarrow> nat) \<Rightarrow> bool \<Rightarrow> nat \<Rightarrow> 'x server_sys \<Rightarrow>
      'x server_sys res" where
  "start_server cb startLoop hasInit t sy =
     (let srv = sy_server sy; srv1 = srv\<lparr>sv_started := sv_started srv + 1\<rparr>
      in if sv_started srv = 0
         then
           let srv2 = srv1\<lparr>sv_pool := fst (start_pool startLoop hasInit (sv_pool srv1))\<rparr>
           in run_in_loop cb t (sv_loop srv) TListen (sy\<lparr>sy_server := srv2\<rparr>)
         else Inr (sy\<lparr>sy_server := srv1\<rparr>))"

definition connName :: "string \<Rightarrow> string \<Rightarrow> int \<Rightarrow> string" where
  "connName name ipPort k = name @ take 63 (''-'' @ ipPort @ ''#'' @ dec (nat k))"

text \<open>
  Runs in the base loop. The new object has address \<open>a\<close>, its empty context is \<open>x0\<close>, and \<open>ws\<close>
  are the answers of the kernel to the writes to come.
\<close>

definition newConnection ::
    "('x tcp_connection \<Rightarrow> 'x tcp_connection res) \<Rightarrow> 'x \<Rightarrow> nat \<Rightarrow> write_outcome list \<Rightarrow> int \<Rightarrow> sockaddr_in \<Rightarrow>
      'x server_sys \<Rightarrow> 'x server_sys res" where
  "newConnection cb x0 a ws sockfd peerAddr sy =
     (let srv = sy_server sy
      in bind_res (getNextLoop (sv_pool srv)) (\<lambda>(ioLoop, pool).
           if sv_nextConnId srv = 2 ^ 31 - 1 then Inl IntOverflow
           else
             let name = connName (sv_name srv) (sv_ipPort srv) (sv_nextConnId srv);
                 conn = \<lparr>sc_name = name, sc_loop = ioLoop,
                         sc_conn = new_connection x0 a sockfd (sy_pollers sy ioLoop) ws, sc_destroyed = False\<rparr>;
                 srv1 = srv\<lparr>sv_pool := pool, sv_nextConnId := sv_nextConnId srv + 1,
                            sv_connections := (sv_connections srv)(name \<mapsto> a)\<rparr>;
                 sy1 = sy\<lparr>sy_server := srv1, sy_conns := (sy_conns sy)(a \<mapsto> conn)\<rparr>
             in run_in_loop cb (sv_loop srv) ioLoop (TEstablish a) sy1))"

definition removeConnection ::
    "('x tcp_connection \<Rightarrow> 'x tcp_connection res) \<Rightarrow> nat \<Rightarrow> nat \<Rightarrow> 'x server_sys \<Rightarrow> 'x server_sys res" where
  "removeConnection cb t a sy = run_in_loop cb t (sv_loop (sy_server sy)) (TRemove a) sy"

text \<open>
  The event that closes a connection, in the thread of its loop: \<open>handleClose\<close>, whose last line
  calls \<open>removeConnection\<close>.
\<close>

definition close_event ::
    "('x tcp_connection \<Rightarrow> 'x tcp_connection res) \<Rightarrow> nat \<Rightarrow> 'x server_sys \<Rightarrow> 'x server_sys res" where
  "close_event cb a sy =
     (case sy_conns sy a of
        None \<Rightarrow> Inl NullDeref
      | Some sc \<Rightarrow> bind_res (on_conn (handleClose cb Inr) a sy) (removeConnection cb (sc_loop sc) a))"

text \<open>The destructor of the server, which goes over the table in the order \<open>as\<close>.\<close>

fun destroy_conns ::
    "('x tcp_connection \<Rightarrow> 'x tcp_connection res) \<Rightarrow> nat \<Rightarrow> nat list \<Rightarrow> 'x server_sys \<Rightarrow> 'x server_sys res" where
  "destroy_conns cb t [] sy = Inr sy"
| "destroy_conns cb t (a # as) sy =
     (case sy_conns sy a of
        None \<Rightarrow> Inl NullDeref
      | Some sc \<Rightarrow> bind_res (run_in_loop cb t (sc_loop sc) (TDestroy a) sy) (destroy_conns cb t as))"

section \<open>Runs\<close>

text \<open>
  One step of a thread: the base loop accepts, a loop runs the first of its queued functors, the
  peer of an established connection closes it, another event of a connection is handled, which may do
  anything the operations of \<open>TcpConnection\<close> do short of closing, or some thread starts the server or
  sets its number of threads.
\<close>

inductive server_step ::
    "('x tcp_connection \<Rightarrow> 'x tcp_connection res) \<Rightarrow> 'x server_sys \<Rightarrow> 'x server_sys \<Rightarrow> bool"
  for cb where
  accept: "ac_listenning (sy_acceptor sy) \<Longrightarrow> sy_conns sy a = None \<Longrightarrow>
    acceptor_handleRead (Some (newConnection cb x0 a ws)) peer0 r sy = Inr (sy', fds) \<Longrightarrow>
    server_step cb sy sy'"
| run: "sy_queues sy lp = task # tasks \<Longrightarrow>
    run_task cb task (sy\<lparr>sy_queues := (sy_queues sy)(lp := tasks)\<rparr>) = Inr sy' \<Longrightarrow> server_step cb sy sy'"
| close: "sy_conns sy a = Some sc \<Longrightarrow> cn_state (sc_conn sc) \<noteq> kConnecting \<Longrightarrow> \<not> sc_destroyed sc \<Longrightarrow>
    close_event cb a sy = Inr sy' \<Longrightarrow> server_step cb sy sy'"
| event: "sy_conns sy a = Some sc \<Longrightarrow> cn_state (sc_conn sc) \<noteq> kConnecting \<Longrightarrow> \<not> sc_destroyed sc \<Longrightarrow>
    conn_step (sc_conn sc) c \<Longrightarrow>
    cn_state c = kDisconnected \<longrightarrow> cn_state (sc_conn sc) = kDisconnected \<Longrightarrow>
    on_conn (\<lambda>_. Inr c) a sy = Inr sy' \<Longrightarrow> server_step cb sy sy'"
| start: "start_server cb startLoop hasInit t sy = Inr sy' \<Longrightarrow> server_step cb sy sy'"
| threads: "server_step cb sy (sy\<lparr>sy_server := server_setThreadNum n (sy_server sy)\<rparr>)"

section \<open>The invariant\<close>

definition names_ok :: "int \<Rightarrow> (int \<Rightarrow> string) \<Rightarrow> (nat \<rightharpoonup> 'x server_conn) \<Rightarrow> bool" where
  "names_ok k nm conns \<longleftrightarrow> 1 \<le> k \<and> k < 2 ^ 31 \<and>
     (\<forall>a sc. conns a = Some sc \<longrightarrow> (\<exists>i. 1 \<le> i \<and> i < k \<and> sc_name sc = nm i)) \<and>
     (\<forall>a b sc sd. conns a = Some sc \<longrightarrow> conns b = Some sd \<longrightarrow> sc_name sc = sc_name sd \<longrightarrow> a = b)"

definition conn_ok ::
    "nat \<Rightarrow> (string \<rightharpoonup> nat) \<Rightarrow> (nat \<Rightarrow> server_task list) \<Rightarrow> nat \<Rightarrow> 'x server_conn \<Rightarrow> bool" where
  "conn_ok base m q a sc \<longleftrightarrow> conn_inv (sc_conn sc) \<and>
     count_list (q (sc_loop sc)) (TEstablish a) = (if cn_state (sc_conn sc) = kConnecting then 1 else 0) \<and>
     (cn_state (sc_conn sc) \<noteq> kDisconnected \<longrightarrow> m (sc_name sc) = Some a) \<and>
     (m (sc_name sc) = Some a \<longrightarrow> \<not> sc_destroyed sc \<and>
        (cn_state (sc_conn sc) = kDisconnected \<longrightarrow> TRemove a \<in> set (q base))) \<and>
     (m (sc_name sc) \<noteq> Some a \<longrightarrow> TDestroy a \<in> set (q (sc_loop sc)) \<or> sc_destroyed sc)"

fun task_ok ::
    "nat \<Rightarrow> (string \<rightharpoonup> nat) \<Rightarrow> (nat \<rightharpoonup> 'x server_conn) \<Rightarrow> nat \<Rightarrow> server_task \<Rightarrow> bool" where
  "task_ok base m conns lp TListen = (lp = base)"
| "task_ok base m conns lp (TEstablish a) =
     (\<exists>sc. conns a = Some sc \<and> sc_loop sc = lp \<and> cn_state (sc_conn sc) = kConnecting)"
| "task_ok base m conns lp (TRemove a) =
     (lp = base \<and> (\<exists>sc. conns a = Some sc \<and> cn_state (sc_conn sc) = kDisconnected))"
| "task_ok base m conns lp (TDestroy a) =
     (\<exists>sc. conns a = Some sc \<and> sc_loop sc = lp \<and> cn_state (sc_conn sc) = kDisconnected \<and>
       m (sc_name sc) \<noteq> Some a)"

definition table_ok :: "(string \<rightharpoonup> nat) \<Rightarrow> (nat \<rightharpoonup> 'x server_conn) \<Rightarrow> bool" where
  "table_ok m conns \<longleftrightarrow> (\<forall>n a. m n = Some a \<longrightarrow> (\<exists>sc. conns a = Some sc \<and> sc_name sc = n))"

definition sys_ok ::
    "nat \<Rightarrow> (string \<rightharpoonup> nat) \<Rightarrow> (nat \<rightharpoonup> 'x server_conn) \<Rightarrow> (nat \<Rightarrow> server_task list) \<Rightarrow> bool" where
  "sys_ok base m conns q \<longleftrightarrow> table_ok m conns \<and>
     (\<forall>a sc. conns a = Some sc \<longrightarrow> conn_ok base m q a sc) \<and>
     (\<forall>lp. \<forall>t \<in> set (q lp). task_ok base m conns lp t)"

definition server_ok :: "'x server_sys \<Rightarrow> bool" where
  "server_ok sy \<longleftrightarrow>
     (let srv = sy_server sy
      in length (sv_ipPort srv) \<le> 21 \<and>
         names_ok (sv_nextConnId srv) (connName (sv_name srv) (sv_ipPort srv)) (sy_conns sy) \<and>
         sys_ok (sv_loop srv) (sv_connections srv) (sy_conns sy) (sy_queues sy))"


lemma sys_okI:
  assumes "table_ok m conns" "\<And>a sc. conns a = Some sc \<Longrightarrow> conn_ok base m q a sc"
    "\<And>lp t. t \<in> set (q lp) \<Longrightarrow> task_ok base m conns lp t"
  shows "sys_ok base m conns q"
  using assms by (simp add: sys_ok_def)

lemma sys_okD:
  assumes "sys_ok base m conns q"
  shows "table_ok m conns" "conns a = Some sc \<Longrightarrow> conn_ok base m q a sc"
    "t \<in> set (q lp) \<Longrightarrow> task_ok base m conns lp t"
  using assms by (simp_all add: sys_ok_def)

text \<open>The order of the tasks of a loop and a task that does not establish do not matter to the
  invariant.\<close>

lemma conn_ok_mono:
  assumes "conn_ok base m q a sc" "\<And>lp. set (q lp) \<inter> {TRemove a, TDestroy a} \<subseteq> set (q' lp)"
    "count_list (q' (sc_loop sc)) (TEstablish a) = count_list (q (sc_loop sc)) (TEstablish a)"
  shows "conn_ok base m q' a sc"
  using assms unfolding conn_ok_def by auto

lemma sys_ok_rotate:
  assumes "sys_ok base m conns (q(lp := t # ts))"
  shows "sys_ok base m conns (q(lp := ts @ [t]))"
proof (rule sys_okI)
  show "table_ok m conns" by (rule sys_okD [OF assms])
  show "conn_ok base m (q(lp := ts @ [t])) a sc" if "conns a = Some sc" for a sc
    by (rule conn_ok_mono [OF sys_okD(2) [OF assms that]]) auto
  show "task_ok base m conns l s" if "s \<in> set ((q(lp := ts @ [t])) l)" for l s
    by (rule sys_okD(3) [OF assms]) (use that in \<open>auto split: if_splits\<close>)
qed

lemma sys_ok_unrotate:
  assumes "sys_ok base m conns (q(lp := ts @ [t]))"
  shows "sys_ok base m conns (q(lp := t # ts))"
proof (rule sys_okI)
  show "table_ok m conns" by (rule sys_okD [OF assms])
  show "conn_ok base m (q(lp := t # ts)) a sc" if "conns a = Some sc" for a sc
    by (rule conn_ok_mono [OF sys_okD(2) [OF assms that]]) auto
  show "task_ok base m conns l s" if "s \<in> set ((q(lp := t # ts)) l)" for l s
    by (rule sys_okD(3) [OF assms]) (use that in \<open>auto split: if_splits\<close>)
qed

text \<open>Replacing the state of one connection, when its state is not the one that a task relies on.\<close>

lemma task_ok_update:
  assumes "task_ok base m conns lp t" "conns a = Some sc" "sc_name sc' = sc_name sc" "sc_loop sc' = sc_loop sc"
    "cn_state (sc_conn sc) = kDisconnected \<longrightarrow> cn_state (sc_conn sc') = kDisconnected"
    "cn_state (sc_conn sc) = kConnecting \<longrightarrow> cn_state (sc_conn sc') = kConnecting \<or> t \<noteq> TEstablish a"
  shows "task_ok base m (conns(a \<mapsto> sc')) lp t"
  using assms by (cases t) auto

lemma table_ok_update:
  "table_ok m conns \<Longrightarrow> conns a = Some sc \<Longrightarrow> sc_name sc' = sc_name sc \<Longrightarrow> table_ok m (conns(a \<mapsto> sc'))"
  unfolding table_ok_def by fastforce

lemma sys_ok_update:
  assumes "sys_ok base m conns q" "conns a = Some sc" "sc_name sc' = sc_name sc" "sc_loop sc' = sc_loop sc"
    "cn_state (sc_conn sc) = kDisconnected \<longrightarrow> cn_state (sc_conn sc') = kDisconnected"
    "cn_state (sc_conn sc) = kConnecting \<longrightarrow> cn_state (sc_conn sc') = kConnecting"
    "conn_ok base m q a sc'"
  shows "sys_ok base m (conns(a \<mapsto> sc')) q"
proof (rule sys_okI)
  show "table_ok m (conns(a \<mapsto> sc'))" using table_ok_update sys_okD(1) assms(1-3) by metis
  show "conn_ok base m q b sd" if "(conns(a \<mapsto> sc')) b = Some sd" for b sd
    using that assms(7) sys_okD(2) [OF assms(1)] by (auto split: if_splits)
  show "task_ok base m (conns(a \<mapsto> sc')) lp t" if "t \<in> set (q lp)" for lp t
    using task_ok_update [where sc' = sc', OF sys_okD(3) [OF assms(1) that] assms(2-4)] assms(5,6) by blast
qed

text \<open>The tasks one by one.\<close>

lemma sys_ok_establish:
  assumes ok: "sys_ok base m conns (q(lp := TEstablish a # ts))" and sc: "conns a = Some sc"
    and c: "conn_inv c" "cn_state c \<noteq> kConnecting" "cn_state c \<noteq> kDisconnected"
  shows "sys_ok base m (conns(a \<mapsto> sc\<lparr>sc_conn := c\<rparr>)) (q(lp := ts))"
proof (rule sys_okI)
  have "task_ok base m conns lp (TEstablish a)" by (rule sys_okD(3) [OF ok]) simp
  then have lp: "sc_loop sc = lp" "cn_state (sc_conn sc) = kConnecting" using sc by auto
  have a: "conn_ok base m (q(lp := TEstablish a # ts)) a sc" using sys_okD(2) [OF ok sc] .
  then have none: "TEstablish a \<notin> set ts" using lp by (simp add: conn_ok_def count_list_0_iff)
  show "table_ok m (conns(a \<mapsto> sc\<lparr>sc_conn := c\<rparr>))"
    by (rule table_ok_update [OF sys_okD(1) [OF ok] sc]) simp
  show "conn_ok base m (q(lp := ts)) b sd" if "(conns(a \<mapsto> sc\<lparr>sc_conn := c\<rparr>)) b = Some sd" for b sd
  proof (cases "b = a")
    case True
    with that have "sd = sc\<lparr>sc_conn := c\<rparr>" by simp
    then show ?thesis using a lp c none True by (simp add: conn_ok_def)
  next
    case False
    with that have "conn_ok base m (q(lp := TEstablish a # ts)) b sd" using sys_okD(2) [OF ok] by simp
    then show ?thesis by (rule conn_ok_mono) (use False in auto)
  qed
  show "task_ok base m (conns(a \<mapsto> sc\<lparr>sc_conn := c\<rparr>)) l t" if "t \<in> set ((q(lp := ts)) l)" for l t
  proof (rule task_ok_update [where conns = conns and a = a and sc = sc])
    show t: "task_ok base m conns l t" by (rule sys_okD(3) [OF ok]) (use that in \<open>auto split: if_splits\<close>)
    show "cn_state (sc_conn sc) = kConnecting \<longrightarrow>
        cn_state (sc_conn (sc\<lparr>sc_conn := c\<rparr>)) = kConnecting \<or> t \<noteq> TEstablish a"
      using that none t lp sc by (auto split: if_splits)
  qed (use lp sc in auto)
qed

lemma sys_ok_remove:
  assumes ok: "sys_ok base m conns (q(lp := TRemove a # ts))" and sc: "conns a = Some sc"
    and inj: "\<And>b sd. conns b = Some sd \<Longrightarrow> sc_name sd = sc_name sc \<Longrightarrow> b = a"
  shows "sys_ok base (m(sc_name sc := None)) conns
    ((q(lp := ts))(sc_loop sc := (q(lp := ts)) (sc_loop sc) @ [TDestroy a]))"
proof (rule sys_okI)
  let ?m = "m(sc_name sc := None)" and ?old = "q(lp := TRemove a # ts)"
    and ?q = "(q(lp := ts))(sc_loop sc := (q(lp := ts)) (sc_loop sc) @ [TDestroy a])"
  have "task_ok base m conns lp (TRemove a)" by (rule sys_okD(3) [OF ok]) simp
  then have st: "cn_state (sc_conn sc) = kDisconnected" using sc by simp
  show "table_ok ?m conns" using sys_okD(1) [OF ok] by (auto simp: table_ok_def)
  show "conn_ok base ?m ?q b sd" if sd: "conns b = Some sd" for b sd
  proof (cases "b = a")
    case True
    with sd sc st sys_okD(2) [OF ok sc] show ?thesis by (auto simp: conn_ok_def split: if_splits)
  next
    case False
    then have "sc_name sd \<noteq> sc_name sc" using inj sd by blast
    then have "?m (sc_name sd) = m (sc_name sd)" by simp
    with sys_okD(2) [OF ok sd] have "conn_ok base ?m ?old b sd"
      by (simp add: conn_ok_def del: fun_upd_apply)
    then show ?thesis by (rule conn_ok_mono) (use False in auto)
  qed
  show "task_ok base ?m conns l t" if mem: "t \<in> set (?q l)" for l t
  proof -
    consider "t = TDestroy a" "l = sc_loop sc" | "t \<in> set (?old l)"
      using mem by (cases "l = sc_loop sc"; cases "l = lp") auto
    then show ?thesis
    proof cases
      case 2
      from sys_okD(3) [OF ok this] show ?thesis by (cases t) auto
    qed (use sc st in simp)
  qed
qed

lemma sys_ok_destroy:
  assumes ok: "sys_ok base m conns (q(lp := TDestroy a # ts))" and sc: "conns a = Some sc"
    and c: "conn_inv c" "cn_state c = kDisconnected"
  shows "sys_ok base m (conns(a \<mapsto> sc\<lparr>sc_conn := c, sc_destroyed := True\<rparr>)) (q(lp := ts))"
proof (rule sys_okI)
  let ?sc = "sc\<lparr>sc_conn := c, sc_destroyed := True\<rparr>"
  have "task_ok base m conns lp (TDestroy a)" by (rule sys_okD(3) [OF ok]) simp
  then have st: "sc_loop sc = lp" "cn_state (sc_conn sc) = kDisconnected" "m (sc_name sc) \<noteq> Some a"
    using sc by auto
  show "table_ok m (conns(a \<mapsto> ?sc))" by (rule table_ok_update [OF sys_okD(1) [OF ok] sc]) simp
  show "conn_ok base m (q(lp := ts)) b sd" if "(conns(a \<mapsto> ?sc)) b = Some sd" for b sd
  proof (cases "b = a")
    case True
    with that st c sys_okD(2) [OF ok sc] show ?thesis by (auto simp: conn_ok_def)
  next
    case False
    with that have "conn_ok base m (q(lp := TDestroy a # ts)) b sd" using sys_okD(2) [OF ok] by simp
    then show ?thesis by (rule conn_ok_mono) (use False in auto)
  qed
  show "task_ok base m (conns(a \<mapsto> ?sc)) l t" if "t \<in> set ((q(lp := ts)) l)" for l t
  proof (rule task_ok_update [where conns = conns and a = a and sc = sc])
    show "task_ok base m conns l t" by (rule sys_okD(3) [OF ok]) (use that in \<open>auto split: if_splits\<close>)
  qed (use st c sc in auto)
qed

lemma sys_ok_create:
  assumes ok: "sys_ok base m conns q" and fresh: "conns a = None"
    and new: "m n = None" "sc_name sc = n" "cn_state (sc_conn sc) = kConnecting" "conn_inv (sc_conn sc)"
      "\<not> sc_destroyed sc"
  shows "sys_ok base (m(n \<mapsto> a)) (conns(a \<mapsto> sc)) (q(sc_loop sc := q (sc_loop sc) @ [TEstablish a]))"
proof (rule sys_okI)
  let ?q = "q(sc_loop sc := q (sc_loop sc) @ [TEstablish a])"
  have none: "TEstablish a \<notin> set (q lp)" for lp
    using sys_okD(3) [OF ok, of "TEstablish a" lp] fresh by auto
  show "table_ok (m(n \<mapsto> a)) (conns(a \<mapsto> sc))"
    using sys_okD(1) [OF ok] new(2) fresh by (fastforce simp: table_ok_def)
  show "conn_ok base (m(n \<mapsto> a)) ?q b sd" if sd: "(conns(a \<mapsto> sc)) b = Some sd" for b sd
  proof (cases "b = a")
    case True
    with sd have "sd = sc" by simp
    then show ?thesis using new none True by (simp add: conn_ok_def)
  next
    case False
    with sd have b: "conn_ok base m q b sd" using sys_okD(2) [OF ok] by simp
    have "(m(n \<mapsto> a)) (sc_name sd) = Some b \<longleftrightarrow> m (sc_name sd) = Some b"
      using False new(1) by auto
    with b have "conn_ok base (m(n \<mapsto> a)) q b sd"
      by (simp add: conn_ok_def del: fun_upd_apply)
    then show ?thesis by (rule conn_ok_mono) (use False in auto)
  qed
  show "task_ok base (m(n \<mapsto> a)) (conns(a \<mapsto> sc)) l t" if mem: "t \<in> set (?q l)" for l t
  proof -
    consider "t = TEstablish a" "l = sc_loop sc" | "t \<in> set (q l)" using mem by (cases "l = sc_loop sc") auto
    then show ?thesis
    proof cases
      case 2
      from sys_okD(3) [OF ok this] fresh new(1) show ?thesis by (cases t) auto
    qed (use new in simp)
  qed
qed

text \<open>A task that any number of times may be queued.\<close>

lemma sys_ok_queue:
  assumes ok: "sys_ok base m conns q" and t: "task_ok base m conns lp t" "\<And>a. t \<noteq> TEstablish a"
  shows "sys_ok base m conns (q(lp := q lp @ [t]))"
proof (rule sys_okI)
  show "table_ok m conns" by (rule sys_okD [OF ok])
  show "conn_ok base m (q(lp := q lp @ [t])) a sc" if "conns a = Some sc" for a sc
    by (rule conn_ok_mono [OF sys_okD(2) [OF ok that]]) (use t in auto)
  show "task_ok base m conns l s" if "s \<in> set ((q(lp := q lp @ [t])) l)" for l s
    using that sys_okD(3) [OF ok] t(1) by (auto split: if_splits)
qed

text \<open>Closing: the task that takes the connection out of the table is queued first.\<close>

lemma sys_ok_close:
  assumes ok: "sys_ok base m conns q" and sc: "conns a = Some sc" "cn_state (sc_conn sc) \<noteq> kConnecting"
    and c: "conn_inv c" "cn_state c = kDisconnected"
  shows "sys_ok base m (conns(a \<mapsto> sc\<lparr>sc_conn := c\<rparr>)) (q(base := q base @ [TRemove a]))"
proof (rule sys_okI)
  let ?sc = "sc\<lparr>sc_conn := c\<rparr>" and ?q = "q(base := q base @ [TRemove a])"
  show "table_ok m (conns(a \<mapsto> ?sc))" by (rule table_ok_update [OF sys_okD(1) [OF ok] sc(1)]) simp
  show "conn_ok base m ?q b sd" if sd: "(conns(a \<mapsto> ?sc)) b = Some sd" for b sd
  proof (cases "b = a")
    case True
    with sd have "sd = ?sc" by simp
    then show ?thesis using sys_okD(2) [OF ok sc(1)] sc c True by (auto simp: conn_ok_def)
  next
    case False
    with sd have "conn_ok base m q b sd" using sys_okD(2) [OF ok] by simp
    then show ?thesis by (rule conn_ok_mono) auto
  qed
  show "task_ok base m (conns(a \<mapsto> ?sc)) l t" if mem: "t \<in> set (?q l)" for l t
  proof -
    consider "t = TRemove a" "l = base" | "t \<in> set (q l)" using mem by (cases "l = base") auto
    then show ?thesis
    proof cases
      case 2
      show ?thesis
        by (rule task_ok_update [where conns = conns and a = a and sc = sc])
          (use sys_okD(3) [OF ok 2] sc c in auto)
    qed (use c in simp)
  qed
qed

section \<open>Names\<close>

lemma length_connName_suffix:
  assumes "length ipPort \<le> 21" "k < 2 ^ 31"
  shows "length (''-'' @ ipPort @ ''#'' @ dec (nat k)) \<le> 63"
proof -
  have "length (dec (nat k)) \<le> 10" using assms(2) by (intro length_dec) auto
  with assms(1) show ?thesis by simp
qed

lemma connName_inject:
  assumes "length ipPort \<le> 21" "1 \<le> i" "i < 2 ^ 31" "1 \<le> j" "j < 2 ^ 31"
    "connName name ipPort i = connName name ipPort j"
  shows "i = j"
  using assms length_connName_suffix [of ipPort i] length_connName_suffix [of ipPort j]
  by (simp add: connName_def dec_inject)

lemma names_ok_update:
  "names_ok k nm conns \<Longrightarrow> conns a = Some sc \<Longrightarrow> sc_name sc' = sc_name sc \<Longrightarrow> names_ok k nm (conns(a \<mapsto> sc'))"
  unfolding names_ok_def by (auto split: if_splits)

lemma names_ok_create:
  assumes "names_ok k (connName name ipPort) conns" "length ipPort \<le> 21" "k < 2 ^ 31 - 1" "conns a = None"
    "sc_name sc = connName name ipPort k"
  shows "names_ok (k + 1) (connName name ipPort) (conns(a \<mapsto> sc))"
    "conns b = Some sd \<Longrightarrow> sc_name sd \<noteq> connName name ipPort k"
proof -
  have other: "sc_name sd \<noteq> connName name ipPort k" if sd: "conns b = Some sd" for b sd
  proof
    assume eq: "sc_name sd = connName name ipPort k"
    obtain i where "1 \<le> i" "i < k" "sc_name sd = connName name ipPort i"
      using assms(1) sd unfolding names_ok_def by blast
    with eq assms(2,3) connName_inject [of ipPort i k name] show False by simp
  qed
  then show "conns b = Some sd \<Longrightarrow> sc_name sd \<noteq> connName name ipPort k" .
  have "\<exists>i. 1 \<le> i \<and> i < k + 1 \<and> sc_name sd = connName name ipPort i"
    if "(conns(a \<mapsto> sc)) b = Some sd" for b sd
    using that assms(1,5) unfolding names_ok_def by (fastforce split: if_splits)
  moreover have "b = d" if "(conns(a \<mapsto> sc)) b = Some sb" "(conns(a \<mapsto> sc)) d = Some sd" "sc_name sb = sc_name sd"
    for b d sb sd
    using that other assms(1,5) unfolding names_ok_def by (fastforce split: if_splits)
  moreover have "1 \<le> k + 1" "k + 1 < 2 ^ 31" using assms(1,3) by (simp_all add: names_ok_def)
  ultimately show "names_ok (k + 1) (connName name ipPort) (conns(a \<mapsto> sc))"
    unfolding names_ok_def by blast
qed

section \<open>The steps keep the invariant\<close>

text \<open>
  The contract of the connection callback: it acts on the connection through its operations, none of
  which closes it.
\<close>

locale server_client =
  fixes cb :: "'x tcp_connection \<Rightarrow> 'x tcp_connection res"
  assumes cb_step: "cb c = Inr c' \<Longrightarrow> conn_step c c'"
    and cb_open: "cb c = Inr c' \<Longrightarrow> cn_state c' = kDisconnected \<Longrightarrow> cn_state c = kDisconnected"

sublocale server_client \<subseteq> conn: conn_client cb "\<lambda>t c. Inr c" Inr
  by unfold_locales (use cb_step in auto)

lemma conn_step_state:
  "conn_step c c' \<Longrightarrow> conn_inv c \<Longrightarrow> cn_state c = kDisconnected \<Longrightarrow> cn_state c' = kDisconnected"
  "conn_step c c' \<Longrightarrow> conn_inv c \<Longrightarrow> cn_state c' = kConnecting \<Longrightarrow> cn_state c = kConnecting"
  by (cases "cn_state c'"; cases "cn_state c"; auto simp: conn_step_def conn_le_def)+

lemma poller_step [inv_intro]: "conn_step c (c\<lparr>lp_poller := p\<rparr>)"
  by (simp add: conn_step_def conn_inv_def conn_le_def stream_def)

lemma on_conn_InrE:
  assumes "on_conn f a sy = Inr sy'"
  obtains sc c where "sy_conns sy a = Some sc"
    "f ((sc_conn sc)\<lparr>lp_poller := sy_pollers sy (sc_loop sc)\<rparr>) = Inr c"
    "sy' = sy\<lparr>sy_conns := (sy_conns sy)(a \<mapsto> sc\<lparr>sc_conn := c\<rparr>),
              sy_pollers := (sy_pollers sy)(sc_loop sc := lp_poller c)\<rparr>"
  using assms by (auto simp: on_conn_def bind_res_eq_Inr_iff split: option.splits)

context server_client begin

lemma established:
  assumes "cn_state c = kConnecting" "conn_inv c" "connectEstablished cb c = Inr c'"
  shows "conn_inv c'" "cn_state c' \<noteq> kConnecting" "cn_state c' \<noteq> kDisconnected"
proof -
  let ?c1 = "chan_do enableReading ((setState c kConnected)\<lparr>cn_channel := tie (cn_channel c)\<rparr>)"
  have c1: "conn_inv ?c1" using conn_stepD [OF establish_step [OF assms(1)] assms(2)] ..
  have "cb ?c1 = Inr c'" using assms(3) by (simp add: connectEstablished_def Let_def)
  from cb_step [OF this] cb_open [OF this] c1
  show "conn_inv c'" "cn_state c' \<noteq> kConnecting" "cn_state c' \<noteq> kDisconnected"
    using conn_step_state(2) [of ?c1 c'] by (auto dest: conn_stepD)
qed

lemma closed:
  assumes "conn_inv c" "handleClose cb Inr c = Inr c'"
  shows "conn_inv c'" "cn_state c' = kDisconnected"
proof -
  let ?c1 = "chan_do disableAll (setState c kDisconnected)"
  have c1: "conn_inv ?c1" using conn_stepD [OF disconnect_step assms(1)] ..
  have "cb ?c1 = Inr c'" using assms(2) by (auto simp: handleClose_def bind_res_eq_Inr_iff)
  from cb_step [OF this] c1 show "conn_inv c'" "cn_state c' = kDisconnected"
    using conn_step_state(1) [of ?c1 c'] by (auto dest: conn_stepD)
qed

lemma destroyed:
  assumes "conn_inv c" "cn_state c = kDisconnected" "connectDestroyed cb c = Inr c'"
  shows "conn_inv c'" "cn_state c' = kDisconnected"
  using conn.connectDestroyed_step [OF assms(3)] assms(1,2) conn_step_state(1) [of c c']
  by (auto dest: conn_stepD)

end

lemma server_okI:
  assumes "length (sv_ipPort (sy_server sy)) \<le> 21"
    "names_ok (sv_nextConnId (sy_server sy)) (connName (sv_name (sy_server sy)) (sv_ipPort (sy_server sy))) (sy_conns sy)"
    "sys_ok (sv_loop (sy_server sy)) (sv_connections (sy_server sy)) (sy_conns sy) (sy_queues sy)"
  shows "server_ok sy"
  using assms by (simp add: server_ok_def Let_def)

lemma server_okD:
  assumes "server_ok sy"
  shows "length (sv_ipPort (sy_server sy)) \<le> 21"
    "names_ok (sv_nextConnId (sy_server sy)) (connName (sv_name (sy_server sy)) (sv_ipPort (sy_server sy))) (sy_conns sy)"
    "sys_ok (sv_loop (sy_server sy)) (sv_connections (sy_server sy)) (sy_conns sy) (sy_queues sy)"
  using assms by (simp_all add: server_ok_def Let_def)

lemma server_ok_conn: "server_ok sy \<Longrightarrow> sy_conns sy a = Some sc \<Longrightarrow> conn_inv (sc_conn sc)"
  using sys_okD(2) [OF server_okD(3)] by (fastforce simp: conn_ok_def)

lemma names_ok_inject:
  "names_ok k nm conns \<Longrightarrow> conns a = Some sc \<Longrightarrow> conns b = Some sd \<Longrightarrow> sc_name sc = sc_name sd \<Longrightarrow> a = b"
  unfolding names_ok_def by blast

text \<open>Running the first task of a loop.\<close>

context server_client begin

lemma run_task_ok:
  assumes ok: "server_ok (sy\<lparr>sy_queues := (sy_queues sy)(lp := task # sy_queues sy lp)\<rparr>)"
    and run: "run_task cb task sy = Inr sy'"
  shows "server_ok sy'"
proof -
  let ?srv = "sy_server sy" and ?conns = "sy_conns sy" and ?q = "(sy_queues sy)(lp := sy_queues sy lp)"
  have ip: "length (sv_ipPort ?srv) \<le> 21"
    and nm: "names_ok (sv_nextConnId ?srv) (connName (sv_name ?srv) (sv_ipPort ?srv)) ?conns"
    and so: "sys_ok (sv_loop ?srv) (sv_connections ?srv) ?conns ((sy_queues sy)(lp := task # sy_queues sy lp))"
    using server_okD [OF ok] by simp_all
  have t: "task_ok (sv_loop ?srv) (sv_connections ?srv) ?conns lp task" by (rule sys_okD(3) [OF so]) simp
  show ?thesis
  proof (cases task)
    case TListen
    have "sys_ok (sv_loop ?srv) (sv_connections ?srv) ?conns ?q"
    proof (rule sys_okI)
      show "conn_ok (sv_loop ?srv) (sv_connections ?srv) ?q a sc" if "?conns a = Some sc" for a sc
        by (rule conn_ok_mono [OF sys_okD(2) [OF so that]]) (auto simp: TListen)
      show "task_ok (sv_loop ?srv) (sv_connections ?srv) ?conns l t" if "t \<in> set (?q l)" for l t
        by (rule sys_okD(3) [OF so]) (use that in auto)
    qed (rule sys_okD [OF so])
    with TListen run ip nm show ?thesis
      by (auto simp: server_ok_def server_listen_def Let_def split: prod.splits)
  next
    case (TEstablish a)
    with run obtain sc c where sc: "?conns a = Some sc"
      and c: "connectEstablished cb ((sc_conn sc)\<lparr>lp_poller := sy_pollers sy (sc_loop sc)\<rparr>) = Inr c"
      and sy': "sy' = sy\<lparr>sy_conns := ?conns(a \<mapsto> sc\<lparr>sc_conn := c\<rparr>), sy_pollers := (sy_pollers sy)(sc_loop sc := lp_poller c)\<rparr>"
      by (auto elim!: on_conn_InrE)
    have inv: "conn_inv (sc_conn sc)" using server_ok_conn [OF ok] sc by simp
    have "conn_inv c \<and> cn_state c \<noteq> kConnecting \<and> cn_state c \<noteq> kDisconnected"
      using established [OF _ _ c] conn_stepD [OF poller_step inv] t sc TEstablish by auto
    then have "sys_ok (sv_loop ?srv) (sv_connections ?srv) (?conns(a \<mapsto> sc\<lparr>sc_conn := c\<rparr>)) ?q"
      using sys_ok_establish so sc TEstablish by blast
    with sy' ip names_ok_update [OF nm sc] show ?thesis by (simp add: server_ok_def)
  next
    case (TRemove a)
    with t obtain sc where sc: "?conns a = Some sc" by auto
    have "sys_ok (sv_loop ?srv) ((sv_connections ?srv)(sc_name sc := None)) ?conns
        (?q(sc_loop sc := ?q (sc_loop sc) @ [TDestroy a]))"
      using sys_ok_remove [OF so [unfolded TRemove] sc] names_ok_inject [OF nm _ sc] by blast
    with run sc TRemove ip nm show ?thesis
      by (auto simp: server_ok_def removeConnectionInLoop_def queue_task_def Let_def)
  next
    case (TDestroy a)
    with run obtain sc c where sc: "?conns a = Some sc"
      and c: "connectDestroyed cb ((sc_conn sc)\<lparr>lp_poller := sy_pollers sy (sc_loop sc)\<rparr>) = Inr c"
      and sy': "sy' = set_destroyed a
         (sy\<lparr>sy_conns := ?conns(a \<mapsto> sc\<lparr>sc_conn := c\<rparr>), sy_pollers := (sy_pollers sy)(sc_loop sc := lp_poller c)\<rparr>)"
      by (auto simp: bind_res_eq_Inr_iff elim!: on_conn_InrE)
    have inv: "conn_inv (sc_conn sc)" using server_ok_conn [OF ok] sc by simp
    have "conn_inv c \<and> cn_state c = kDisconnected"
      using destroyed [OF _ _ c] conn_stepD [OF poller_step inv] t sc TDestroy by auto
    then have "sys_ok (sv_loop ?srv) (sv_connections ?srv)
        (?conns(a \<mapsto> sc\<lparr>sc_conn := c, sc_destroyed := True\<rparr>)) ?q"
      using sys_ok_destroy so sc TDestroy by blast
    with sy' ip names_ok_update [OF nm sc] show ?thesis by (simp add: server_ok_def set_destroyed_def)
  qed
qed

lemma run_in_loop_ok:
  assumes "server_ok (queue_task lp task sy)" "run_in_loop cb t lp task sy = Inr sy'"
  shows "server_ok sy'"
proof (cases "t = lp")
  case True
  have "server_ok (sy\<lparr>sy_queues := (sy_queues sy)(lp := task # sy_queues sy lp)\<rparr>)"
    using server_okD [OF assms(1)] sys_ok_unrotate by (intro server_okI) (simp_all add: queue_task_def)
  with run_task_ok True assms(2) show ?thesis by (auto simp: run_in_loop_def)
qed (use assms in \<open>simp add: run_in_loop_def\<close>)

end

lemma newConnection_InrE:
  assumes "newConnection cb x0 a ws fd peer sy = Inr sy'"
  obtains ioLoop pool srv name where "srv = sy_server sy" "getNextLoop (sv_pool srv) = Inr (ioLoop, pool)"
    "sv_nextConnId srv \<noteq> 2 ^ 31 - 1" "name = connName (sv_name srv) (sv_ipPort srv) (sv_nextConnId srv)"
    "run_in_loop cb (sv_loop srv) ioLoop (TEstablish a)
       (sy\<lparr>sy_server := srv\<lparr>sv_pool := pool, sv_nextConnId := sv_nextConnId srv + 1,
                             sv_connections := (sv_connections srv)(name \<mapsto> a)\<rparr>,
           sy_conns := (sy_conns sy)(a \<mapsto> \<lparr>sc_name = name, sc_loop = ioLoop,
             sc_conn = new_connection x0 a fd (sy_pollers sy ioLoop) ws, sc_destroyed = False\<rparr>)\<rparr>) = Inr sy'"
proof -
  obtain ioLoop pool where lp: "getNextLoop (sv_pool (sy_server sy)) = Inr (ioLoop, pool)"
    using assms by (cases "getNextLoop (sv_pool (sy_server sy))") (auto simp: newConnection_def Let_def)
  show thesis by (rule that [OF refl lp _ refl]) (use assms lp in \<open>auto simp: newConnection_def Let_def split: if_splits\<close>)
qed

context server_client begin

lemma newConnection_ok:
  assumes ok: "server_ok sy" and fresh: "sy_conns sy a = None"
    and new: "newConnection cb x0 a ws fd peer sy = Inr sy'"
  shows "server_ok sy'"
proof -
  let ?srv = "sy_server sy"
  let ?n = "connName (sv_name ?srv) (sv_ipPort ?srv) (sv_nextConnId ?srv)"
  obtain ioLoop pool where max: "sv_nextConnId ?srv \<noteq> 2 ^ 31 - 1" and
      run: "run_in_loop cb (sv_loop ?srv) ioLoop (TEstablish a)
       (sy\<lparr>sy_server := ?srv\<lparr>sv_pool := pool, sv_nextConnId := sv_nextConnId ?srv + 1,
                             sv_connections := (sv_connections ?srv)(?n \<mapsto> a)\<rparr>,
           sy_conns := (sy_conns sy)(a \<mapsto> \<lparr>sc_name = ?n, sc_loop = ioLoop,
             sc_conn = new_connection x0 a fd (sy_pollers sy ioLoop) ws, sc_destroyed = False\<rparr>)\<rparr>) = Inr sy'"
    by (rule newConnection_InrE [OF new]) blast
  let ?sc = "\<lparr>sc_name = ?n, sc_loop = ioLoop, sc_conn = new_connection x0 a fd (sy_pollers sy ioLoop) ws,
      sc_destroyed = False\<rparr>"
  let ?srv1 = "?srv\<lparr>sv_pool := pool, sv_nextConnId := sv_nextConnId ?srv + 1,
      sv_connections := (sv_connections ?srv)(?n \<mapsto> a)\<rparr>"
  let ?sy1 = "sy\<lparr>sy_server := ?srv1, sy_conns := (sy_conns sy)(a \<mapsto> ?sc)\<rparr>"
  have "sv_nextConnId ?srv < 2 ^ 31" using server_okD(2) [OF ok] by (simp add: names_ok_def)
  with max have lt: "sv_nextConnId ?srv < 2 ^ 31 - 1" by simp
  have names: "names_ok (sv_nextConnId ?srv + 1) (connName (sv_name ?srv) (sv_ipPort ?srv)) ((sy_conns sy)(a \<mapsto> ?sc))"
    by (rule names_ok_create(1) [OF server_okD(2,1) [OF ok] lt fresh]) simp
  have "sc_name sd \<noteq> ?n" if "sy_conns sy b = Some sd" for b sd
    using names_ok_create(2) [OF server_okD(2,1) [OF ok] lt fresh _ that, of ?sc] by simp
  then have "sv_connections ?srv ?n = None"
    using sys_okD(1) [OF server_okD(3) [OF ok]] unfolding table_ok_def by (metis not_Some_eq)
  then have "sys_ok (sv_loop ?srv) ((sv_connections ?srv)(?n \<mapsto> a)) ((sy_conns sy)(a \<mapsto> ?sc))
      ((sy_queues sy)(sc_loop ?sc := sy_queues sy (sc_loop ?sc) @ [TEstablish a]))"
    by (intro sys_ok_create [OF server_okD(3) [OF ok] fresh]) (simp_all add: new_connection_inv)
  with names server_okD(1) [OF ok] have "server_ok (queue_task ioLoop (TEstablish a) ?sy1)"
    by (intro server_okI) (simp_all add: queue_task_def)
  with run_in_loop_ok run show ?thesis by blast
qed

lemma close_event_ok:
  assumes ok: "server_ok sy" and sc: "sy_conns sy a = Some sc" "cn_state (sc_conn sc) \<noteq> kConnecting"
    and close: "close_event cb a sy = Inr sy'"
  shows "server_ok sy'"
proof -
  let ?srv = "sy_server sy"
  from close sc(1) obtain sy1 where sy1: "on_conn (handleClose cb Inr) a sy = Inr sy1"
      "removeConnection cb (sc_loop sc) a sy1 = Inr sy'"
    by (auto simp: close_event_def bind_res_eq_Inr_iff)
  from sy1(1) sc(1) obtain c where
      c: "handleClose cb Inr ((sc_conn sc)\<lparr>lp_poller := sy_pollers sy (sc_loop sc)\<rparr>) = Inr c"
      and eq: "sy1 = sy\<lparr>sy_conns := (sy_conns sy)(a \<mapsto> sc\<lparr>sc_conn := c\<rparr>),
          sy_pollers := (sy_pollers sy)(sc_loop sc := lp_poller c)\<rparr>"
    by (auto elim!: on_conn_InrE)
  have "conn_inv c" "cn_state c = kDisconnected"
    using closed [OF _ c] conn_stepD [OF poller_step server_ok_conn [OF ok sc(1)]] by auto
  then have "sys_ok (sv_loop ?srv) (sv_connections ?srv) ((sy_conns sy)(a \<mapsto> sc\<lparr>sc_conn := c\<rparr>))
      ((sy_queues sy)(sv_loop ?srv := sy_queues sy (sv_loop ?srv) @ [TRemove a]))"
    using sys_ok_close [OF server_okD(3) [OF ok] sc] by blast
  with server_okD(1,2) [OF ok] names_ok_update [OF server_okD(2) [OF ok] sc(1)]
  have "server_ok (queue_task (sv_loop ?srv) (TRemove a) sy1)"
    by (intro server_okI) (simp_all add: queue_task_def eq)
  with run_in_loop_ok sy1(2) show ?thesis by (auto simp: removeConnection_def eq)
qed

lemma event_ok:
  assumes ok: "server_ok sy" and sc: "sy_conns sy a = Some sc" "cn_state (sc_conn sc) \<noteq> kConnecting"
    and c: "conn_step (sc_conn sc) c" "cn_state c = kDisconnected \<longrightarrow> cn_state (sc_conn sc) = kDisconnected"
    and ev: "on_conn (\<lambda>_. Inr c) a sy = Inr sy'"
  shows "server_ok sy'"
proof -
  let ?srv = "sy_server sy" and ?sc = "sc\<lparr>sc_conn := c\<rparr>"
  have eq: "sy' = sy\<lparr>sy_conns := (sy_conns sy)(a \<mapsto> ?sc), sy_pollers := (sy_pollers sy)(sc_loop sc := lp_poller c)\<rparr>"
    using ev sc(1) by (auto elim!: on_conn_InrE)
  have inv: "conn_inv (sc_conn sc)" by (rule server_ok_conn [OF ok sc(1)])
  have st: "conn_inv c" "cn_state c \<noteq> kConnecting"
      "cn_state (sc_conn sc) = kDisconnected \<longleftrightarrow> cn_state c = kDisconnected"
    using conn_stepD [OF c(1) inv] conn_step_state [OF c(1) inv] sc(2) c(2) by auto
  have "conn_ok (sv_loop ?srv) (sv_connections ?srv) (sy_queues sy) a ?sc"
    using sys_okD(2) [OF server_okD(3) [OF ok] sc(1)] st sc(2) by (simp add: conn_ok_def)
  then have "sys_ok (sv_loop ?srv) (sv_connections ?srv) ((sy_conns sy)(a \<mapsto> ?sc)) (sy_queues sy)"
    by (intro sys_ok_update [OF server_okD(3) [OF ok] sc(1)]) (use st sc(2) in simp_all)
  with server_okD(1) [OF ok] names_ok_update [OF server_okD(2) [OF ok] sc(1), of ?sc] show ?thesis
    by (intro server_okI) (simp_all add: eq)
qed

lemma start_server_ok:
  assumes "server_ok sy" "start_server cb startLoop hasInit t sy = Inr sy'"
  shows "server_ok sy'"
proof (cases "sv_started (sy_server sy) = 0")
  case True
  let ?srv = "sy_server sy"
  let ?srv2 = "?srv\<lparr>sv_started := sv_started ?srv + 1, sv_pool := fst (start_pool startLoop hasInit (sv_pool ?srv))\<rparr>"
  have "sys_ok (sv_loop ?srv) (sv_connections ?srv) (sy_conns sy)
      ((sy_queues sy)(sv_loop ?srv := sy_queues sy (sv_loop ?srv) @ [TListen]))"
    by (rule sys_ok_queue [OF server_okD(3) [OF assms(1)]]) simp_all
  with server_okD [OF assms(1)] have "server_ok (queue_task (sv_loop ?srv) TListen (sy\<lparr>sy_server := ?srv2\<rparr>))"
    by (intro server_okI) (simp_all add: queue_task_def)
  with run_in_loop_ok assms(2) True show ?thesis by (auto simp: start_server_def Let_def)
next
  case False
  with assms server_okD [OF assms(1)] show ?thesis by (auto simp: start_server_def Let_def intro!: server_okI)
qed

lemma server_step_ok: "server_step cb sy sy' \<Longrightarrow> server_ok sy \<Longrightarrow> server_ok sy'"
proof (induction rule: server_step.induct)
  case (accept sy x0 a ws peer0 r sy' fds)
  then show ?case
    by (auto simp: acceptor_handleRead_def socket_accept_def bind_res_eq_Inr_iff
        split: sum.splits intro: newConnection_ok)
next
  case (run sy lp task tasks sy')
  have "sy\<lparr>sy_queues := (sy_queues sy)(lp := tasks)\<rparr>\<lparr>sy_queues := ((sy_queues sy)(lp := tasks))(lp := task # tasks)\<rparr> = sy"
    using run(1) by (metis fun_upd_triv fun_upd_upd server_sys.surjective server_sys.update_convs(4))
  with run run_task_ok [of "sy\<lparr>sy_queues := (sy_queues sy)(lp := tasks)\<rparr>" lp task sy'] show ?case by simp
next
  case (close sy a sc sy')
  then show ?case using close_event_ok by blast
next
  case (event sy a sc c sy')
  then show ?case using event_ok by blast
next
  case (start startLoop hasInit t sy sy')
  then show ?case using start_server_ok by blast
next
  case (threads sy n)
  then show ?case by (simp add: server_ok_def server_setThreadNum_def Let_def)
qed

lemma server_steps_ok: "(server_step cb)\<^sup>*\<^sup>* sy sy' \<Longrightarrow> server_ok sy \<Longrightarrow> server_ok sy'"
  by (induction rule: rtranclp_induct) (auto intro: server_step_ok)

end

lemma new_system_ok:
  assumes "new_system loop addr name reuse ptr fd = Inr sy"
  shows "server_ok sy"
proof -
  have "length (toIp addr @ '':'' @ dec (unat (toPort addr))) \<le> 21"
    using length_toIp [of addr] length_dec_port [of "toPort addr"] by simp
  with assms show ?thesis
    by (auto simp: new_system_def new_server_def toIpPort_def Let_def server_ok_def names_ok_def sys_ok_def
        table_ok_def bind_res_eq_Inr_iff split: if_splits)
qed

section \<open>The HTTP server's callback\<close>

interpretation http_conn: server_client onConnection
  by unfold_locales (auto simp: onConnection_def intro: inv_intro split: if_splits)

lemma http_server_ok:
  "new_system loop addr name reuse ptr fd = Inr sy0 \<Longrightarrow> (server_step onConnection)\<^sup>*\<^sup>* sy0 sy \<Longrightarrow> server_ok sy"
  using http_conn.server_steps_ok new_system_ok by blast

text \<open>A server without threads, in whose table there is one connection.\<close>

lemma start_and_accept:
  fixes a :: nat and fd :: int
  assumes "new_system lp addr name reuse ptr lfd = Inr (sy0 :: http_context option server_sys)"
  shows "\<exists>sy1 sy n sc. start_server onConnection id False lp sy0 = Inr sy1 \<and> ac_listenning (sy_acceptor sy1) \<and>
    sy_conns sy1 = Map.empty \<and> ch_fd (ac_channel (sy_acceptor sy1)) = lfd \<and>
    newConnection onConnection None a [] fd addr sy1 = Inr sy \<and> sy_queues sy = (\<lambda>_. []) \<and>
    sy_conns sy = [a \<mapsto> sc] \<and> sv_connections (sy_server sy) = [n \<mapsto> a] \<and> ac_listenning (sy_acceptor sy) \<and>
    sv_pool (sy_server sy) = sv_pool (sy_server sy0)\<lparr>tp_started := True\<rparr> \<and> sv_nextConnId (sy_server sy) = 2"
proof -
  define sy1 where "sy1 = server_listen (sy0\<lparr>sy_server := (sy_server sy0)\<lparr>sv_started := 1,
      sv_pool := (sv_pool (sy_server sy0))\<lparr>tp_started := True\<rparr>\<rparr>\<rparr>)"
  have sv: "sv_loop (sy_server sy0) = lp" "sv_started (sy_server sy0) = 0" "sv_nextConnId (sy_server sy0) = 1"
      "sv_connections (sy_server sy0) = Map.empty" "sy_conns sy0 = Map.empty" "sy_queues sy0 = (\<lambda>_. [])"
      "sv_pool (sy_server sy0) = new_pool lp name"
    using assms by (auto simp: new_system_def new_server_def bind_res_eq_Inr_iff)
  have step1: "start_server onConnection id False lp sy0 = Inr sy1"
    by (simp add: start_server_def run_in_loop_def sv start_pool_def new_pool_def sy1_def Let_def)
  have "ch_fd (ac_channel (sy_acceptor sy0)) = lfd"
    using assms by (auto simp: new_system_def new_acceptor_def bind_res_eq_Inr_iff)
  then have lfd: "ch_fd (ac_channel (sy_acceptor sy1)) = lfd"
    by (simp add: sy1_def server_listen_def acceptor_listen_def acceptor_do_def enableReading_def
        updateChannel_def Let_def split: if_splits)
  have l1: "ac_listenning (sy_acceptor sy1)" "sy_conns sy1 = Map.empty" "sy_queues sy1 = (\<lambda>_. [])"
      "sv_loop (sy_server sy1) = lp" "sv_pool (sy_server sy1) = (new_pool lp name)\<lparr>tp_started := True\<rparr>"
      "sv_nextConnId (sy_server sy1) = 1" "sv_connections (sy_server sy1) = Map.empty"
    by (auto simp: sy1_def server_listen_def acceptor_listen_def acceptor_do_def sv Let_def split: prod.splits)
  let ?nc = "new_connection None a fd (sy_pollers sy1 lp) [] :: http_connection"
  obtain c where c: "connectEstablished onConnection ?nc = Inr c"
    using established_live [of None a fd "sy_pollers sy1 lp" "[]"] by blast
  have same: "?nc\<lparr>lp_poller := sy_pollers sy1 lp\<rparr> = ?nc" by (simp add: new_connection_def)
  let ?n = "connName (sv_name (sy_server sy1)) (sv_ipPort (sy_server sy1)) 1"
  have "\<exists>sy. newConnection onConnection None a [] fd addr sy1 = Inr sy \<and> sy_queues sy = (\<lambda>_. []) \<and>
      (\<exists>sc. sy_conns sy = [a \<mapsto> sc]) \<and> sv_connections (sy_server sy) = [?n \<mapsto> a] \<and> ac_listenning (sy_acceptor sy) \<and>
      sv_pool (sy_server sy) = (new_pool lp name)\<lparr>tp_started := True\<rparr> \<and> sv_nextConnId (sy_server sy) = 2"
    by (simp add: newConnection_def getNextLoop_def new_pool_def l1 run_in_loop_def on_conn_def same c Let_def) blast
  then obtain sy sc where sy: "newConnection onConnection None a [] fd addr sy1 = Inr sy" "sy_queues sy = (\<lambda>_. [])"
      "sy_conns sy = [a \<mapsto> sc]" "sv_connections (sy_server sy) = [?n \<mapsto> a]" "ac_listenning (sy_acceptor sy)"
      "sv_pool (sy_server sy) = (new_pool lp name)\<lparr>tp_started := True\<rparr>" "sv_nextConnId (sy_server sy) = 2"
    by blast
  with step1 l1(1,2) lfd show ?thesis unfolding sv(7) by blast
qed

lemma one_connection_run:
  fixes a :: nat and fd :: int
  assumes "new_system lp addr name reuse ptr lfd = Inr (sy0 :: http_context option server_sys)"
  shows "\<exists>sy n sc. (server_step onConnection)\<^sup>*\<^sup>* sy0 sy \<and> sy_queues sy = (\<lambda>_. []) \<and>
    sy_conns sy = [a \<mapsto> sc] \<and> sv_connections (sy_server sy) = [n \<mapsto> a] \<and> ac_listenning (sy_acceptor sy) \<and>
    sv_pool (sy_server sy) = sv_pool (sy_server sy0)\<lparr>tp_started := True\<rparr> \<and> sv_nextConnId (sy_server sy) = 2"
proof -
  from start_and_accept [OF assms, of a fd] obtain sy1 sy n sc where
      sy1: "start_server onConnection id False lp sy0 = Inr sy1" "ac_listenning (sy_acceptor sy1)"
        "sy_conns sy1 = Map.empty" "newConnection onConnection None a [] fd addr sy1 = Inr sy" and
      sy: "sy_queues sy = (\<lambda>_. [])" "sy_conns sy = [a \<mapsto> sc]" "sv_connections (sy_server sy) = [n \<mapsto> a]"
        "ac_listenning (sy_acceptor sy)" "sv_pool (sy_server sy) = sv_pool (sy_server sy0)\<lparr>tp_started := True\<rparr>"
        "sv_nextConnId (sy_server sy) = 2"
    by blast
  have "server_step onConnection sy1 sy"
    by (rule server_step.accept [where ?x0.0 = None and a = a and ws = "[]" and r = "Inr (fd, addr)" and ?peer0.0 = addr])
      (simp_all add: sy1 acceptor_handleRead_def socket_accept_def)
  then have "(server_step onConnection)\<^sup>*\<^sup>* sy0 sy"
    using server_step.start [OF sy1(1)] by (meson converse_rtranclp_into_rtranclp r_into_rtranclp)
  with sy show ?thesis by blast
qed

lemma idle_open:
  assumes "server_ok sy" "sy_queues sy = (\<lambda>_. [])" "sy_conns sy = [a \<mapsto> sc]" "sv_connections (sy_server sy) = [n \<mapsto> a]"
  shows "cn_state (sc_conn sc) \<in> {kConnected, kDisconnecting}" "\<not> sc_destroyed sc"
proof -
  note ok = server_okD(3) [OF assms(1)]
  have "sc_name sc = n" using sys_okD(1) [OF ok] assms(3,4) by (auto simp: table_ok_def dest: spec [of _ n])
  with sys_okD(2) [OF ok, of a sc] assms(2-4) show "cn_state (sc_conn sc) \<in> {kConnected, kDisconnecting}" "\<not> sc_destroyed sc"
    by (cases "cn_state (sc_conn sc)"; simp add: conn_ok_def)+
qed

lemma sample_system: "\<exists>sy. new_system 0 \<lparr>sin_port = 0, sin_addr = 0\<rparr> ''http'' False 0 3 = Inr (sy :: http_context option server_sys)"
  by (simp add: new_system_def new_server_def toIpPort_def toIp_def addr_byte_def toPort_def ntohs_def htons_def dec.simps Let_def)

section \<open>Properties\<close>

text \<open>C3. The table of the server is exact: from the creation of the HTTP server, after any sequence of
  accepts, events, closes and functors in any interleaving of the loops, as soon as no functor is
  pending, every connection ever accepted is either open, in the table under its name and not
  destroyed, or closed, taken out of the table and destroyed. No connection leaks and none is destroyed
  while open.\<close>

theorem connection_table_exact:
  assumes "new_system loop addr name reuse ptr fd = Inr sy0" "(server_step onConnection)\<^sup>*\<^sup>* sy0 sy"
    "\<forall>lp. sy_queues sy lp = []" "sy_conns sy a = Some sc"
  shows "(cn_state (sc_conn sc) \<in> {kConnected, kDisconnecting} \<and>
      sv_connections (sy_server sy) (sc_name sc) = Some a \<and> \<not> sc_destroyed sc) \<or>
    (cn_state (sc_conn sc) = kDisconnected \<and> sv_connections (sy_server sy) (sc_name sc) \<noteq> Some a \<and>
      sc_destroyed sc)"
  using sys_okD(2) [OF server_okD(3) [OF http_server_ok [OF assms(1,2)]] assms(4)] assms(3)
  by (cases "cn_state (sc_conn sc)"; cases "sv_connections (sy_server sy) (sc_name sc) = Some a")
    (simp_all add: conn_ok_def)

theorem connection_table_exact_witness:
  "\<exists>(sy :: http_context option server_sys) sc. sy_conns sy 7 = Some sc \<and>
     (cn_state (sc_conn sc) \<in> {kConnected, kDisconnecting} \<and>
        sv_connections (sy_server sy) (sc_name sc) = Some 7 \<and> \<not> sc_destroyed sc \<or>
      cn_state (sc_conn sc) = kDisconnected \<and> sv_connections (sy_server sy) (sc_name sc) \<noteq> Some 7 \<and>
        sc_destroyed sc)"
proof -
  obtain sy0 where sy0: "new_system 0 \<lparr>sin_port = 0, sin_addr = 0\<rparr> ''http'' False 0 3 =
      Inr (sy0 :: http_context option server_sys)"
    using sample_system by blast
  from one_connection_run [OF this, of 7] obtain sy sc where r: "(server_step onConnection)\<^sup>*\<^sup>* sy0 sy"
      "sy_queues sy = (\<lambda>_. [])" "sy_conns sy = [7 \<mapsto> sc]"
    by blast
  have "\<forall>lp. sy_queues sy lp = []" "sy_conns sy 7 = Some sc" using r(2,3) by simp_all
  from this(2) connection_table_exact [OF sy0 r(1) this] show ?thesis by blast
qed

text \<open>C29. The functors the server queues always find their connection in the state they are meant for,
  in whatever order the loops run: \<open>connectEstablished\<close> is pending at most once for a connection, in its
  own loop, and only while it is new; \<open>removeConnectionInLoop\<close> only in the base loop and for a closed
  connection; \<open>connectDestroyed\<close> only in the loop of the connection, when it is closed and no longer in
  the table.\<close>

theorem queued_functors_match:
  assumes "new_system loop addr name reuse ptr fd = Inr sy0" "(server_step onConnection)\<^sup>*\<^sup>* sy0 sy"
    "t \<in> set (sy_queues sy lp)"
  shows "case t of
      TListen \<Rightarrow> lp = sv_loop (sy_server sy)
    | TEstablish a \<Rightarrow> count_list (sy_queues sy lp) t = 1 \<and>
        (\<exists>sc. sy_conns sy a = Some sc \<and> sc_loop sc = lp \<and> cn_state (sc_conn sc) = kConnecting)
    | TRemove a \<Rightarrow> lp = sv_loop (sy_server sy) \<and>
        (\<exists>sc. sy_conns sy a = Some sc \<and> cn_state (sc_conn sc) = kDisconnected)
    | TDestroy a \<Rightarrow> (\<exists>sc. sy_conns sy a = Some sc \<and> sc_loop sc = lp \<and> cn_state (sc_conn sc) = kDisconnected \<and>
        sv_connections (sy_server sy) (sc_name sc) \<noteq> Some a)"
  using sys_okD(3) [OF server_okD(3) [OF http_server_ok [OF assms(1,2)]] assms(3)]
    sys_okD(2) [OF server_okD(3) [OF http_server_ok [OF assms(1,2)]]]
  by (cases t) (auto simp: conn_ok_def)

theorem queued_functors_match_witness:
  "\<exists>sy :: http_context option server_sys. TListen \<in> set (sy_queues sy 0) \<and> sv_loop (sy_server sy) = 0"
proof -
  obtain sy0 where sy0: "new_system 0 \<lparr>sin_port = 0, sin_addr = 0\<rparr> ''http'' False 0 3 =
      Inr (sy0 :: http_context option server_sys)"
    using sample_system by blast
  have sv: "sv_loop (sy_server sy0) = 0" "sv_started (sy_server sy0) = 0"
    using sy0 by (auto simp: new_system_def new_server_def bind_res_eq_Inr_iff)
  let ?srv = "(sy_server sy0)\<lparr>sv_started := 1,
      sv_pool := fst (start_pool id False (sv_pool (sy_server sy0)))\<rparr>"
  have "start_server onConnection id False 1 sy0 = Inr (queue_task 0 TListen (sy0\<lparr>sy_server := ?srv\<rparr>))"
    by (simp add: start_server_def run_in_loop_def sv Let_def)
  then have r: "(server_step onConnection)\<^sup>*\<^sup>* sy0 (queue_task 0 TListen (sy0\<lparr>sy_server := ?srv\<rparr>))"
    by (blast intro: server_step.start)
  have "TListen \<in> set (sy_queues (queue_task 0 TListen (sy0\<lparr>sy_server := ?srv\<rparr>)) 0)" by (simp add: queue_task_def)
  with queued_functors_match [OF sy0 r this] show ?thesis by auto
qed

text \<open>Accepting never overwrites: when a new connection is set up, the name it gets differs from the
  name of every connection ever accepted, so its entry in the table is a new one, and all other
  entries stay; after 2 147 483 646 connections the counter would overflow and no further one is
  set up.\<close>

theorem accept_fresh_name:
  assumes "new_system loop addr name reuse ptr fd = Inr sy0" "(server_step onConnection)\<^sup>*\<^sup>* sy0 sy"
    "sy_conns sy a = None" "newConnection onConnection x0 a ws sockfd peer sy = Inr sy'"
  shows "\<exists>n. sv_connections (sy_server sy) n = None \<and> sv_connections (sy_server sy') = (sv_connections (sy_server sy))(n \<mapsto> a) \<and>
    (\<forall>b sd. sy_conns sy b = Some sd \<longrightarrow> sc_name sd \<noteq> n) \<and> sv_nextConnId (sy_server sy) < 2 ^ 31 - 1"
proof -
  let ?srv = "sy_server sy"
  have ok: "server_ok sy" by (rule http_server_ok [OF assms(1,2)])
  obtain ioLoop pool where lp: "getNextLoop (sv_pool ?srv) = Inr (ioLoop, pool)"
    using assms(4) by (cases "getNextLoop (sv_pool ?srv)") (auto simp: newConnection_def Let_def)
  let ?n = "connName (sv_name ?srv) (sv_ipPort ?srv) (sv_nextConnId ?srv)"
  have "sv_nextConnId ?srv \<noteq> 2 ^ 31 - 1" using assms(4) lp by (auto simp: newConnection_def Let_def)
  moreover have "sv_nextConnId ?srv < 2 ^ 31" using server_okD(2) [OF ok] by (simp add: names_ok_def)
  ultimately have lt: "sv_nextConnId ?srv < 2 ^ 31 - 1" by simp
  have other: "\<forall>b sd. sy_conns sy b = Some sd \<longrightarrow> sc_name sd \<noteq> ?n"
    using names_ok_create(2) [OF server_okD(2,1) [OF ok] lt assms(3),
        of "\<lparr>sc_name = ?n, sc_loop = 0, sc_conn = undefined, sc_destroyed = False\<rparr>"] by auto
  then have "sv_connections ?srv ?n = None"
    using sys_okD(1) [OF server_okD(3) [OF ok]] unfolding table_ok_def by (metis not_Some_eq)
  moreover have "sv_connections (sy_server sy') = (sv_connections ?srv)(?n \<mapsto> a)"
    using assms(4) lp by (auto simp: newConnection_def run_in_loop_def queue_task_def Let_def split: if_splits
        elim!: on_conn_InrE)
  ultimately show ?thesis using other lt by blast
qed

theorem accept_fresh_name_witness:
  "\<exists>sy sy' :: http_context option server_sys. newConnection onConnection None 8 [] 5 \<lparr>sin_port = 0, sin_addr = 0\<rparr> sy = Inr sy' \<and>
     (\<exists>n. sv_connections (sy_server sy) n = None \<and> sv_connections (sy_server sy') n = Some 8)"
proof -
  let ?addr = "\<lparr>sin_port = 0, sin_addr = 0\<rparr> :: sockaddr_in"
  obtain sy0 where sy0: "new_system 0 ?addr ''http'' False 0 3 = Inr (sy0 :: http_context option server_sys)"
    using sample_system by blast
  then have sv: "sv_loop (sy_server sy0) = 0" "sv_nextConnId (sy_server sy0) = 1" "sy_conns sy0 = Map.empty"
      "sv_pool (sy_server sy0) = new_pool 0 ''http''"
    by (auto simp: new_system_def new_server_def bind_res_eq_Inr_iff)
  let ?nc = "new_connection None 8 5 (sy_pollers sy0 0) [] :: http_connection"
  obtain c where c: "connectEstablished onConnection ?nc = Inr c"
    using established_live [of None 8 5 "sy_pollers sy0 0" "[]"] by blast
  have same: "?nc\<lparr>lp_poller := sy_pollers sy0 0\<rparr> = ?nc" by (simp add: new_connection_def)
  have "\<exists>sy'. newConnection onConnection None 8 [] 5 ?addr sy0 = Inr sy'"
    by (simp add: newConnection_def getNextLoop_def new_pool_def sv run_in_loop_def on_conn_def same c Let_def)
  then obtain sy' where sy': "newConnection onConnection None 8 [] 5 ?addr sy0 = Inr sy'" by blast
  have "sy_conns sy0 8 = None" by (simp add: sv)
  from accept_fresh_name [OF sy0 rtranclp.rtrancl_refl this sy'] sy' show ?thesis by fastforce
qed

end
