(* ===== verification/ServerListen.thy ===== *)
theory ServerListen
  imports TcpServer
begin

text \<open>
  How the server comes to listen: \<open>start\<close> may be called any number of times and from any thread, and
  the base loop listens once. Nothing else that a server does touches the listening socket.
\<close>

section \<open>What concerns listening\<close>

text \<open>The base loop, the number of starts as it is stored, the calls on the listening socket, whether the
  acceptor listens, and the queued functors that will make it listen.\<close>

definition listen_view :: "'x server_sys \<Rightarrow> nat \<times> 32 word \<times> sock_call list \<times> bool \<times> (nat \<Rightarrow> nat)" where
  "listen_view sy = (sv_loop (sy_server sy), sv_started (sy_server sy), so_calls (ac_socket (sy_acceptor sy)),
     ac_listenning (sy_acceptor sy), \<lambda>lp. count_list (sy_queues sy lp) TListen)"

lemma on_conn_view: "on_conn f a sy = Inr sy' \<Longrightarrow> listen_view sy' = listen_view sy"
  by (auto simp: listen_view_def elim!: on_conn_InrE)

lemma queue_task_view: "t \<noteq> TListen \<Longrightarrow> listen_view (queue_task lp t sy) = listen_view sy"
  by (auto simp: listen_view_def queue_task_def fun_eq_iff)

lemma set_destroyed_view [simp]: "listen_view (set_destroyed a sy) = listen_view sy"
  by (simp add: listen_view_def set_destroyed_def)

lemma run_task_view:
  "run_task cb t sy = Inr sy' \<Longrightarrow> t \<noteq> TListen \<Longrightarrow> listen_view sy' = listen_view sy"
  by (cases t) (auto simp: removeConnectionInLoop_def queue_task_view Let_def bind_res_eq_Inr_iff listen_view_def [of "_\<lparr>sy_server := _\<rparr>"]
      listen_view_def [of sy] dest!: on_conn_view split: option.splits)

lemma run_in_loop_view:
  "run_in_loop cb t lp task sy = Inr sy' \<Longrightarrow> task \<noteq> TListen \<Longrightarrow> listen_view sy' = listen_view sy"
  by (auto simp: run_in_loop_def queue_task_view run_task_view split: if_splits)

lemma newConnection_view: "newConnection cb x0 a ws fd peer sy = Inr sy' \<Longrightarrow> listen_view sy' = listen_view sy"
  by (erule newConnection_InrE, drule run_in_loop_view) (simp_all add: listen_view_def)

lemma close_event_view: "close_event cb a sy = Inr sy' \<Longrightarrow> listen_view sy' = listen_view sy"
  by (auto simp: close_event_def removeConnection_def bind_res_eq_Inr_iff dest!: run_in_loop_view on_conn_view split: option.splits)

section \<open>The invariant\<close>

text \<open>After at most \<open>n\<close> steps there were \<open>j\<close> starts and \<open>k\<close> calls of \<open>listen\<close>.\<close>

definition listen_inv :: "sockaddr_in \<Rightarrow> nat \<Rightarrow> nat \<times> 32 word \<times> sock_call list \<times> bool \<times> (nat \<Rightarrow> nat) \<Rightarrow> bool" where
  "listen_inv addr n v \<longleftrightarrow>
     (case v of (lp, s, calls, on, q) \<Rightarrow>
        \<exists>j k. j \<le> n \<and> s = of_nat j \<and> calls = setup_calls addr @ replicate k (SockListen 1024) \<and> on = (0 < k) \<and>
          k + q lp = (if j = 0 then 0 else 1) \<and> (\<forall>l. l \<noteq> lp \<longrightarrow> q l = 0))"

lemma listen_invI:
  assumes "v = (lp, of_nat j, setup_calls addr @ replicate k (SockListen 1024), 0 < k, q)" "j \<le> n"
    "k + q lp = (if j = 0 then 0 else 1)" "\<And>l. l \<noteq> lp \<Longrightarrow> q l = 0"
  shows "listen_inv addr n v"
  using assms by (auto simp: listen_inv_def)

lemma listen_invE:
  assumes "listen_inv addr n (listen_view sy)"
  obtains j k where "j \<le> n" "sv_started (sy_server sy) = of_nat j"
    "so_calls (ac_socket (sy_acceptor sy)) = setup_calls addr @ replicate k (SockListen 1024)"
    "ac_listenning (sy_acceptor sy) \<longleftrightarrow> 0 < k"
    "k + count_list (sy_queues sy (sv_loop (sy_server sy))) TListen = (if j = 0 then 0 else 1)"
    "\<forall>l. l \<noteq> sv_loop (sy_server sy) \<longrightarrow> count_list (sy_queues sy l) TListen = 0"
  using assms by (auto simp: listen_inv_def listen_view_def)

lemma listen_inv_mono: "listen_inv addr n v \<Longrightarrow> n \<le> m \<Longrightarrow> listen_inv addr m v"
  unfolding listen_inv_def split_beta by (meson order_trans)

lemma listen_inv_keep: "listen_inv addr n (listen_view sy) \<Longrightarrow> listen_view sy' = listen_view sy \<Longrightarrow>
    listen_inv addr (Suc n) (listen_view sy')"
  using listen_inv_mono by simp

text \<open>Few enough starts do not wrap the counter around.\<close>

lemma started_zero:
  assumes "j \<le> n" "n < 2 ^ 32"
  shows "(of_nat j :: 32 word) = 0 \<longleftrightarrow> j = 0"
proof
  assume "(of_nat j :: 32 word) = 0"
  then have d: "2 ^ LENGTH(32) dvd j" by (simp only: word_of_nat_eq_0_iff)
  show "j = 0"
  proof (rule ccontr)
    assume "j \<noteq> 0"
    then have "2 ^ LENGTH(32) \<le> j" using d dvd_imp_le by blast
    with assms show False by simp
  qed
qed simp

lemma server_listen_view:
  "listen_view (server_listen sy) =
     (sv_loop (sy_server sy), sv_started (sy_server sy), so_calls (ac_socket (sy_acceptor sy)) @ [SockListen 1024], True,
      \<lambda>lp. count_list (sy_queues sy lp) TListen)"
  by (simp add: listen_view_def server_listen_def acceptor_listen_def acceptor_do_def socket_listen_def Let_def
      split: prod.splits)

text \<open>A functor leaves its queue.\<close>

lemma run_listen:
  assumes "listen_inv addr n (listen_view sy)" "sy_queues sy lp = task # tasks"
    "run_task cb task (sy\<lparr>sy_queues := (sy_queues sy)(lp := tasks)\<rparr>) = Inr sy'"
  shows "listen_inv addr n (listen_view sy')"
proof (cases "task = TListen")
  case True
  from assms(1) obtain j k where v: "j \<le> n" "sv_started (sy_server sy) = of_nat j"
      "so_calls (ac_socket (sy_acceptor sy)) = setup_calls addr @ replicate k (SockListen 1024)"
      "ac_listenning (sy_acceptor sy) \<longleftrightarrow> 0 < k"
      "k + count_list (sy_queues sy (sv_loop (sy_server sy))) TListen = (if j = 0 then 0 else 1)"
      "\<forall>l. l \<noteq> sv_loop (sy_server sy) \<longrightarrow> count_list (sy_queues sy l) TListen = 0"
    by (rule listen_invE)
  have lp: "lp = sv_loop (sy_server sy)" using v(6) assms(2) True by fastforce
  with v(5) assms(2) True have k: "k = 0" "j \<noteq> 0" "count_list tasks TListen = 0" by (auto split: if_splits)
  have "listen_view sy' = (lp, of_nat j, setup_calls addr @ replicate 1 (SockListen 1024), 0 < (1 :: nat),
      \<lambda>l. count_list (((sy_queues sy)(lp := tasks)) l) TListen)"
    using assms(3) True v(2,3) k(1) lp by (auto simp: server_listen_view)
  then show ?thesis by (rule listen_invI) (use v(1,6) k lp in auto)
next
  case False
  then have "listen_view sy' = listen_view (sy\<lparr>sy_queues := (sy_queues sy)(lp := tasks)\<rparr>)"
    using run_task_view [OF assms(3)] by simp
  also have "\<dots> = listen_view sy"
    using assms(2) False by (auto simp: listen_view_def fun_eq_iff)
  finally show ?thesis using assms(1) by simp
qed

text \<open>The first start listens, or queues the functor; the others only count. The counter wraps around
  after \<open>2 ^ 32\<close> starts.\<close>

lemma start_listen:
  assumes "listen_inv addr n (listen_view sy)" "n < 2 ^ 32"
    "start_server cb startLoop hasInit t sy = Inr sy'"
  shows "listen_inv addr (Suc n) (listen_view sy')"
proof -
  let ?base = "sv_loop (sy_server sy)"
  from assms(1) obtain j k where v: "j \<le> n" "sv_started (sy_server sy) = of_nat j"
      "so_calls (ac_socket (sy_acceptor sy)) = setup_calls addr @ replicate k (SockListen 1024)"
      "ac_listenning (sy_acceptor sy) \<longleftrightarrow> 0 < k"
      "k + count_list (sy_queues sy ?base) TListen = (if j = 0 then 0 else 1)"
      "\<forall>l. l \<noteq> ?base \<longrightarrow> count_list (sy_queues sy l) TListen = 0"
    by (rule listen_invE)
  from started_zero [OF v(1) assms(2)] v(2) have j: "sv_started (sy_server sy) = 0 \<longleftrightarrow> j = 0" by simp
  show ?thesis
  proof (cases "j = 0")
    case False
    then have "listen_view sy' = (?base, of_nat (Suc j), setup_calls addr @ replicate k (SockListen 1024), 0 < k,
        \<lambda>l. count_list (sy_queues sy l) TListen)"
      using assms(3) j v(2,3,4) by (auto simp: start_server_def listen_view_def Let_def)
    then show ?thesis by (rule listen_invI) (use v False in auto)
  next
    case True
    with v have k: "k = 0" "count_list (sy_queues sy ?base) TListen = 0" by auto
    show ?thesis
    proof (cases "t = ?base")
      case here: True
      have "listen_view sy' = (?base, of_nat 1, setup_calls addr @ replicate 1 (SockListen 1024), 0 < (1 :: nat),
          \<lambda>l. count_list (sy_queues sy l) TListen)"
        using assms(3) j True v(2,3) k here
        by (auto simp: start_server_def run_in_loop_def server_listen_view Let_def)
      then show ?thesis by (rule listen_invI) (use v(6) k in auto)
    next
      case False
      have "listen_view sy' = (?base, of_nat 1, setup_calls addr @ replicate 0 (SockListen 1024), 0 < (0 :: nat),
          \<lambda>l. count_list (((sy_queues sy)(?base := sy_queues sy ?base @ [TListen])) l) TListen)"
        using assms(3) j True v(2,3,4) k False
        by (auto simp: start_server_def run_in_loop_def queue_task_def listen_view_def Let_def)
      then show ?thesis by (rule listen_invI) (use v(6) k in auto)
    qed
  qed
qed

lemma server_step_listen:
  assumes "server_step cb sy sy'" "listen_inv addr n (listen_view sy)" "n < 2 ^ 32"
  shows "listen_inv addr (Suc n) (listen_view sy')"
  using assms
proof (induction rule: server_step.induct)
  case (accept sy a x0 ws peer0 r sy' fds)
  then have "listen_view sy' = listen_view sy"
    by (auto simp: acceptor_handleRead_def socket_accept_def bind_res_eq_Inr_iff newConnection_view split: sum.splits)
  with accept show ?case by (blast intro: listen_inv_keep)
next
  case (run sy lp task tasks sy')
  then show ?case using run_listen listen_inv_mono [OF _ le_SucI [OF order_refl]] by blast
next
  case (close sy a sc sy')
  then show ?case by (blast intro: listen_inv_keep close_event_view)
next
  case (event sy a sc c sy')
  then show ?case by (blast intro: listen_inv_keep on_conn_view)
next
  case (start startLoop hasInit t sy sy')
  then show ?case using start_listen by blast
next
  case (threads sy n')
  have "listen_view (sy\<lparr>sy_server := server_setThreadNum n' (sy_server sy)\<rparr>) = listen_view sy"
    by (simp add: listen_view_def server_setThreadNum_def)
  with threads show ?case by (blast intro: listen_inv_keep)
qed

lemma new_system_listen:
  assumes "new_system loop addr name reuse ptr fd = Inr sy0"
  shows "listen_inv addr 0 (listen_view sy0)"
  using assms by (auto simp: new_system_def new_server_def bind_res_eq_Inr_iff listen_view_def listen_inv_def)

section \<open>The property\<close>

text \<open>C32. The listening socket is set up once and in order: in every run of fewer than \<open>2 ^ 32\<close> steps,
  whichever threads start the server and however often, the calls on the socket are the two options (on,
  whatever the caller asked for), \<open>bind\<close> to the given address, and then at most one \<open>listen\<close>; the acceptor
  takes itself for listening exactly when that call was made; and once the server was started, it
  listens or exactly one functor that will make it listen waits in the base loop, so no start is lost.\<close>

theorem listens_once:
  assumes "new_system loop addr name reuse ptr fd = Inr sy0" "(server_step cb ^^ n) sy0 sy" "n < 2 ^ 32"
  shows "\<exists>k \<le> 1. so_calls (ac_socket (sy_acceptor sy)) = setup_calls addr @ replicate k (SockListen 1024) \<and>
    (ac_listenning (sy_acceptor sy) \<longleftrightarrow> k = 1) \<and>
    k + count_list (sy_queues sy (sv_loop (sy_server sy))) TListen = (if sv_started (sy_server sy) = 0 then 0 else 1) \<and>
    (\<forall>l. l \<noteq> sv_loop (sy_server sy) \<longrightarrow> TListen \<notin> set (sy_queues sy l))"
proof -
  have "listen_inv addr n (listen_view sy)" using assms(2,3)
  proof (induction n arbitrary: sy)
    case 0
    then show ?case using new_system_listen [OF assms(1)] by simp
  next
    case (Suc n)
    then obtain s where "(server_step cb ^^ n) sy0 s" "server_step cb s sy" by auto
    with Suc show ?case using server_step_listen by fastforce
  qed
  then obtain j k where jk: "j \<le> n" "sv_started (sy_server sy) = of_nat j"
      "so_calls (ac_socket (sy_acceptor sy)) = setup_calls addr @ replicate k (SockListen 1024)"
      "ac_listenning (sy_acceptor sy) \<longleftrightarrow> 0 < k"
      "k + count_list (sy_queues sy (sv_loop (sy_server sy))) TListen = (if j = 0 then 0 else 1)"
      "\<forall>l. l \<noteq> sv_loop (sy_server sy) \<longrightarrow> count_list (sy_queues sy l) TListen = 0"
    by (rule listen_invE)
  then have "k \<le> 1" "0 < k \<longleftrightarrow> k = 1" "\<And>l. l \<noteq> sv_loop (sy_server sy) \<Longrightarrow> TListen \<notin> set (sy_queues sy l)"
    by (auto simp: count_list_0_iff split: if_splits)
  with jk started_zero [OF jk(1) assms(3)] show ?thesis by (intro exI [of _ k]) simp
qed

theorem listens_once_witness:
  "\<exists>sy0 sy :: http_context option server_sys.
     new_system 0 \<lparr>sin_port = 0, sin_addr = 0\<rparr> ''http'' False 0 3 = Inr sy0 \<and> (server_step onConnection ^^ 2) sy0 sy \<and>
     sv_started (sy_server sy) = 2 \<and> sy_queues sy 0 = [TListen] \<and> \<not> ac_listenning (sy_acceptor sy)"
proof -
  let ?addr = "\<lparr>sin_port = 0, sin_addr = 0\<rparr>"
  obtain sy0 where sy0: "new_system 0 ?addr ''http'' False 0 3 = Inr (sy0 :: http_context option server_sys)"
    using sample_system by blast
  then have sv: "sv_loop (sy_server sy0) = 0" "sv_started (sy_server sy0) = 0" "sy_queues sy0 = (\<lambda>_. [])"
    by (auto simp: new_system_def new_server_def bind_res_eq_Inr_iff)
  obtain sy1 where sy1: "start_server onConnection id False 5 sy0 = Inr sy1" "sv_started (sy_server sy1) = 1"
      "sv_loop (sy_server sy1) = 0"
    using sv by (simp add: start_server_def run_in_loop_def queue_task_def Let_def)
  then obtain sy where sy: "start_server onConnection id False 0 sy1 = Inr sy" "sv_started (sy_server sy) = 2"
      "sv_loop (sy_server sy) = 0" "sy_queues sy = sy_queues sy1"
    by (simp add: start_server_def Let_def)
  have steps: "(server_step onConnection ^^ 2) sy0 sy"
    using server_step.start [OF sy1(1)] server_step.start [OF sy(1)] by (auto simp: numeral_2_eq_2)
  have q: "sy_queues sy 0 = [TListen]"
    using sy1(1) sv sy(4) by (auto simp: start_server_def run_in_loop_def queue_task_def Let_def)
  with listens_once [OF sy0 steps] sy have "\<not> ac_listenning (sy_acceptor sy)" by auto
  with sy0 steps sy q show ?thesis by blast
qed

end
