(* ===== verification/ServerDrain.thy ===== *)
theory ServerDrain
  imports TcpServer
begin

text \<open>
  Closing a connection of \<open>mymuduo/net/TcpServer.cpp\<close> completes: the functors that the server has queued
  in the loops never fail and run out, and then every closed connection is destroyed. The measure is the
  number of queued functors, where \<open>removeConnectionInLoop\<close>, which queues another one, counts twice.
\<close>

section \<open>The weight of the queues\<close>

fun task_weight :: "server_task \<Rightarrow> nat" where
  "task_weight (TRemove a) = 2"
| "task_weight _ = 1"

definition list_weight :: "server_task list \<Rightarrow> nat" where
  "list_weight ts = sum_list (map task_weight ts)"

definition busy :: "(nat \<Rightarrow> server_task list) \<Rightarrow> nat set" where
  "busy q = {lp. q lp \<noteq> []}"

definition weight :: "(nat \<Rightarrow> server_task list) \<Rightarrow> nat" where
  "weight q = (\<Sum>lp \<in> busy q. list_weight (q lp))"

lemma list_weight_simps [simp]:
  "list_weight [] = 0" "list_weight (t # ts) = task_weight t + list_weight ts"
  "list_weight (ts @ us) = list_weight ts + list_weight us"
  by (simp_all add: list_weight_def)

lemma task_weight_pos: "0 < task_weight t"
  by (cases t) simp_all

lemma busy_update: "busy (q(lp := ts)) \<subseteq> insert lp (busy q)"
  by (auto simp: busy_def)

lemma finite_busy_update [simp]: "finite (busy q) \<Longrightarrow> finite (busy (q(lp := ts)))"
  using finite_subset [OF busy_update] by blast

lemma weight_superset: "finite T \<Longrightarrow> busy q \<subseteq> T \<Longrightarrow> weight q = (\<Sum>lp \<in> T. list_weight (q lp))"
  unfolding weight_def by (rule sum.mono_neutral_left) (auto simp: busy_def)

lemma weight_update:
  assumes "finite (busy q)"
  shows "weight (q(lp := ts)) + list_weight (q lp) = weight q + list_weight ts"
proof -
  let ?T = "insert lp (busy q)"
  have T: "finite ?T" "lp \<in> ?T" using assms by simp_all
  have "weight (q(lp := ts)) = list_weight ts + (\<Sum>l \<in> ?T - {lp}. list_weight (q l))"
    using weight_superset [OF T(1) busy_update] sum.remove [OF T, of "\<lambda>l. list_weight ((q(lp := ts)) l)"]
    by simp
  moreover have "weight q = list_weight (q lp) + (\<Sum>l \<in> ?T - {lp}. list_weight (q l))"
    using weight_superset [OF T(1), of q] sum.remove [OF T, of "\<lambda>l. list_weight (q l)"] by auto
  ultimately show ?thesis by simp
qed

text \<open>Only finitely many loops ever have functors.\<close>

lemma run_task_busy:
  "run_task cb t sy = Inr sy' \<Longrightarrow> finite (busy (sy_queues sy)) \<Longrightarrow> finite (busy (sy_queues sy'))"
  by (cases t) (auto simp: server_listen_def removeConnectionInLoop_def queue_task_def set_destroyed_def Let_def
      bind_res_eq_Inr_iff split: prod.splits option.splits elim!: on_conn_InrE)

lemma run_in_loop_busy:
  "run_in_loop cb th lp t sy = Inr sy' \<Longrightarrow> finite (busy (sy_queues sy)) \<Longrightarrow> finite (busy (sy_queues sy'))"
  by (auto simp: run_in_loop_def queue_task_def run_task_busy split: if_splits)

lemma newConnection_busy:
  assumes "newConnection cb x0 a ws fd addr sy = Inr sy'" "finite (busy (sy_queues sy))"
  shows "finite (busy (sy_queues sy'))"
  using assms by (cases "getNextLoop (sv_pool (sy_server sy))")
    (auto simp: newConnection_def Let_def split: if_splits elim!: run_in_loop_busy)

lemma server_step_busy:
  "server_step cb sy sy' \<Longrightarrow> finite (busy (sy_queues sy)) \<Longrightarrow> finite (busy (sy_queues sy'))"
proof (induction rule: server_step.induct)
  case (accept sy a x0 ws peer0 r sy' fds)
  then show ?case
    by (auto simp: acceptor_handleRead_def socket_accept_def bind_res_eq_Inr_iff
        split: sum.splits intro: newConnection_busy)
next
  case (run sy lp task tasks sy')
  then show ?case by (auto intro: run_task_busy)
next
  case (close sy a sc sy')
  then show ?case
    by (auto simp: close_event_def removeConnection_def bind_res_eq_Inr_iff elim!: on_conn_InrE intro: run_in_loop_busy)
next
  case (event sy a sc c sy')
  then show ?case by (auto elim!: on_conn_InrE)
next
  case (start startLoop hasInit t sy sy')
  then show ?case by (auto simp: start_server_def Let_def split: if_splits intro: run_in_loop_busy)
next
  case (threads sy n)
  then show ?case by simp
qed

lemma reachable_busy:
  assumes "new_system loop addr name reuse ptr fd = Inr sy0" "(server_step cb)\<^sup>*\<^sup>* sy0 sy"
  shows "finite (busy (sy_queues sy))"
  using assms(2)
proof (induction rule: rtranclp_induct)
  case base
  then show ?case using assms(1) by (auto simp: new_system_def bind_res_eq_Inr_iff busy_def)
qed (rule server_step_busy)

section \<open>The queued functors succeed\<close>

text \<open>What the functors leave alone: which connections there are and that a closed one is closed.\<close>

definition closed_kept :: "'x server_sys \<Rightarrow> 'x server_sys \<Rightarrow> bool" where
  "closed_kept sy sy' \<longleftrightarrow> dom (sy_conns sy') = dom (sy_conns sy) \<and>
     (\<forall>a sc. sy_conns sy a = Some sc \<longrightarrow> cn_state (sc_conn sc) = kDisconnected \<longrightarrow>
       (\<exists>sc'. sy_conns sy' a = Some sc' \<and> cn_state (sc_conn sc') = kDisconnected \<and> sc_name sc' = sc_name sc))"

lemma closed_kept_refl [simp]: "closed_kept sy sy"
  by (simp add: closed_kept_def)

lemma closed_kept_trans:
  assumes "closed_kept r s" "closed_kept s t"
  shows "closed_kept r t"
  unfolding closed_kept_def
proof (intro conjI allI impI)
  show "dom (sy_conns t) = dom (sy_conns r)" using assms by (simp add: closed_kept_def)
  fix a sc assume "sy_conns r a = Some sc" "cn_state (sc_conn sc) = kDisconnected"
  then obtain sd where "sy_conns s a = Some sd" "cn_state (sc_conn sd) = kDisconnected" "sc_name sd = sc_name sc"
    using assms(1) unfolding closed_kept_def by blast
  with assms(2) show "\<exists>sc'. sy_conns t a = Some sc' \<and> cn_state (sc_conn sc') = kDisconnected \<and> sc_name sc' = sc_name sc"
    unfolding closed_kept_def by metis
qed

lemma on_conn_total:
  assumes "sy_conns sy a = Some sc" "f ((sc_conn sc)\<lparr>lp_poller := sy_pollers sy (sc_loop sc)\<rparr>) = Inr c"
  shows "on_conn f a sy = Inr (sy\<lparr>sy_conns := (sy_conns sy)(a \<mapsto> sc\<lparr>sc_conn := c\<rparr>),
    sy_pollers := (sy_pollers sy)(sc_loop sc := lp_poller c)\<rparr>)"
  using assms by (simp add: on_conn_def)

lemma connectEstablished_total: "\<exists>c'. connectEstablished onConnection c = Inr c'"
  by (simp add: connectEstablished_def onConnection_def Let_def)

lemma connectDestroyed_closed:
  "cn_state c = kDisconnected \<Longrightarrow> connectDestroyed onConnection c = Inr (chan_do remove_channel c)"
  by (simp add: connectDestroyed_def)

lemma run_task_total:
  assumes "task_ok base m (sy_conns sy) lp t" "finite (busy (sy_queues sy))"
  shows "\<exists>sy'. run_task onConnection t sy = Inr sy' \<and> closed_kept sy sy' \<and>
    weight (sy_queues sy') < weight (sy_queues sy) + task_weight t"
proof (cases t)
  case TListen
  then show ?thesis by (simp add: server_listen_def closed_kept_def Let_def split: prod.splits)
next
  case (TEstablish a)
  with assms(1) obtain sc where sc: "sy_conns sy a = Some sc" "cn_state (sc_conn sc) = kConnecting" by auto
  obtain c where "connectEstablished onConnection ((sc_conn sc)\<lparr>lp_poller := sy_pollers sy (sc_loop sc)\<rparr>) = Inr c"
    using connectEstablished_total by blast
  from on_conn_total [OF sc(1), where f = "connectEstablished onConnection", OF this] sc TEstablish
  show ?thesis by (auto simp: closed_kept_def)
next
  case (TRemove a)
  with assms(1) obtain sc where sc: "sy_conns sy a = Some sc" by auto
  have "weight ((sy_queues sy)(sc_loop sc := sy_queues sy (sc_loop sc) @ [TDestroy a])) = weight (sy_queues sy) + 1"
    using weight_update [OF assms(2), of "sc_loop sc" "sy_queues sy (sc_loop sc) @ [TDestroy a]"] by simp
  with sc TRemove show ?thesis
    by (simp add: removeConnectionInLoop_def queue_task_def closed_kept_def Let_def)
next
  case (TDestroy a)
  with assms(1) obtain sc where sc: "sy_conns sy a = Some sc" "cn_state (sc_conn sc) = kDisconnected" by auto
  let ?c = "(sc_conn sc)\<lparr>lp_poller := sy_pollers sy (sc_loop sc)\<rparr>"
  have "connectDestroyed onConnection ?c = Inr (chan_do remove_channel ?c)"
    using sc(2) by (simp add: connectDestroyed_closed)
  from on_conn_total [OF sc(1), where f = "connectDestroyed onConnection", OF this] sc TDestroy
  show ?thesis by (auto simp: closed_kept_def set_destroyed_def)
qed

lemma run_first:
  fixes sy :: "http_context option server_sys"
  assumes "server_ok sy" "finite (busy (sy_queues sy))" "sy_queues sy lp = t # ts"
  shows "\<exists>sy'. server_step onConnection sy sy' \<and> closed_kept sy sy' \<and> weight (sy_queues sy') < weight (sy_queues sy)"
proof -
  let ?sy = "sy\<lparr>sy_queues := (sy_queues sy)(lp := ts)\<rparr>"
  have "task_ok (sv_loop (sy_server sy)) (sv_connections (sy_server sy)) (sy_conns ?sy) lp t"
    using sys_okD(3) [OF server_okD(3) [OF assms(1)], of t lp] assms(3) by simp
  moreover have "finite (busy (sy_queues ?sy))" using assms(2) by simp
  ultimately obtain sy' where sy': "run_task onConnection t ?sy = Inr sy'" "closed_kept ?sy sy'"
      "weight (sy_queues sy') < weight (sy_queues ?sy) + task_weight t"
    using run_task_total by blast
  moreover have "weight (sy_queues ?sy) + task_weight t = weight (sy_queues sy)"
    using weight_update [OF assms(2), of lp ts] assms(3) by simp
  moreover have "closed_kept sy sy'" using sy'(2) by (simp add: closed_kept_def)
  ultimately show ?thesis using server_step.run [OF assms(3)] by metis
qed

lemma queues_drain:
  fixes sy :: "http_context option server_sys"
  assumes "server_ok sy" "finite (busy (sy_queues sy))"
  shows "\<exists>sy'. (server_step onConnection)\<^sup>*\<^sup>* sy sy' \<and> closed_kept sy sy' \<and> (\<forall>lp. sy_queues sy' lp = [])"
  using assms
proof (induction "weight (sy_queues sy)" arbitrary: sy rule: less_induct)
  case less
  show ?case
  proof (cases "\<forall>lp. sy_queues sy lp = []")
    case True
    then show ?thesis by (intro exI [of _ sy]) simp
  next
    case False
    then obtain lp t ts where "sy_queues sy lp = t # ts" by (meson list.exhaust)
    from run_first [OF less(2,3) this] obtain s where s: "server_step onConnection sy s" "closed_kept sy s"
        "weight (sy_queues s) < weight (sy_queues sy)"
      by blast
    from less(1) [OF s(3) http_conn.server_step_ok [OF s(1) less(2)] server_step_busy [OF s(1) less(3)]]
    obtain sy' where "(server_step onConnection)\<^sup>*\<^sup>* s sy'" "closed_kept s sy'" "\<forall>lp. sy_queues sy' lp = []"
      by blast
    with s closed_kept_trans [OF s(2)] show ?thesis by (meson converse_rtranclp_into_rtranclp)
  qed
qed

section \<open>The property\<close>

text \<open>C31. Closing completes: from every state that a run of the HTTP server can reach, the loops can run
  the functors that are queued, none of which fails, until none is left, and then every connection that
  was closed is destroyed and out of the table, and no connection was lost on the way.\<close>

theorem closing_completes:
  fixes sy0 sy :: "http_context option server_sys"
  assumes "new_system loop addr name reuse ptr fd = Inr sy0" "(server_step onConnection)\<^sup>*\<^sup>* sy0 sy"
  shows "\<exists>sy'. (server_step onConnection)\<^sup>*\<^sup>* sy sy' \<and> (\<forall>lp. sy_queues sy' lp = []) \<and>
    dom (sy_conns sy') = dom (sy_conns sy) \<and>
    (\<forall>a sc. sy_conns sy a = Some sc \<longrightarrow> cn_state (sc_conn sc) = kDisconnected \<longrightarrow>
      (\<exists>sc'. sy_conns sy' a = Some sc' \<and> sc_destroyed sc' \<and> sv_connections (sy_server sy') (sc_name sc) \<noteq> Some a))"
proof -
  have ok: "server_ok sy" by (rule http_server_ok [OF assms])
  from queues_drain [OF this reachable_busy [OF assms]] obtain sy' where
      r: "(server_step onConnection)\<^sup>*\<^sup>* sy sy'" "closed_kept sy sy'" "\<forall>lp. sy_queues sy' lp = []"
    by blast
  have ok': "server_ok sy'" by (rule http_conn.server_steps_ok [OF r(1) ok])
  have "\<exists>sc'. sy_conns sy' a = Some sc' \<and> sc_destroyed sc' \<and> sv_connections (sy_server sy') (sc_name sc) \<noteq> Some a"
    if closed: "sy_conns sy a = Some sc" "cn_state (sc_conn sc) = kDisconnected" for a sc
  proof -
    obtain sd where sd: "sy_conns sy' a = Some sd" "cn_state (sc_conn sd) = kDisconnected" "sc_name sd = sc_name sc"
      using r(2) closed unfolding closed_kept_def by blast
    with sys_okD(2) [OF server_okD(3) [OF ok'] sd(1)] r(3) show ?thesis by (auto simp: conn_ok_def)
  qed
  with r show ?thesis unfolding closed_kept_def by blast
qed

lemma close_event_total:
  assumes "sy_conns sy a = Some sc"
  shows "\<exists>sy' sc'. close_event onConnection a sy = Inr sy' \<and> sy_conns sy' a = Some sc' \<and>
    cn_state (sc_conn sc') = kDisconnected \<and> sc_destroyed sc' = sc_destroyed sc"
proof -
  let ?c = "(sc_conn sc)\<lparr>lp_poller := sy_pollers sy (sc_loop sc)\<rparr>"
  have "handleClose onConnection Inr ?c = Inr (chan_do disableAll (setState ?c kDisconnected))"
    by (simp add: handleClose_def onConnection_def connected_def setState_def)
  from on_conn_total [OF assms, where f = "handleClose onConnection Inr", OF this] assms show ?thesis
    by (auto simp: close_event_def removeConnection_def run_in_loop_def removeConnectionInLoop_def queue_task_def
        setState_def Let_def)
qed

theorem closing_completes_witness:
  "\<exists>(sy :: http_context option server_sys) sy' sc sc'. sy_conns sy 7 = Some sc \<and> cn_state (sc_conn sc) = kDisconnected \<and>
     (server_step onConnection)\<^sup>*\<^sup>* sy sy' \<and> sy_conns sy' 7 = Some sc' \<and> sc_destroyed sc' \<and>
     (\<forall>lp. sy_queues sy' lp = [])"
proof -
  obtain sy0 where sy0: "new_system 0 \<lparr>sin_port = 0, sin_addr = 0\<rparr> ''http'' False 0 3 =
      Inr (sy0 :: http_context option server_sys)"
    using sample_system by blast
  from one_connection_run [OF this, of 7] obtain s n sc where r: "(server_step onConnection)\<^sup>*\<^sup>* sy0 s"
      "sy_queues s = (\<lambda>_. [])" "sy_conns s = [7 \<mapsto> sc]" "sv_connections (sy_server s) = [n \<mapsto> 7]"
    by blast
  have sc: "sy_conns s 7 = Some sc" using r(3) by simp
  have live: "cn_state (sc_conn sc) \<noteq> kConnecting" "\<not> sc_destroyed sc"
    using idle_open [OF http_server_ok [OF sy0 r(1)] r(2-4)] by auto
  obtain sy sd where sy: "close_event onConnection 7 s = Inr sy" "sy_conns sy 7 = Some sd"
      "cn_state (sc_conn sd) = kDisconnected"
    using close_event_total [OF sc] by blast
  have "(server_step onConnection)\<^sup>*\<^sup>* sy0 sy" using r(1) server_step.close [OF sc live sy(1)] by simp
  from closing_completes [OF sy0 this] sy show ?thesis by blast
qed

end
