(* ===== verification/ServerEvents.thy ===== *)
theory ServerEvents
  imports TcpServer
begin

unbundle bit_operations_syntax

text \<open>
  The events that \<open>epoll\<close> reports, from the channel through the callbacks that the constructor of
  \<open>TcpConnection\<close> installs to the callbacks of the HTTP server and the connection table of \<open>TcpServer\<close>.
  Every such run is a run of the relation \<open>server_step\<close>, and in it the pollers of the loops know exactly
  the channels of live connections: an event never reaches an object that is gone.
\<close>

section \<open>The callbacks of a connection's channel\<close>

type_synonym http_sys = "http_context option server_sys"

text \<open>
  \<open>handleRead\<close> as an operation of the system; when it reads the end of the stream, the last thing it
  does is to call \<open>removeConnection\<close>, in the thread of the connection's loop.
\<close>

definition at_eof :: "read_outcome \<Rightarrow> buffer \<Rightarrow> bool" where
  "at_eof r b \<longleftrightarrow> (case readFd b r of Inr (b', Inr n) \<Rightarrow> n = 0 | _ \<Rightarrow> False)"

definition read_event ::
    "('x tcp_connection \<Rightarrow> 'x tcp_connection res) \<Rightarrow> (int \<Rightarrow> 'x tcp_connection \<Rightarrow> 'x tcp_connection res) \<Rightarrow>
      nat \<Rightarrow> read_outcome \<Rightarrow> int \<Rightarrow> 'x server_sys \<Rightarrow> 'x server_sys res" where
  "read_event onC onM a r t sy =
     (case sy_conns sy a of
        None \<Rightarrow> Inl NullDeref
      | Some sc \<Rightarrow>
          bind_res (on_conn (handleRead onC onM Inr r t) a sy)
            (if at_eof r (cn_input (sc_conn sc)) then removeConnection onC (sc_loop sc) a else Inr))"

definition conn_callbacks ::
    "('x tcp_connection \<Rightarrow> 'x tcp_connection res) \<Rightarrow> (int \<Rightarrow> 'x tcp_connection \<Rightarrow> 'x tcp_connection res) \<Rightarrow>
      nat \<Rightarrow> read_outcome \<Rightarrow> 'x server_sys callbacks" where
  "conn_callbacks onC onM a r =
     setErrorCallback (Some (on_conn (\<lambda>c. Inr (handleError c)) a))
       (setCloseCallback (Some (close_event onC a))
         (setWriteCallback (Some (on_conn handleWrite a))
           (setReadCallback (Some (\<lambda>t. read_event onC onM a r t))
             \<lparr>cb_close = None, cb_error = None, cb_read = None, cb_write = None\<rparr>)))"

text \<open>
  The poller stores the reported events in the channel and the loop calls \<open>handleEvent\<close>; \<open>r\<close> is what
  a read of the socket would give.
\<close>

definition channel_event ::
    "('x tcp_connection \<Rightarrow> 'x tcp_connection res) \<Rightarrow> (int \<Rightarrow> 'x tcp_connection \<Rightarrow> 'x tcp_connection res) \<Rightarrow>
      nat \<Rightarrow> evmask \<Rightarrow> read_outcome \<Rightarrow> int \<Rightarrow> 'x server_sys \<Rightarrow> 'x server_sys res" where
  "channel_event onC onM a revents r t sy =
     (case sy_conns sy a of
        None \<Rightarrow> Inl UseAfterFree
      | Some sc \<Rightarrow>
          bind_res (on_conn (\<lambda>c. Inr (c\<lparr>cn_channel := set_revents (cn_channel c) revents\<rparr>)) a sy)
            (handleEvent (conn_callbacks onC onM a r) (set_revents (cn_channel (sc_conn sc)) revents)
              (\<not> sc_destroyed sc) t))"

section \<open>Runs\<close>

text \<open>
  A descriptor is open while its socket object lives: that of the acceptor, and that of a connection
  that is not destroyed or that a queued functor still holds. \<open>accept4\<close> returns only descriptors that
  are not open.
\<close>

definition held :: "(nat \<Rightarrow> server_task list) \<Rightarrow> nat \<Rightarrow> bool" where
  "held q a \<longleftrightarrow> (\<exists>lp. TRemove a \<in> set (q lp) \<or> TDestroy a \<in> set (q lp))"

definition conn_fd :: "'x server_conn \<Rightarrow> int" where
  "conn_fd sc = ch_fd (cn_channel (sc_conn sc))"

definition fd_open :: "'x server_sys \<Rightarrow> int \<Rightarrow> bool" where
  "fd_open sy fd \<longleftrightarrow> fd = ch_fd (ac_channel (sy_acceptor sy)) \<or>
     (\<exists>a sc. sy_conns sy a = Some sc \<and> conn_fd sc = fd \<and> (\<not> sc_destroyed sc \<or> held (sy_queues sy) a))"

text \<open>
  The steps of the HTTP server with the callback \<open>cb\<close>: the base loop accepts, a loop runs a functor,
  a loop handles an event of a channel that is registered with its \<open>epoll\<close>, code in the loop thread
  sends on or shuts down a connection, or some thread starts the server or sets its number of threads.
\<close>

inductive http_step :: "http_callback \<Rightarrow> http_sys \<Rightarrow> http_sys \<Rightarrow> bool" for cb where
  h_accept: "ac_listenning (sy_acceptor sy) \<Longrightarrow> sy_conns sy a = None \<Longrightarrow>
    (\<forall>fd addr. r = Inr (fd, addr) \<longrightarrow> \<not> fd_open sy fd) \<Longrightarrow>
    acceptor_handleRead (Some (newConnection onConnection None a ws)) peer0 r sy = Inr (sy', fds) \<Longrightarrow>
    http_step cb sy sy'"
| h_run: "sy_queues sy lp = task # tasks \<Longrightarrow>
    run_task onConnection task (sy\<lparr>sy_queues := (sy_queues sy)(lp := tasks)\<rparr>) = Inr sy' \<Longrightarrow> http_step cb sy sy'"
| h_event: "sy_conns sy a = Some sc \<Longrightarrow> ch_index (cn_channel (sc_conn sc)) = kAdded \<Longrightarrow>
    channel_event onConnection (onMessage cb) a revents r t sy = Inr sy' \<Longrightarrow> http_step cb sy sy'"
| h_send: "sy_conns sy a = Some sc \<Longrightarrow> cn_state (sc_conn sc) \<noteq> kConnecting \<Longrightarrow> \<not> sc_destroyed sc \<Longrightarrow>
    on_conn (send True ptr s) a sy = Inr sy' \<Longrightarrow> http_step cb sy sy'"
| h_shutdown: "sy_conns sy a = Some sc \<Longrightarrow> cn_state (sc_conn sc) \<noteq> kConnecting \<Longrightarrow> \<not> sc_destroyed sc \<Longrightarrow>
    on_conn (\<lambda>c. Inr (shutdown True c)) a sy = Inr sy' \<Longrightarrow> http_step cb sy sy'"
| h_start: "start_server onConnection startLoop hasInit t sy = Inr sy' \<Longrightarrow> http_step cb sy sy'"
| h_threads: "http_step cb sy (sy\<lparr>sy_server := server_setThreadNum n (sy_server sy)\<rparr>)"

section \<open>What the operations of a connection do to its channel\<close>

definition watched :: "'x tcp_connection \<Rightarrow> bool" where
  "watched c \<longleftrightarrow> ch_index (cn_channel c) = kAdded \<and> isReading (cn_channel c)"

definition chan_moves :: "'x tcp_connection \<Rightarrow> 'x tcp_connection \<Rightarrow> bool" where
  "chan_moves c c' \<longleftrightarrow> ch_fd (cn_channel c') = ch_fd (cn_channel c) \<and> ch_ptr (cn_channel c') = ch_ptr (cn_channel c) \<and>
     (ch_index (cn_channel c) \<noteq> kNew \<longrightarrow>
       ch_index (cn_channel c') \<noteq> kNew \<and> pl_channels (lp_poller c') = pl_channels (lp_poller c))"

text \<open>All but closing also keep the channel watched and the connection open.\<close>

definition chan_keeps :: "'x tcp_connection \<Rightarrow> 'x tcp_connection \<Rightarrow> bool" where
  "chan_keeps c c' \<longleftrightarrow> chan_moves c c' \<and> (watched c \<longrightarrow> watched c') \<and>
     (cn_state c' = kDisconnected \<longrightarrow> cn_state c = kDisconnected)"

named_theorems keeps

lemma chan_moves_trans [trans]: "chan_moves a b \<Longrightarrow> chan_moves b c \<Longrightarrow> chan_moves a c"
  by (simp add: chan_moves_def)

lemma chan_keeps_trans [trans]: "chan_keeps a b \<Longrightarrow> chan_keeps b c \<Longrightarrow> chan_keeps a c"
  by (auto simp: chan_keeps_def intro: chan_moves_trans)

lemma keeps_same [keeps]:
  "cn_channel c' = cn_channel c \<Longrightarrow> lp_poller c' = lp_poller c \<Longrightarrow>
     cn_state c' = kDisconnected \<longrightarrow> cn_state c = kDisconnected \<Longrightarrow> chan_keeps c c'"
  by (simp add: chan_keeps_def chan_moves_def watched_def)

lemma update_moves:
  "updateChannel p ch = (p', ch') \<Longrightarrow> ch_fd ch' = ch_fd ch \<and> ch_ptr ch' = ch_ptr ch \<and> ch_index ch' \<noteq> kNew \<and>
     pl_channels p' = (if ch_index ch = kNew then (pl_channels p)(ch_fd ch \<mapsto> ch_ptr ch) else pl_channels p)"
  by (auto simp: updateChannel_def index_values Let_def split: if_splits)

lemma isReading_bits: "isReading ch \<longleftrightarrow> bit (ch_events ch) 0 \<or> bit (ch_events ch) 1"
  by (simp add: isReading_def kReadEvent_def read_mask_bits)

lemma update_watched:
  "updateChannel p ch = (p', ch') \<Longrightarrow> ch_index ch = kAdded \<Longrightarrow> isReading ch \<Longrightarrow> ch_index ch' = kAdded \<and> isReading ch'"
  by (auto simp: updateChannel_def index_values isNoneEvent_def kNoneEvent_def isReading_bits Let_def split: if_splits)

lemma chan_do_moves:
  assumes "\<And>p ch. \<exists>ev. f p ch = updateChannel p (ch\<lparr>ch_events := ev\<rparr>)"
  shows "chan_moves c (chan_do f c)"
proof -
  obtain p ch where pc: "f (lp_poller c) (cn_channel c) = (p, ch)" by fastforce
  with assms [of "lp_poller c" "cn_channel c"] obtain ev where
    "updateChannel (lp_poller c) ((cn_channel c)\<lparr>ch_events := ev\<rparr>) = (p, ch)" by auto
  from update_moves [OF this] pc show ?thesis by (simp add: chan_moves_def chan_do_def)
qed

lemma write_keeps [keeps]: "chan_keeps c (chan_do enableWriting c)" "chan_keeps c (chan_do disableWriting c)"
proof -
  have "isReading ((cn_channel c)\<lparr>ch_events := ch_events (cn_channel c) OR kWriteEvent\<rparr>) = isReading (cn_channel c)"
      "isReading ((cn_channel c)\<lparr>ch_events := ch_events (cn_channel c) AND NOT kWriteEvent\<rparr>) = isReading (cn_channel c)"
    by (simp_all add: isReading_bits event_masks bit_simps)
  then show "chan_keeps c (chan_do enableWriting c)" "chan_keeps c (chan_do disableWriting c)"
    using update_watched chan_do_moves [of enableWriting c] chan_do_moves [of disableWriting c]
    by (auto simp: chan_keeps_def watched_def channel_ops prod_eq_iff)
qed

lemma send_direct_same:
  "send_direct data c = (n, e, c1) \<Longrightarrow> cn_channel c1 = cn_channel c \<and> lp_poller c1 = lp_poller c \<and> cn_state c1 = cn_state c"
  by (auto simp: send_direct_def sock_write_def queueInLoop_def split: if_splits list.splits sum.splits prod.splits)

lemma sendInLoop_keeps [keeps]:
  assumes "sendInLoop data c = Inr c'"
  shows "chan_keeps c c'"
proof -
  obtain n e c1 where sd: "send_direct data c = (n, e, c1)" by (metis prod_cases3)
  define old where "old = readableBytes (cn_output c1)"
  define c2 where "c2 = (if cn_highWaterMark c1 \<le> old + (length data - n) \<and> old < cn_highWaterMark c1 \<and>
      cn_hasHighWaterMark c1 then queueInLoop (FHighWaterMark (old + (length data - n))) c1 else c1)"
  have same: "cn_channel c2 = cn_channel c" "lp_poller c2 = lp_poller c" "cn_state c2 = cn_state c"
    using send_direct_same [OF sd] by (auto simp: c2_def queueInLoop_def)
  show ?thesis
  proof (cases "\<not> e \<and> 0 < length data - n")
    case True
    have "sendInLoop data c = bind_res (append_data (cn_output c2) (drop n data)) (\<lambda>b.
        Inr (if \<not> isWriting (cn_channel (c2\<lparr>cn_output := b\<rparr>))
             then chan_do enableWriting (c2\<lparr>cn_output := b\<rparr>) else c2\<lparr>cn_output := b\<rparr>))"
      unfolding sendInLoop_def sd Let_def c2_def old_def using True by simp
    then obtain b where "c' = (if \<not> isWriting (cn_channel (c2\<lparr>cn_output := b\<rparr>))
        then chan_do enableWriting (c2\<lparr>cn_output := b\<rparr>) else c2\<lparr>cn_output := b\<rparr>)"
      using assms by (cases "append_data (cn_output c2) (drop n data)") auto
    moreover have "chan_keeps c (c2\<lparr>cn_output := b\<rparr>)" by (rule keeps_same) (simp_all add: same)
    ultimately show ?thesis using chan_keeps_trans write_keeps(1) by auto
  next
    case False
    with assms sd have "c' = c1" by (auto simp: sendInLoop_def)
    with send_direct_same [OF sd] show ?thesis by (auto intro: keeps_same)
  qed
qed

lemma send_keeps [keeps]: "send True ptr s c = Inr c' \<Longrightarrow> chan_keeps c c'"
  by (auto simp: send_def intro: keeps split: if_splits)

lemma shutdown_keeps [keeps]: "chan_keeps c (shutdown True c)"
  by (rule keeps_same)
    (auto simp: shutdown_def shutdownInLoop_def shutdownWrite_def setState_def Let_def split: if_splits)

lemma setContext_keeps [keeps]: "chan_keeps c (setContext c x)"
  by (rule keeps_same) (simp_all add: setContext_def)

lemma onConnection_keeps [keeps]: "onConnection c = Inr c' \<Longrightarrow> chan_keeps c c'"
  by (auto simp: onConnection_def intro: keeps)

lemma onRequest_keeps [keeps]: "onRequest cb c req = Inr c' \<Longrightarrow> chan_keeps c c'"
  by (auto simp: onRequest_def bind_res_eq_Inr_iff split: if_splits
      intro: keeps chan_keeps_trans [OF send_keeps shutdown_keeps])

lemma onMessage_keeps [keeps]:
  assumes "onMessage cb t c = Inr c'"
  shows "chan_keeps c c'"
proof -
  obtain ctx ok ctx1 b where ctx: "cn_context c = Some ctx" "parseRequest ctx (cn_input c) t = Some (Inr (ok, ctx1, b))"
    using assms by (auto simp: onMessage_def split: option.splits sum.splits prod.splits)
  let ?c1 = "setContext (c\<lparr>cn_input := b\<rparr>) (Some ctx1)"
  have k1: "chan_keeps c ?c1" by (rule keeps_same) (simp_all add: setContext_def)
  let ?bad = "if \<not> ok then bind_res (send True 0 bad_request ?c1) (\<lambda>c2. Inr (shutdown True c2)) else Inr ?c1"
  let ?req = "\<lambda>c2. if gotAll ctx1 then bind_res (onRequest cb c2 (ctx_request ctx1))
      (\<lambda>c3. Inr (setContext c3 (Some (reset_context ctx1)))) else Inr c2"
  have "onMessage cb t c = bind_res ?bad ?req" using ctx by (simp add: onMessage_def Let_def)
  with assms have "bind_res ?bad ?req = Inr c'" by simp
  then obtain c2 where c2: "?bad = Inr c2" "?req c2 = Inr c'"
    unfolding bind_res_eq_Inr_iff by blast
  have k2: "chan_keeps ?c1 c2"
    using c2(1) by (auto simp: bind_res_eq_Inr_iff split: if_splits
        intro: keeps_same chan_keeps_trans [OF send_keeps shutdown_keeps])
  have "chan_keeps c2 c'"
    using c2(2) by (auto simp: bind_res_eq_Inr_iff split: if_splits
        intro: keeps_same chan_keeps_trans [OF onRequest_keeps setContext_keeps])
  with k1 k2 show ?thesis by (blast intro: chan_keeps_trans)
qed

lemma sock_write_same:
  "sock_write data c = (r, c1) \<Longrightarrow> cn_channel c1 = cn_channel c \<and> lp_poller c1 = lp_poller c \<and> cn_state c1 = cn_state c"
  by (auto simp: sock_write_def split: list.splits sum.splits)

lemma handleWrite_keeps [keeps]:
  assumes "handleWrite c = Inr c'"
  shows "chan_keeps c c'"
proof (cases "isWriting (cn_channel c)")
  case True
  obtain d where d: "vec_read (buf_store (cn_output c)) (readerIndex (cn_output c)) (readableBytes (cn_output c)) = Inr d"
    using assms True by (auto simp: handleWrite_def bind_res_eq_Inr_iff)
  obtain r c1 where sw: "sock_write d c = (r, c1)" by fastforce
  have same1: "chan_keeps c (c1\<lparr>cn_output := b\<rparr>)" "chan_keeps c c1" for b
    using sock_write_same [OF sw] by (auto intro: keeps_same)
  have tail: "chan_keeps c2 (if cn_state c4 = kDisconnecting then shutdownInLoop c4 else c4)"
    if "c4 = (if cn_hasWriteComplete (chan_do disableWriting c2) then queueInLoop FWriteComplete (chan_do disableWriting c2)
      else chan_do disableWriting c2)" for c2 c4 :: "'a tcp_connection"
    using that by (intro chan_keeps_trans [OF write_keeps(2) keeps_same])
      (auto simp: shutdownInLoop_def shutdownWrite_def queueInLoop_def)
  show ?thesis
    using assms True d sw same1 chan_keeps_trans [OF same1(1) tail [OF refl]]
    by (auto simp: handleWrite_def Let_def split: sum.splits if_splits)
next
  case False
  with assms show ?thesis by (auto simp: handleWrite_def intro: keeps_same)
qed

text \<open>Closing moves the channel, and nothing sets it up again.\<close>

lemma handleClose_moves:
  assumes "handleClose onConnection Inr c = Inr c'"
  shows "chan_moves c c'"
proof -
  have "onConnection (chan_do disableAll (setState c kDisconnected)) = Inr c'"
    using assms by (auto simp: handleClose_def bind_res_eq_Inr_iff)
  from onConnection_keeps [OF this] have "chan_moves (chan_do disableAll (setState c kDisconnected)) c'"
    by (simp add: chan_keeps_def)
  moreover have "chan_moves c (setState c kDisconnected)" by (simp add: chan_moves_def setState_def)
  moreover have "chan_moves (setState c kDisconnected) (chan_do disableAll (setState c kDisconnected))"
    by (rule chan_do_moves) (auto simp: disableAll_def)
  ultimately show ?thesis by (blast intro: chan_moves_trans)
qed

section \<open>What the pollers know\<close>

definition alive :: "(nat \<Rightarrow> server_task list) \<Rightarrow> nat \<Rightarrow> 'x server_conn \<Rightarrow> bool" where
  "alive q a sc \<longleftrightarrow> \<not> sc_destroyed sc \<or> held q a"

definition registered :: "'x server_conn \<Rightarrow> bool" where
  "registered sc \<longleftrightarrow> ch_index (cn_channel (sc_conn sc)) \<noteq> kNew"

definition owns :: "(nat \<rightharpoonup> 'x server_conn) \<Rightarrow> (nat \<Rightarrow> server_task list) \<Rightarrow> nat \<Rightarrow> int \<Rightarrow> bool" where
  "owns conns q a fd \<longleftrightarrow> (\<exists>sc. conns a = Some sc \<and> alive q a sc \<and> conn_fd sc = fd)"

text \<open>\<open>P\<close> gives for a loop the channels that its poller lists.\<close>

definition conn_wired :: "(nat \<Rightarrow> int \<rightharpoonup> nat) \<Rightarrow> nat \<Rightarrow> 'x server_conn \<Rightarrow> bool" where
  "conn_wired P a sc \<longleftrightarrow> ch_ptr (cn_channel (sc_conn sc)) = a \<and>
     (registered sc \<longrightarrow> P (sc_loop sc) (conn_fd sc) = Some a) \<and>
     (registered sc \<longleftrightarrow> cn_state (sc_conn sc) \<noteq> kConnecting \<and> \<not> sc_destroyed sc) \<and>
     (cn_state (sc_conn sc) \<in> {kConnected, kDisconnecting} \<longrightarrow> watched (sc_conn sc))"

definition wired_on ::
    "nat \<Rightarrow> int \<Rightarrow> nat \<Rightarrow> (nat \<rightharpoonup> 'x server_conn) \<Rightarrow> (nat \<Rightarrow> server_task list) \<Rightarrow> (nat \<Rightarrow> int \<rightharpoonup> nat) \<Rightarrow> bool" where
  "wired_on base afd aptr conns q P \<longleftrightarrow>
     (\<forall>a sc. conns a = Some sc \<longrightarrow> conn_wired P a sc) \<and>
     (\<forall>a b fd. owns conns q a fd \<longrightarrow> owns conns q b fd \<longrightarrow> a = b) \<and> (\<forall>a. \<not> owns conns q a afd) \<and>
     (\<forall>lp fd ptr. P lp fd = Some ptr \<longrightarrow> (lp = base \<and> fd = afd \<and> ptr = aptr) \<or>
       (\<exists>sc. conns ptr = Some sc \<and> sc_loop sc = lp \<and> conn_fd sc = fd \<and> registered sc))"

definition known :: "'x server_sys \<Rightarrow> nat \<Rightarrow> int \<rightharpoonup> nat" where
  "known sy lp = pl_channels (sy_pollers sy lp)"

definition wired :: "'x server_sys \<Rightarrow> bool" where
  "wired sy \<longleftrightarrow> wired_on (sv_loop (sy_server sy)) (ch_fd (ac_channel (sy_acceptor sy)))
     (ch_ptr (ac_channel (sy_acceptor sy))) (sy_conns sy) (sy_queues sy) (known sy)"

lemma wired_onI:
  assumes "\<And>a sc. conns a = Some sc \<Longrightarrow> conn_wired P a sc"
    "\<And>a b fd. owns conns q a fd \<Longrightarrow> owns conns q b fd \<Longrightarrow> a = b" "\<And>a. \<not> owns conns q a afd"
    "\<And>lp fd ptr. P lp fd = Some ptr \<Longrightarrow> (lp = base \<and> fd = afd \<and> ptr = aptr) \<or>
       (\<exists>sc. conns ptr = Some sc \<and> sc_loop sc = lp \<and> conn_fd sc = fd \<and> registered sc)"
  shows "wired_on base afd aptr conns q P"
  using assms unfolding wired_on_def by blast

lemma wired_onD:
  assumes "wired_on base afd aptr conns q P"
  shows "conns a = Some sc \<Longrightarrow> conn_wired P a sc"
    "owns conns q a fd \<Longrightarrow> owns conns q b fd \<Longrightarrow> a = b" "\<not> owns conns q a afd"
    "P lp fd = Some ptr \<Longrightarrow> (lp = base \<and> fd = afd \<and> ptr = aptr) \<or>
       (\<exists>sc. conns ptr = Some sc \<and> sc_loop sc = lp \<and> conn_fd sc = fd \<and> registered sc)"
  using assms unfolding wired_on_def by blast+

lemma registered_alive: "conn_wired P a sc \<Longrightarrow> registered sc \<Longrightarrow> alive q a sc"
  by (simp add: conn_wired_def alive_def)

lemma registered_owns: "wired_on base afd aptr conns q P \<Longrightarrow> conns a = Some sc \<Longrightarrow> registered sc \<Longrightarrow> owns conns q a (conn_fd sc)"
  using registered_alive [OF wired_onD(1)] by (auto simp: owns_def)

lemma conn_wired_other:
  "conn_wired P a sc \<Longrightarrow> registered sc \<longrightarrow> P' (sc_loop sc) (conn_fd sc) = P (sc_loop sc) (conn_fd sc) \<Longrightarrow> conn_wired P' a sc"
  by (simp add: conn_wired_def)

lemma wired_queue:
  assumes W: "wired_on base afd aptr conns q P"
    and q': "\<And>b sd. conns b = Some sd \<Longrightarrow> alive q' b sd \<Longrightarrow> alive q b sd"
  shows "wired_on base afd aptr conns q' P"
proof (rule wired_onI)
  have sub: "owns conns q b fd" if "owns conns q' b fd" for b fd using that q' unfolding owns_def by blast
  show "a = b" if "owns conns q' a fd" "owns conns q' b fd" for a b fd
    using wired_onD(2) [OF W sub sub] that by blast
  show "\<not> owns conns q' a afd" for a using wired_onD(3) [OF W] sub by blast
qed (use wired_onD [OF W] in blast)+

text \<open>A connection changes, and with it its own entry in the poller of its loop.\<close>

lemma wired_update:
  assumes W: "wired_on base afd aptr conns q P" and sc: "conns a = Some sc" "alive q a sc"
    and sc': "sc_loop sc' = sc_loop sc" "conn_fd sc' = conn_fd sc" "conn_wired P' a sc'"
    and P': "P' = P(sc_loop sc := (P (sc_loop sc))(conn_fd sc := (if registered sc' then Some a else None)))"
    and q': "\<And>b sd. conns b = Some sd \<Longrightarrow> b \<noteq> a \<Longrightarrow> alive q' b sd \<Longrightarrow> alive q b sd"
  shows "wired_on base afd aptr (conns(a \<mapsto> sc')) q' P'"
proof (rule wired_onI)
  let ?conns = "conns(a \<mapsto> sc')"
  have own: "owns conns q a (conn_fd sc)" using sc by (auto simp: owns_def)
  have sub: "owns conns q b fd" if "owns ?conns q' b fd" for b fd
    using that own q' sc'(2) by (cases "b = a") (auto simp: owns_def)
  show "conn_wired P' b sd" if sd: "(conns(a \<mapsto> sc')) b = Some sd" for b sd
  proof (cases "b = a")
    case False
    with sd have old: "conns b = Some sd" by simp
    note w = wired_onD(1) [OF W old]
    show ?thesis
    proof (rule conn_wired_other [OF w], intro impI)
      assume "registered sd"
      from wired_onD(2) [OF W registered_owns [OF W old this], of a] own False
      have "conn_fd sd \<noteq> conn_fd sc" by auto
      then show "P' (sc_loop sd) (conn_fd sd) = P (sc_loop sd) (conn_fd sd)" by (simp add: P')
    qed
  qed (use sd sc' in simp)
  show "b = d" if "owns ?conns q' b fd" "owns ?conns q' d fd" for b d fd
    using wired_onD(2) [OF W sub sub] that by blast
  show "\<not> owns ?conns q' b afd" for b using wired_onD(3) [OF W] sub by blast
  show "(lp = base \<and> fd = afd \<and> ptr = aptr) \<or>
      (\<exists>sd. (conns(a \<mapsto> sc')) ptr = Some sd \<and> sc_loop sd = lp \<and> conn_fd sd = fd \<and> registered sd)"
    if entry: "P' lp fd = Some ptr" for lp fd ptr
  proof (cases "lp = sc_loop sc \<and> fd = conn_fd sc")
    case True
    with entry P' have "registered sc'" "ptr = a" by (auto split: if_splits)
    with True sc' show ?thesis by simp
  next
    case False
    then have "P lp fd = Some ptr" using entry P' by (auto split: if_splits)
    from wired_onD(4) [OF W this] False sc(1) show ?thesis by (cases "ptr = a") auto
  qed
qed

lemma wired_insert:
  assumes W: "wired_on base afd aptr conns q P" and a: "conns a = None"
    and sc: "conn_wired P a sc" "conn_fd sc \<noteq> afd"
    and fresh: "\<And>b. \<not> owns conns q b (conn_fd sc)"
  shows "wired_on base afd aptr (conns(a \<mapsto> sc)) q P"
proof (rule wired_onI)
  show "conn_wired P b sd" if "(conns(a \<mapsto> sc)) b = Some sd" for b sd
    using that sc wired_onD(1) [OF W, of b sd] by (auto split: if_splits)
  have sub: "owns conns q b fd \<or> b = a \<and> fd = conn_fd sc" if "owns (conns(a \<mapsto> sc)) q b fd" for b fd
    using that by (cases "b = a") (auto simp: owns_def)
  show "b = d" if "owns (conns(a \<mapsto> sc)) q b fd" "owns (conns(a \<mapsto> sc)) q d fd" for b d fd
    using sub [OF that(1)] sub [OF that(2)] wired_onD(2) [OF W, of b fd d] fresh by blast
  show "\<not> owns (conns(a \<mapsto> sc)) q b afd" for b using wired_onD(3) [OF W] sub [of b afd] sc(2) by blast
  show "(lp = base \<and> fd = afd \<and> ptr = aptr) \<or>
      (\<exists>sd. (conns(a \<mapsto> sc)) ptr = Some sd \<and> sc_loop sd = lp \<and> conn_fd sd = fd \<and> registered sd)"
    if "P lp fd = Some ptr" for lp fd ptr
    using wired_onD(4) [OF W that] a by (cases "ptr = a") auto
qed

lemma wired_listen:
  assumes W: "wired_on base afd aptr conns q P"
  shows "wired_on base afd aptr conns q (P(base := (P base)(afd \<mapsto> aptr)))"
proof (rule wired_onI)
  show "conn_wired (P(base := (P base)(afd \<mapsto> aptr))) a sc" if sc: "conns a = Some sc" for a sc
  proof (rule conn_wired_other [OF wired_onD(1) [OF W sc]], intro impI)
    assume "registered sc"
    then have "conn_fd sc \<noteq> afd" using wired_onD(3) [OF W] registered_owns [OF W sc] by metis
    then show "(P(base := (P base)(afd \<mapsto> aptr))) (sc_loop sc) (conn_fd sc) = P (sc_loop sc) (conn_fd sc)" by simp
  qed
  show "(lp = base \<and> fd = afd \<and> ptr = aptr) \<or>
      (\<exists>sd. conns ptr = Some sd \<and> sc_loop sd = lp \<and> conn_fd sd = fd \<and> registered sd)"
    if "(P(base := (P base)(afd \<mapsto> aptr))) lp fd = Some ptr" for lp fd ptr
    using that wired_onD(4) [OF W, of lp fd ptr] by (auto split: if_splits)
qed (use wired_onD [OF W] in blast)+

section \<open>Events of one connection\<close>

definition usable :: "http_sys \<Rightarrow> nat \<Rightarrow> bool" where
  "usable sy a \<longleftrightarrow> (\<exists>sc. sy_conns sy a = Some sc \<and> conn_inv (sc_conn sc) \<and>
     cn_state (sc_conn sc) \<noteq> kConnecting \<and> \<not> sc_destroyed sc)"

text \<open>What a part of the handling of an event does: it is a run of the server, and it keeps the wiring.\<close>

definition sound :: "http_sys \<Rightarrow> nat \<Rightarrow> http_sys \<Rightarrow> bool" where
  "sound sy a sy' \<longleftrightarrow> (server_step onConnection)\<^sup>*\<^sup>* sy sy' \<and> usable sy' a \<and> (wired sy \<longrightarrow> wired sy')"

lemma sound_refl: "usable sy a \<Longrightarrow> sound sy a sy"
  by (simp add: sound_def)

lemma sound_trans [trans]: "sound r a s \<Longrightarrow> sound s a t \<Longrightarrow> sound r a t"
  by (auto simp: sound_def)

lemma sound_usable: "sound r a s \<Longrightarrow> usable s a"
  by (simp add: sound_def)

lemma sy_same [simp]:
  "sy_server (queue_task lp t sy) = sy_server sy" "sy_acceptor (queue_task lp t sy) = sy_acceptor sy"
  "sy_conns (queue_task lp t sy) = sy_conns sy" "known (queue_task lp t sy) = known sy"
  "sy_queues (queue_task lp t sy) = (sy_queues sy)(lp := sy_queues sy lp @ [t])"
  by (simp_all add: queue_task_def known_def fun_eq_iff)

lemma held_queue: "held (q(lp := q lp @ [t])) b \<longleftrightarrow> held q b \<or> t = TRemove b \<or> t = TDestroy b"
  by (auto simp: held_def)

lemma queue_task_wired:
  assumes "wired sy" "\<And>b sd. t = TRemove b \<or> t = TDestroy b \<Longrightarrow> sy_conns sy b = Some sd \<Longrightarrow> alive (sy_queues sy) b sd"
  shows "wired (queue_task lp t sy)"
  unfolding wired_def
  by (rule wired_queue [of _ _ _ _ "sy_queues sy"])
    (use assms in \<open>auto simp: wired_def alive_def held_queue\<close>)

lemma move_wired:
  assumes W: "wired sy" and sc: "sy_conns sy a = Some sc" "cn_state (sc_conn sc) \<noteq> kConnecting" "\<not> sc_destroyed sc"
    and c: "chan_moves ((sc_conn sc)\<lparr>lp_poller := sy_pollers sy (sc_loop sc)\<rparr>) c" "cn_state c \<noteq> kConnecting"
      "cn_state c \<in> {kConnected, kDisconnecting} \<longrightarrow> watched c"
  shows "wired (sy\<lparr>sy_conns := (sy_conns sy)(a \<mapsto> sc\<lparr>sc_conn := c\<rparr>),
    sy_pollers := (sy_pollers sy)(sc_loop sc := lp_poller c)\<rparr>)"
proof -
  let ?sc = "sc\<lparr>sc_conn := c\<rparr>"
    and ?sy = "sy\<lparr>sy_conns := (sy_conns sy)(a \<mapsto> sc\<lparr>sc_conn := c\<rparr>), sy_pollers := (sy_pollers sy)(sc_loop sc := lp_poller c)\<rparr>"
  note W = W [unfolded wired_def]
  have w: "conn_wired (known sy) a sc" by (rule wired_onD(1) [OF W sc(1)])
  then have reg: "registered sc" "known sy (sc_loop sc) (conn_fd sc) = Some a"
    using sc by (auto simp: conn_wired_def)
  have same: "known ?sy = known sy"
    using c(1) reg(1) by (auto simp: known_def fun_eq_iff chan_moves_def registered_def)
  have fd: "conn_fd ?sc = conn_fd sc" "registered ?sc"
    using c(1) reg(1) by (simp_all add: conn_fd_def chan_moves_def registered_def)
  have w': "conn_wired (known ?sy) a ?sc"
    unfolding same using w reg(2) fd c sc by (simp add: conn_wired_def chan_moves_def)
  have P: "known ?sy = (known sy)(sc_loop sc := (known sy (sc_loop sc))(conn_fd sc := (if registered ?sc then Some a else None)))"
    using reg(2) fd(2) by (simp add: same fun_upd_idem)
  show ?thesis
    unfolding wired_def
    using wired_update [OF W sc(1) _ _ fd(1) w' P, of "sy_queues sy"] sc(3) by (simp add: alive_def)
qed

lemma usableE:
  assumes "usable sy a"
  obtains sc where "sy_conns sy a = Some sc" "conn_inv (sc_conn sc)" "cn_state (sc_conn sc) \<noteq> kConnecting"
    "\<not> sc_destroyed sc"
  using assms unfolding usable_def by blast

lemma event_sound:
  assumes "usable sy a" and sc: "sy_conns sy a = Some sc" and run: "on_conn f a sy = Inr sy'"
    and f: "\<And>c c'. conn_inv c \<Longrightarrow> cn_input c = cn_input (sc_conn sc) \<Longrightarrow> f c = Inr c' \<Longrightarrow> conn_step c c' \<and> chan_keeps c c'"
  shows "sound sy a sy'"
proof -
  let ?c = "(sc_conn sc)\<lparr>lp_poller := sy_pollers sy (sc_loop sc)\<rparr>"
  have u: "conn_inv (sc_conn sc)" "cn_state (sc_conn sc) \<noteq> kConnecting" "\<not> sc_destroyed sc"
    using assms(1) sc by (auto elim!: usableE)
  from run sc obtain c where c: "f ?c = Inr c"
      "sy' = sy\<lparr>sy_conns := (sy_conns sy)(a \<mapsto> sc\<lparr>sc_conn := c\<rparr>), sy_pollers := (sy_pollers sy)(sc_loop sc := lp_poller c)\<rparr>"
    by (auto elim!: on_conn_InrE)
  have inv: "conn_inv ?c" using conn_stepD [OF poller_step u(1)] by blast
  with f [OF inv _ c(1)] have st: "conn_step ?c c" "chan_keeps ?c c" by simp_all
  have step: "conn_step (sc_conn sc) c" by (rule conn_step_trans [OF poller_step st(1)])
  have state: "cn_state c \<noteq> kConnecting" using conn_step_state(2) [OF step u(1)] u(2) by blast
  have "cn_state c = kDisconnected \<longrightarrow> cn_state (sc_conn sc) = kDisconnected"
    using st(2) by (simp add: chan_keeps_def)
  then have "server_step onConnection sy sy'"
    by (rule server_step.event [OF sc u(2,3) step]) (use c sc in \<open>simp add: on_conn_def\<close>)
  moreover have "usable sy' a"
    using c(2) conn_stepD [OF step u(1)] state u(3) by (auto simp: usable_def)
  moreover have "wired sy'" if W: "wired sy"
    unfolding c(2)
  proof (rule move_wired [OF W sc u(2,3) _ state])
    show "chan_moves ?c c" using st(2) by (simp add: chan_keeps_def)
    have w: "conn_wired (known sy) a sc" using W sc by (auto simp: wired_def dest: wired_onD(1))
    show "cn_state c \<in> {kConnected, kDisconnecting} \<longrightarrow> watched c"
    proof
      assume "cn_state c \<in> {kConnected, kDisconnecting}"
      then have "cn_state (sc_conn sc) \<noteq> kDisconnected" using conn_step_state(1) [OF step u(1)] by auto
      then have "cn_state (sc_conn sc) \<in> {kConnected, kDisconnecting}" using u(2) by (cases "cn_state (sc_conn sc)") auto
      then have "watched ?c" using w by (simp add: conn_wired_def watched_def)
      then show "watched c" using st(2) by (simp add: chan_keeps_def)
    qed
  qed
  ultimately show ?thesis by (simp add: sound_def r_into_rtranclp)
qed

lemma close_sound:
  assumes "usable sy a" and run: "close_event onConnection a sy = Inr sy'"
  shows "sound sy a sy'"
proof -
  obtain sc where sc: "sy_conns sy a = Some sc" and u: "conn_inv (sc_conn sc)" "cn_state (sc_conn sc) \<noteq> kConnecting"
      "\<not> sc_destroyed sc"
    by (rule usableE [OF assms(1)])
  let ?c = "(sc_conn sc)\<lparr>lp_poller := sy_pollers sy (sc_loop sc)\<rparr>"
  from run sc obtain sy1 where sy1: "on_conn (handleClose onConnection Inr) a sy = Inr sy1"
      "removeConnection onConnection (sc_loop sc) a sy1 = Inr sy'"
    by (auto simp: close_event_def bind_res_eq_Inr_iff)
  from sy1(1) sc obtain c where c: "handleClose onConnection Inr ?c = Inr c"
      "sy1 = sy\<lparr>sy_conns := (sy_conns sy)(a \<mapsto> sc\<lparr>sc_conn := c\<rparr>), sy_pollers := (sy_pollers sy)(sc_loop sc := lp_poller c)\<rparr>"
    by (auto elim!: on_conn_InrE)
  have inv: "conn_inv ?c" using conn_stepD [OF poller_step u(1)] by blast
  note closed = http_conn.closed [OF inv c(1)]
  have sc1: "sy_conns sy1 a = Some (sc\<lparr>sc_conn := c\<rparr>)" by (simp add: c(2))
  have same: "sy_conns sy' = sy_conns sy1"
    using sy1(2) sc1 by (auto simp: removeConnection_def run_in_loop_def removeConnectionInLoop_def queue_task_def Let_def
        split: if_splits)
  have "server_step onConnection sy sy'" by (rule server_step.close [OF sc u(2,3) run])
  moreover have "usable sy' a" using same sc1 closed u(3) by (simp add: usable_def)
  moreover have "wired sy'" if "wired sy"
  proof -
    have W1: "wired sy1" unfolding c(2)
      by (rule move_wired [OF that sc u(2,3) handleClose_moves [OF c(1)]]) (use closed(2) in auto)
    have al: "alive (sy_queues sy1) a sd" if "sy_conns sy1 a = Some sd" for sd
      using that sc1 u(3) by (auto simp: alive_def)
    show ?thesis
    proof (cases "sc_loop sc = sv_loop (sy_server sy1)")
      case True
      let ?srv = "sy_server sy1"
      let ?sy2 = "sy1\<lparr>sy_server := ?srv\<lparr>sv_connections := (sv_connections ?srv)(sc_name sc := None)\<rparr>\<rparr>"
      have "sy' = queue_task (sc_loop sc) (TDestroy a) ?sy2"
        using True sy1(2) sc1 by (simp add: removeConnection_def run_in_loop_def removeConnectionInLoop_def Let_def)
      moreover have "wired ?sy2" using W1 by (simp add: wired_def known_def [abs_def])
      ultimately show ?thesis using al by (auto intro!: queue_task_wired)
    next
      case False
      then have "sy' = queue_task (sv_loop (sy_server sy1)) (TRemove a) sy1"
        using sy1(2) by (simp add: removeConnection_def run_in_loop_def)
      then show ?thesis using W1 al by (auto intro!: queue_task_wired)
    qed
  qed
  ultimately show ?thesis by (simp add: sound_def r_into_rtranclp)
qed

lemma handleRead_keeps:
  assumes "handleRead onConnection (onMessage cb) Inr r t c = Inr c'" "\<not> at_eof r (cn_input c)"
  shows "chan_keeps c c'"
proof -
  obtain b n where rd: "readFd (cn_input c) r = Inr (b, n)"
    using assms(1) by (cases "readFd (cn_input c) r") (auto simp: handleRead_def)
  have "chan_keeps c (c\<lparr>cn_input := b\<rparr>)" by (rule keeps_same) simp_all
  then show ?thesis
    using assms rd chan_keeps_trans [OF _ onMessage_keeps]
    by (cases n) (auto simp: handleRead_def handleError_def at_eof_def Let_def)
qed

lemma read_sound:
  assumes "usable sy a" and run: "read_event onConnection (onMessage cb) a r t sy = Inr sy'"
  shows "sound sy a sy'"
proof -
  obtain sc where sc: "sy_conns sy a = Some sc" and u: "conn_inv (sc_conn sc)" by (rule usableE [OF assms(1)])
  show ?thesis
  proof (cases "at_eof r (cn_input (sc_conn sc))")
    case True
    then obtain b n where "readFd (cn_input (sc_conn sc)) r = Inr (b, n)" "case n of Inr k \<Rightarrow> k = 0 | _ \<Rightarrow> False"
      by (cases "readFd (cn_input (sc_conn sc)) r") (auto simp: at_eof_def)
    then have b: "readFd (cn_input (sc_conn sc)) r = Inr (b, Inr 0)" by (cases n) auto
    have "buf_inv (cn_input (sc_conn sc))" using u by (simp add: conn_inv_def)
    then have inv: "buf_inv b" by (rule readFd_inv [OF _ b])
    have swap: "c\<lparr>lp_poller := p, cn_input := b\<rparr> = c\<lparr>cn_input := b, lp_poller := p\<rparr>" for c :: http_connection and p
      by simp
    have "read_event onConnection (onMessage cb) a r t sy =
        bind_res (on_conn (\<lambda>c. Inr (c\<lparr>cn_input := b\<rparr>)) a sy) (close_event onConnection a)"
      using sc True b
      by (cases "handleClose onConnection Inr ((sc_conn sc)\<lparr>cn_input := b, lp_poller := sy_pollers sy (sc_loop sc)\<rparr>)")
        (simp_all add: read_event_def on_conn_def handleRead_def close_event_def swap)
    with run obtain sy1 where sy1: "on_conn (\<lambda>c. Inr (c\<lparr>cn_input := b\<rparr>)) a sy = Inr sy1"
        "close_event onConnection a sy1 = Inr sy'"
      by (auto simp: bind_res_eq_Inr_iff)
    have "sound sy a sy1"
      by (rule event_sound [OF assms(1) sc sy1(1)]) (auto intro: input_step [OF inv] keeps_same)
    then show ?thesis using close_sound [OF sound_usable sy1(2)] sound_trans by blast
  next
    case False
    then have "on_conn (handleRead onConnection (onMessage cb) Inr r t) a sy = Inr sy'"
      using run sc by (auto simp: read_event_def bind_res_eq_Inr_iff)
    then show ?thesis
      by (rule event_sound [OF assms(1) sc]) (use False in \<open>auto intro: http.handleRead_step handleRead_keeps\<close>)
  qed
qed

lemma write_sound:
  assumes "usable sy a" "on_conn handleWrite a sy = Inr sy'"
  shows "sound sy a sy'"
proof -
  obtain sc where sc: "sy_conns sy a = Some sc" by (rule usableE [OF assms(1)])
  have "conn_step c c'" if "conn_inv c" "handleWrite c = Inr c'" for c c' :: http_connection
    using handleWrite_step [OF that(1)] that(2) by auto
  then show ?thesis by (intro event_sound [OF assms(1) sc assms(2)]) (blast intro: handleWrite_keeps)
qed

lemma error_sound:
  assumes "usable sy a" "on_conn (\<lambda>c. Inr (handleError c)) a sy = Inr sy'"
  shows "sound sy a sy'"
proof -
  obtain sc where sc: "sy_conns sy a = Some sc" by (rule usableE [OF assms(1)])
  show ?thesis by (rule event_sound [OF assms(1) sc assms(2)]) (auto simp: handleError_def intro: keeps_same)
qed

lemma call_sound:
  assumes "usable s a" "call_if g cb s = Inr s'" "\<And>f. cb = Some f \<Longrightarrow> f s = Inr s' \<Longrightarrow> sound s a s'"
  shows "sound s a s'"
  using assms by (auto simp: call_if_def sound_refl split: if_splits option.splits)

lemma guard_sound:
  assumes "usable sy a" "handleEventWithGuard (conn_callbacks onConnection (onMessage cb) a r) w t sy = Inr sy'"
  shows "sound sy a sy'"
proof -
  let ?cbs = "conn_callbacks onConnection (onMessage cb) a r"
  have cbs: "cb_close ?cbs = Some (close_event onConnection a)" "cb_write ?cbs = Some (on_conn handleWrite a)"
      "cb_error ?cbs = Some (on_conn (\<lambda>c. Inr (handleError c)) a)"
      "cb_read ?cbs = Some (\<lambda>t. read_event onConnection (onMessage cb) a r t)"
    by (simp_all add: conn_callbacks_def setErrorCallback_def setCloseCallback_def setReadCallback_def setWriteCallback_def)
  obtain s1 s2 s3 where
      s1: "call_if (w AND EPOLLHUP \<noteq> 0 \<and> \<not> w AND EPOLLIN \<noteq> 0) (cb_close ?cbs) sy = Inr s1" and
      s2: "call_if (w AND EPOLLERR \<noteq> 0) (cb_error ?cbs) s1 = Inr s2" and
      s3: "call_if (w AND (EPOLLIN OR EPOLLPRI) \<noteq> 0) (map_option (\<lambda>f. f t) (cb_read ?cbs)) s2 = Inr s3" and
      s4: "call_if (w AND EPOLLOUT \<noteq> 0) (cb_write ?cbs) s3 = Inr sy'"
    using assms(2) unfolding handleEventWithGuard_def bind_res_eq_Inr_iff by blast
  have 1: "sound sy a s1" by (rule call_sound [OF assms(1) s1]) (use close_sound [OF assms(1)] in \<open>auto simp: cbs\<close>)
  note u1 = sound_usable [OF 1]
  have 2: "sound s1 a s2" by (rule call_sound [OF u1 s2]) (use error_sound [OF u1] in \<open>auto simp: cbs\<close>)
  note u2 = sound_usable [OF 2]
  have 3: "sound s2 a s3" by (rule call_sound [OF u2 s3]) (use read_sound [OF u2] in \<open>auto simp: cbs\<close>)
  note u3 = sound_usable [OF 3]
  have 4: "sound s3 a sy'" by (rule call_sound [OF u3 s4]) (use write_sound [OF u3] in \<open>auto simp: cbs\<close>)
  from 1 2 3 4 show ?thesis by (blast intro: sound_trans)
qed

lemma revents_sound:
  assumes "usable sy a" "on_conn (\<lambda>c. Inr (c\<lparr>cn_channel := set_revents (cn_channel c) w\<rparr>)) a sy = Inr sy'"
  shows "sound sy a sy'"
proof -
  obtain sc where sc: "sy_conns sy a = Some sc" by (rule usableE [OF assms(1)])
  have st: "conn_step c (c\<lparr>cn_channel := set_revents (cn_channel c) w\<rparr>)" for c :: http_connection
    by (auto simp: conn_step_def conn_inv_def conn_le_def stream_def set_revents_def isWriting_def)
  have k: "chan_keeps c (c\<lparr>cn_channel := set_revents (cn_channel c) w\<rparr>)" for c :: http_connection
    by (auto simp: chan_keeps_def chan_moves_def watched_def set_revents_def isReading_def)
  show ?thesis by (rule event_sound [OF assms(1) sc assms(2)]) (use st k in auto)
qed

lemma channel_event_sound:
  assumes "usable sy a" "channel_event onConnection (onMessage cb) a w r t sy = Inr sy'"
  shows "sound sy a sy'"
proof -
  obtain sc where sc: "sy_conns sy a = Some sc" by (rule usableE [OF assms(1)])
  with assms(2) obtain s1 where
      s1: "on_conn (\<lambda>c. Inr (c\<lparr>cn_channel := set_revents (cn_channel c) w\<rparr>)) a sy = Inr s1" and
      s2: "handleEvent (conn_callbacks onConnection (onMessage cb) a r) (set_revents (cn_channel (sc_conn sc)) w)
        (\<not> sc_destroyed sc) t s1 = Inr sy'"
    by (auto simp: channel_event_def bind_res_eq_Inr_iff)
  have 1: "sound sy a s1" by (rule revents_sound [OF assms(1) s1])
  from s2 have "handleEventWithGuard (conn_callbacks onConnection (onMessage cb) a r) w t s1 = Inr sy' \<or> sy' = s1"
    by (auto simp: handleEvent_def set_revents_def split: if_splits)
  then have "sound s1 a sy'" using guard_sound [OF sound_usable [OF 1]] sound_refl [OF sound_usable [OF 1]] by blast
  with 1 show ?thesis by (rule sound_trans)
qed

section \<open>The functors\<close>

lemma pop_wired:
  assumes "wired (sy\<lparr>sy_queues := (sy_queues sy)(lp := t # sy_queues sy lp)\<rparr>)"
  shows "wired sy"
  unfolding wired_def
  by (rule wired_queue [of _ _ _ _ "(sy_queues sy)(lp := t # sy_queues sy lp)"])
    (use assms in \<open>auto simp: wired_def known_def [abs_def] alive_def held_def split: if_splits\<close>)

lemma listen_wired:
  assumes "wired sy"
  shows "wired (server_listen sy)"
proof -
  let ?base = "sv_loop (sy_server sy)" and ?ch = "ac_channel (sy_acceptor sy)"
  obtain p ch where u: "updateChannel (sy_pollers sy ?base) (?ch\<lparr>ch_events := ch_events ?ch OR kReadEvent\<rparr>) = (p, ch)"
    by fastforce
  from update_moves [OF u] have ch: "ch_fd ch = ch_fd ?ch" "ch_ptr ch = ch_ptr ?ch"
      "pl_channels p = (if ch_index ?ch = kNew then (known sy ?base)(ch_fd ?ch \<mapsto> ch_ptr ?ch) else known sy ?base)"
    by (simp_all add: known_def)
  let ?sy = "server_listen sy"
  have eq: "?sy = sy\<lparr>sy_acceptor := (sy_acceptor sy)\<lparr>ac_listenning := True,
        ac_socket := socket_listen (ac_socket (sy_acceptor sy)), ac_channel := ch\<rparr>,
      sy_pollers := (sy_pollers sy)(?base := p)\<rparr>"
    using u by (simp add: server_listen_def acceptor_listen_def acceptor_do_def enableReading_def Let_def)
  have "known ?sy = known sy \<or> known ?sy = (known sy)(?base := (known sy ?base)(ch_fd ?ch \<mapsto> ch_ptr ?ch))"
    using ch(3) by (auto simp: eq known_def fun_eq_iff)
  then show ?thesis
    using assms wired_listen [of ?base "ch_fd ?ch" "ch_ptr ?ch" "sy_conns sy" "sy_queues sy" "known sy"] ch(1,2)
    by (auto simp: wired_def eq)
qed

lemma established_channel:
  assumes "connectEstablished onConnection c = Inr c'" "ch_index (cn_channel c) = kNew"
  shows "ch_fd (cn_channel c') = ch_fd (cn_channel c)" "ch_ptr (cn_channel c') = ch_ptr (cn_channel c)"
    "watched c'" "cn_state c' = kConnected"
    "pl_channels (lp_poller c') = (pl_channels (lp_poller c))(ch_fd (cn_channel c) \<mapsto> ch_ptr (cn_channel c))"
proof -
  let ?ch = "tie (cn_channel c)"
  obtain p ch where u: "updateChannel (lp_poller c) (?ch\<lparr>ch_events := ch_events ?ch OR kReadEvent\<rparr>) = (p, ch)"
    by fastforce
  have c': "cn_channel c' = ch" "lp_poller c' = p" "cn_state c' = kConnected"
    using assms(1) u by (auto simp: connectEstablished_def onConnection_def setState_def setContext_def connected_def
        chan_do_def enableReading_def Let_def split: if_splits)
  from update_moves [OF u] c' show "ch_fd (cn_channel c') = ch_fd (cn_channel c)"
      "ch_ptr (cn_channel c') = ch_ptr (cn_channel c)" "cn_state c' = kConnected"
      "pl_channels (lp_poller c') = (pl_channels (lp_poller c))(ch_fd (cn_channel c) \<mapsto> ch_ptr (cn_channel c))"
    using assms(2) by simp_all
  have "ch = set_index (?ch\<lparr>ch_events := ch_events ?ch OR kReadEvent\<rparr>) kAdded"
    using u assms(2) by (auto simp: updateChannel_def Let_def)
  then have "ch_index ch = kAdded" "bit (ch_events ch) 0"
    by (simp_all add: event_masks bit_simps)
  with c' show "watched c'" by (simp add: watched_def isReading_bits)
qed

lemma establish_wired:
  assumes W: "wired sy" and sc: "sy_conns sy a = Some sc" "cn_state (sc_conn sc) = kConnecting" "\<not> sc_destroyed sc"
    and run: "on_conn (connectEstablished onConnection) a sy = Inr sy'"
  shows "wired sy'"
proof -
  note W = W [unfolded wired_def]
  have w: "conn_wired (known sy) a sc" by (rule wired_onD(1) [OF W sc(1)])
  let ?c = "(sc_conn sc)\<lparr>lp_poller := sy_pollers sy (sc_loop sc)\<rparr>"
  from run sc obtain c where c: "connectEstablished onConnection ?c = Inr c"
      "sy' = sy\<lparr>sy_conns := (sy_conns sy)(a \<mapsto> sc\<lparr>sc_conn := c\<rparr>), sy_pollers := (sy_pollers sy)(sc_loop sc := lp_poller c)\<rparr>"
    by (auto elim!: on_conn_InrE)
  let ?sc = "sc\<lparr>sc_conn := c\<rparr>"
  have "ch_index (cn_channel ?c) = kNew" using w sc(2) by (simp add: conn_wired_def registered_def)
  note e = established_channel [OF c(1) this]
  have fd: "conn_fd ?sc = conn_fd sc" "registered ?sc"
    using e by (simp_all add: conn_fd_def registered_def watched_def index_values)
  have ptr: "ch_ptr (cn_channel (sc_conn sc)) = a" using w by (simp add: conn_wired_def)
  have P: "known sy' = (known sy)(sc_loop sc := (known sy (sc_loop sc))(conn_fd sc := (if registered ?sc then Some a else None)))"
    using e(5) fd(2) ptr by (auto simp: c(2) known_def conn_fd_def fun_eq_iff)
  have w': "conn_wired (known sy') a ?sc"
    unfolding P using fd e ptr sc(3) by (simp add: conn_wired_def)
  show ?thesis
    using wired_update [OF W sc(1) _ _ fd(1) w' P, of "sy_queues sy"] sc(3)
    by (simp add: wired_def c(2) alive_def)
qed

lemma remove_wired:
  assumes W: "wired (sy\<lparr>sy_queues := (sy_queues sy)(lp := TRemove a # sy_queues sy lp)\<rparr>)"
    and run: "removeConnectionInLoop a sy = Inr sy'"
  shows "wired sy'"
proof -
  let ?q = "(sy_queues sy)(lp := TRemove a # sy_queues sy lp)"
  from run obtain sc where sc: "sy_conns sy a = Some sc"
    by (auto simp: removeConnectionInLoop_def split: option.splits)
  with run have "sy_conns sy' = sy_conns sy" "sy_acceptor sy' = sy_acceptor sy"
      "sv_loop (sy_server sy') = sv_loop (sy_server sy)" "known sy' = known sy"
      "sy_queues sy' = (sy_queues sy)(sc_loop sc := sy_queues sy (sc_loop sc) @ [TDestroy a])"
    by (auto simp: removeConnectionInLoop_def queue_task_def known_def fun_eq_iff Let_def)
  moreover have "wired_on (sv_loop (sy_server sy)) (ch_fd (ac_channel (sy_acceptor sy)))
      (ch_ptr (ac_channel (sy_acceptor sy))) (sy_conns sy)
      ((sy_queues sy)(sc_loop sc := sy_queues sy (sc_loop sc) @ [TDestroy a])) (known sy)"
  proof (rule wired_queue)
    show "wired_on (sv_loop (sy_server sy)) (ch_fd (ac_channel (sy_acceptor sy)))
        (ch_ptr (ac_channel (sy_acceptor sy))) (sy_conns sy) ?q (known sy)"
      using W by (simp add: wired_def known_def [abs_def])
    show "alive ?q b sd" if "alive ((sy_queues sy)(sc_loop sc := sy_queues sy (sc_loop sc) @ [TDestroy a])) b sd" for b sd
      using that unfolding alive_def held_queue by (auto simp: held_def split: if_splits)
  qed
  ultimately show ?thesis by (simp add: wired_def)
qed

lemma destroy_wired:
  assumes W: "wired (sy\<lparr>sy_queues := (sy_queues sy)(lp := TDestroy a # sy_queues sy lp)\<rparr>)"
    and sc: "sy_conns sy a = Some sc" "cn_state (sc_conn sc) = kDisconnected"
    and run: "run_task onConnection (TDestroy a) sy = Inr sy'"
  shows "wired sy'"
proof -
  let ?q = "(sy_queues sy)(lp := TDestroy a # sy_queues sy lp)"
  have W: "wired_on (sv_loop (sy_server sy)) (ch_fd (ac_channel (sy_acceptor sy)))
      (ch_ptr (ac_channel (sy_acceptor sy))) (sy_conns sy) ?q (known sy)"
    using W by (simp add: wired_def known_def [abs_def])
  have w: "conn_wired (known sy) a sc" by (rule wired_onD(1) [OF W sc(1)])
  let ?c = "(sc_conn sc)\<lparr>lp_poller := sy_pollers sy (sc_loop sc)\<rparr>"
  let ?c' = "chan_do remove_channel ?c"
  let ?sc = "sc\<lparr>sc_conn := ?c', sc_destroyed := True\<rparr>"
  have "connectDestroyed onConnection ?c = Inr ?c'" using sc(2) by (simp add: connectDestroyed_def)
  then have "run_task onConnection (TDestroy a) sy = Inr (sy\<lparr>sy_conns := (sy_conns sy)(a \<mapsto> ?sc),
      sy_pollers := (sy_pollers sy)(sc_loop sc := lp_poller ?c')\<rparr>)"
    using sc(1) by (simp add: on_conn_def set_destroyed_def)
  with run have sy': "sy' = sy\<lparr>sy_conns := (sy_conns sy)(a \<mapsto> ?sc), sy_pollers := (sy_pollers sy)(sc_loop sc := lp_poller ?c')\<rparr>"
    by simp
  have ch: "cn_channel ?c' = set_index (cn_channel (sc_conn sc)) kNew"
    by (simp add: remove_channel_def removeChannel_def Let_def)
  have pl: "pl_channels (lp_poller ?c') = (known sy (sc_loop sc))(conn_fd sc := None)"
    by (simp add: chan_do_def remove_channel_def removeChannel_def conn_fd_def known_def Let_def)
  have fd: "conn_fd ?sc = conn_fd sc" "\<not> registered ?sc"
    using ch by (simp_all add: conn_fd_def registered_def)
  have P: "known sy' = (known sy)(sc_loop sc := (known sy (sc_loop sc))(conn_fd sc := (if registered ?sc then Some a else None)))"
    using pl fd(2) by (auto simp: sy' known_def fun_eq_iff)
  have w': "conn_wired (known sy') a ?sc"
    using fd(2) w ch sc(2) by (simp add: conn_wired_def)
  have "wired_on (sv_loop (sy_server sy)) (ch_fd (ac_channel (sy_acceptor sy)))
      (ch_ptr (ac_channel (sy_acceptor sy))) ((sy_conns sy)(a \<mapsto> ?sc)) (sy_queues sy) (known sy')"
  proof (rule wired_update [OF W sc(1) _ _ fd(1) w' P])
    show "alive ?q a sc" by (auto simp: alive_def held_def)
    show "alive ?q b sd" if "alive (sy_queues sy) b sd" for b sd
      using that by (auto simp: alive_def held_def split: if_splits)
  qed simp
  then show ?thesis by (simp add: wired_def sy')
qed

section \<open>Every step\<close>

lemma fd_open_iff:
  "fd_open sy fd \<longleftrightarrow> fd = ch_fd (ac_channel (sy_acceptor sy)) \<or> (\<exists>a. owns (sy_conns sy) (sy_queues sy) a fd)"
  by (auto simp: fd_open_def owns_def alive_def)

lemma newConnection_wired:
  assumes W: "wired sy" and fresh: "sy_conns sy a = None" "\<not> fd_open sy fd"
    and new: "newConnection onConnection x0 a ws fd peer sy = Inr sy'"
  shows "wired sy'"
proof -
  let ?srv = "sy_server sy"
  let ?n = "connName (sv_name ?srv) (sv_ipPort ?srv) (sv_nextConnId ?srv)"
  obtain ioLoop pool where
      run: "run_in_loop onConnection (sv_loop ?srv) ioLoop (TEstablish a)
       (sy\<lparr>sy_server := ?srv\<lparr>sv_pool := pool, sv_nextConnId := sv_nextConnId ?srv + 1,
                             sv_connections := (sv_connections ?srv)(?n \<mapsto> a)\<rparr>,
           sy_conns := (sy_conns sy)(a \<mapsto> \<lparr>sc_name = ?n, sc_loop = ioLoop,
             sc_conn = new_connection x0 a fd (sy_pollers sy ioLoop) ws, sc_destroyed = False\<rparr>)\<rparr>) = Inr sy'"
    by (rule newConnection_InrE [OF new]) blast
  let ?sc = "\<lparr>sc_name = ?n, sc_loop = ioLoop, sc_conn = new_connection x0 a fd (sy_pollers sy ioLoop) ws,
      sc_destroyed = False\<rparr>"
  let ?srv1 = "?srv\<lparr>sv_pool := pool, sv_nextConnId := sv_nextConnId ?srv + 1,
      sv_connections := (sv_connections ?srv)(?n \<mapsto> a)\<rparr>"
  let ?sy1 = "sy\<lparr>sy_server := ?srv1, sy_conns := (sy_conns sy)(a \<mapsto> ?sc)\<rparr>"
  have sc: "conn_fd ?sc = fd" "conn_wired (known sy) a ?sc"
    by (simp_all add: conn_fd_def conn_wired_def registered_def new_connection_def index_values)
  have "wired_on (sv_loop ?srv) (ch_fd (ac_channel (sy_acceptor sy))) (ch_ptr (ac_channel (sy_acceptor sy)))
      ((sy_conns sy)(a \<mapsto> ?sc)) (sy_queues sy) (known sy)"
    by (rule wired_insert [OF W [unfolded wired_def] fresh(1) sc(2)])
      (use fresh(2) sc(1) in \<open>simp_all add: fd_open_iff\<close>)
  then have W1: "wired ?sy1" by (simp add: wired_def known_def [abs_def])
  show ?thesis
  proof (cases "sv_loop ?srv = ioLoop")
    case True
    with run have "on_conn (connectEstablished onConnection) a ?sy1 = Inr sy'" by (simp add: run_in_loop_def)
    from establish_wired [OF W1 _ _ _ this, of ?sc] show ?thesis by simp
  next
    case False
    with run have "sy' = queue_task ioLoop (TEstablish a) ?sy1" by (simp add: run_in_loop_def)
    then show ?thesis using queue_task_wired [OF W1, of "TEstablish a" ioLoop] by simp
  qed
qed

lemma start_wired:
  assumes "wired sy" "start_server onConnection startLoop hasInit t sy = Inr sy'"
  shows "wired sy'"
proof -
  have upd: "wired (sy\<lparr>sy_server := srv\<rparr>)" if "sv_loop srv = sv_loop (sy_server sy)" for srv
    using assms(1) that by (simp add: wired_def known_def [abs_def])
  show ?thesis
    using assms(2) by (auto simp: start_server_def run_in_loop_def Let_def split: if_splits
        intro!: upd listen_wired queue_task_wired)
qed

lemma run_wired:
  assumes ok: "server_ok (sy\<lparr>sy_queues := (sy_queues sy)(lp := task # sy_queues sy lp)\<rparr>)"
    and W: "wired (sy\<lparr>sy_queues := (sy_queues sy)(lp := task # sy_queues sy lp)\<rparr>)"
    and run: "run_task onConnection task sy = Inr sy'"
  shows "wired sy'"
proof -
  let ?base = "sv_loop (sy_server sy)" and ?m = "sv_connections (sy_server sy)"
  have so: "sys_ok ?base ?m (sy_conns sy) ((sy_queues sy)(lp := task # sy_queues sy lp))"
    using server_okD(3) [OF ok] by simp
  have t: "task_ok ?base ?m (sy_conns sy) lp task" by (rule sys_okD(3) [OF so, where lp = lp]) simp
  show ?thesis
  proof (cases task)
    case TListen
    with run listen_wired [OF pop_wired [OF W]] show ?thesis by simp
  next
    case (TEstablish a)
    with t obtain sc where sc: "sy_conns sy a = Some sc" "cn_state (sc_conn sc) = kConnecting" by auto
    then have "\<not> sc_destroyed sc" using sys_okD(2) [OF so sc(1)] by (auto simp: conn_ok_def)
    with run TEstablish show ?thesis using establish_wired [OF pop_wired [OF W] sc] by simp
  next
    case (TRemove a)
    with run W show ?thesis by (auto intro: remove_wired)
  next
    case (TDestroy a)
    with t obtain sc where "sy_conns sy a = Some sc" "cn_state (sc_conn sc) = kDisconnected" by auto
    with run W TDestroy show ?thesis by (blast intro: destroy_wired)
  qed
qed

lemma usableI:
  "server_ok sy \<Longrightarrow> sy_conns sy a = Some sc \<Longrightarrow> cn_state (sc_conn sc) \<noteq> kConnecting \<Longrightarrow> \<not> sc_destroyed sc \<Longrightarrow> usable sy a"
  using server_ok_conn by (auto simp: usable_def)

lemma http_step_sound:
  assumes "http_step cb sy sy'" "server_ok sy" "wired sy"
  shows "(server_step onConnection)\<^sup>*\<^sup>* sy sy' \<and> wired sy'"
  using assms
proof (induction rule: http_step.induct)
  case (h_accept sy a r ws peer0 sy' fds)
  have "server_step onConnection sy sy'" by (rule server_step.accept [OF h_accept(1,2,4)])
  moreover have "wired sy'"
    using h_accept by (auto simp: acceptor_handleRead_def socket_accept_def bind_res_eq_Inr_iff
        split: sum.splits intro: newConnection_wired)
  ultimately show ?case by blast
next
  case (h_run sy lp task tasks sy')
  have eq: "sy\<lparr>sy_queues := (sy_queues sy)(lp := tasks)\<rparr>\<lparr>sy_queues := ((sy_queues sy)(lp := tasks))(lp := task # tasks)\<rparr> = sy"
    using h_run(1) by (metis fun_upd_triv fun_upd_upd server_sys.surjective server_sys.update_convs(4))
  have "wired sy'"
    using run_wired [of "sy\<lparr>sy_queues := (sy_queues sy)(lp := tasks)\<rparr>" lp task sy'] h_run eq by simp
  with server_step.run [OF h_run(1,2)] show ?case by blast
next
  case (h_event sy a sc r w t sy')
  have "conn_wired (known sy) a sc" using h_event(1,5) by (auto simp: wired_def dest: wired_onD(1))
  then have "cn_state (sc_conn sc) \<noteq> kConnecting" "\<not> sc_destroyed sc"
    using h_event(2) by (simp_all add: conn_wired_def registered_def index_values)
  with channel_event_sound [OF usableI h_event(3)] h_event show ?case by (simp add: sound_def)
next
  case (h_send sy a sc ptr s sy')
  have "sound sy a sy'"
    by (rule event_sound [OF usableI h_send(1,4)]) (use h_send in \<open>auto intro: send_step send_keeps\<close>)
  with h_send show ?case by (simp add: sound_def)
next
  case (h_shutdown sy a sc sy')
  have "sound sy a sy'"
    by (rule event_sound [OF usableI h_shutdown(1,4)]) (use h_shutdown in \<open>auto intro: shutdown_step shutdown_keeps\<close>)
  with h_shutdown show ?case by (simp add: sound_def)
next
  case (h_start startLoop hasInit t sy sy')
  with start_wired server_step.start show ?case by blast
next
  case (h_threads sy n)
  then have "wired (sy\<lparr>sy_server := server_setThreadNum n (sy_server sy)\<rparr>)"
    by (simp add: wired_def known_def [abs_def] server_setThreadNum_def)
  then show ?case by (blast intro: server_step.threads)
qed

lemma new_system_wired:
  "new_system lp addr name reuse ptr fd = Inr sy \<Longrightarrow> wired sy"
proof -
  assume "new_system lp addr name reuse ptr fd = Inr sy"
  then have "sy_conns sy = Map.empty" "sy_pollers sy = (\<lambda>_. new_poller)"
    by (auto simp: new_system_def bind_res_eq_Inr_iff)
  then have "sy_conns sy = Map.empty" "known sy = (\<lambda>_. Map.empty)"
    by (simp_all add: known_def new_poller_def fun_eq_iff)
  then show "wired sy" by (simp add: wired_def wired_on_def owns_def)
qed

lemma http_run_sound:
  assumes "new_system lp addr name reuse ptr fd = Inr sy0" "(http_step cb)\<^sup>*\<^sup>* sy0 sy"
  shows "(server_step onConnection)\<^sup>*\<^sup>* sy0 sy \<and> wired sy"
  using assms(2)
proof (induction rule: rtranclp_induct)
  case base
  then show ?case using new_system_wired [OF assms(1)] by simp
next
  case (step s t)
  then have run: "(server_step onConnection)\<^sup>*\<^sup>* sy0 s" "wired s" by simp_all
  from http_step_sound [OF step(2) http_server_ok [OF assms(1) run(1)] run(2)] run(1)
  show ?case by (simp add: rtranclp_trans)
qed

text \<open>A server without threads and one connection, for examples.\<close>

lemma one_connection_events:
  assumes "new_system lp addr name reuse ptr 3 = Inr sy0"
  shows "\<exists>sy n sc. (http_step cb)\<^sup>*\<^sup>* sy0 sy \<and> sy_conns sy = [a \<mapsto> sc] \<and> sy_queues sy = (\<lambda>_. []) \<and>
    sv_connections (sy_server sy) = [n \<mapsto> a] \<and> cn_state (sc_conn sc) \<in> {kConnected, kDisconnecting}"
proof -
  from start_and_accept [OF assms, of a 5] obtain sy1 sy n sc where
      sy1: "start_server onConnection id False lp sy0 = Inr sy1" "ac_listenning (sy_acceptor sy1)"
        "sy_conns sy1 = Map.empty" "ch_fd (ac_channel (sy_acceptor sy1)) = 3"
        "newConnection onConnection None a [] 5 addr sy1 = Inr sy" and
      sy: "sy_queues sy = (\<lambda>_. [])" "sy_conns sy = [a \<mapsto> sc]" "sv_connections (sy_server sy) = [n \<mapsto> a]"
    by blast
  have "http_step cb sy1 sy"
    by (rule http_step.h_accept [where a = a and ws = "[]" and r = "Inr (5, addr)" and ?peer0.0 = addr])
      (simp_all add: sy1 fd_open_def acceptor_handleRead_def socket_accept_def)
  then have "(http_step cb)\<^sup>*\<^sup>* sy0 sy"
    using http_step.h_start [OF sy1(1)] by (meson converse_rtranclp_into_rtranclp r_into_rtranclp)
  moreover from this have "server_ok sy" using http_run_sound [OF assms] http_server_ok [OF assms] by blast
  ultimately show ?thesis using sy idle_open by blast
qed

section \<open>Properties\<close>

text \<open>C10. Handling events refines the life of connections: every run of the HTTP server, in which events
  reported by \<open>epoll\<close> go through \<open>Channel::handleEvent\<close> to the callbacks of the connection, the parser and
  the user's callback, and from there to \<open>removeConnection\<close>, is a run of the step relation of \<open>TcpServer\<close>.
  So what holds of all runs of that relation, such as the exactness of the table, holds of the server,
  for any combination of reported events and any user callback.\<close>

theorem events_refine_server:
  assumes "new_system loop addr name reuse ptr fd = Inr sy0" "(http_step cb)\<^sup>*\<^sup>* sy0 sy"
  shows "(server_step onConnection)\<^sup>*\<^sup>* sy0 sy"
  using http_run_sound [OF assms] by blast

theorem events_refine_server_witness:
  "\<exists>sy0 sy. (server_step onConnection)\<^sup>*\<^sup>* sy0 sy \<and> sy_conns sy0 7 = None \<and> sy_conns sy 7 \<noteq> None"
proof -
  obtain sy0 where sy0: "new_system 0 \<lparr>sin_port = 0, sin_addr = 0\<rparr> ''http'' False 0 3 = Inr (sy0 :: http_sys)"
    using sample_system by blast
  from one_connection_events [OF this, of defaultHttpCallback 7] obtain sy sc where
      r: "(http_step defaultHttpCallback)\<^sup>*\<^sup>* sy0 sy" "sy_conns sy = [7 \<mapsto> sc]"
    by blast
  have "sy_conns sy0 7 = None" using sy0 by (auto simp: new_system_def bind_res_eq_Inr_iff)
  moreover have "sy_conns sy 7 \<noteq> None" using r(2) by simp
  ultimately show ?thesis using events_refine_server [OF sy0 r(1)] by blast
qed



end
