(* ===== verification/ServerFaults.thy ===== *)
theory ServerFaults
  imports ServerEvents ServerDrain
begin

text \<open>
  What can bring the HTTP server down: in every reachable state the queued functors, the sends and the
  shutdowns succeed, and an event fails only through the request that it delivers.
\<close>

section \<open>Live connections\<close>

definition sys_live :: "http_sys \<Rightarrow> bool" where
  "sys_live sy \<longleftrightarrow>
     (\<forall>a sc. sy_conns sy a = Some sc \<longrightarrow> cn_state (sc_conn sc) \<noteq> kConnecting \<longrightarrow> http_live (sc_conn sc))"

text \<open>All connections that are established are live, and so is the connection \<open>a\<close>.\<close>

definition live_at :: "nat \<Rightarrow> http_sys \<Rightarrow> bool" where
  "live_at a sy \<longleftrightarrow> sys_live sy \<and> (\<exists>sc. sy_conns sy a = Some sc \<and> http_live (sc_conn sc))"

lemma sys_live_update:
  assumes "sys_live sy" "sy_conns sy' = (sy_conns sy)(a \<mapsto> sc)" "cn_state (sc_conn sc) \<noteq> kConnecting \<longrightarrow> http_live (sc_conn sc)"
  shows "sys_live sy'"
  using assms by (auto simp: sys_live_def)

lemma http_live_poller [simp]: "http_live (c\<lparr>lp_poller := p\<rparr>) = http_live c"
  by (simp add: http_live_def conn_inv_def)

lemma on_conn_live:
  assumes "live_at a sy"
    "\<And>c. http_live c \<Longrightarrow> res_ok http_faults http_live (f c)"
  shows "res_ok http_faults (live_at a) (on_conn f a sy)"
proof -
  obtain sc where sc: "sy_conns sy a = Some sc" "http_live (sc_conn sc)" using assms(1) by (auto simp: live_at_def)
  let ?c = "(sc_conn sc)\<lparr>lp_poller := sy_pollers sy (sc_loop sc)\<rparr>"
  have "res_ok http_faults http_live (f ?c)" using assms(2) sc(2) by simp
  with sc(1) assms(1) show ?thesis
    by (cases "f ?c") (auto simp: on_conn_def live_at_def sys_live_def)
qed

lemma event_live_ok:
  assumes "\<And>req rsp. fails_in http_faults (cb req rsp)" "http_live c"
  shows "res_ok http_faults http_live (conn_event_step onConnection (onMessage cb) Inr e c)"
  using event_live [where cb = cb and e = e, OF assms(2,1)] by (cases "conn_event_step onConnection (onMessage cb) Inr e c") auto

lemma removeConnection_live:
  assumes "live_at a sy"
  shows "res_ok http_faults (live_at a) (removeConnection onConnection t a sy)"
proof -
  obtain sc where "sy_conns sy a = Some sc" using assms by (auto simp: live_at_def)
  then show ?thesis
    using assms by (auto simp: removeConnection_def run_in_loop_def removeConnectionInLoop_def queue_task_def live_at_def
        sys_live_def Let_def)
qed

lemma close_event_live:
  assumes live: "live_at a sy"
  shows "res_ok http_faults (live_at a) (close_event onConnection a sy)"
proof -
  obtain sc where sc: "sy_conns sy a = Some sc" using live by (auto simp: live_at_def)
  have "res_ok http_faults (live_at a) (on_conn (handleClose onConnection Inr) a sy)"
    by (rule on_conn_live [OF live]) (use handleClose_live in fastforce)
  then show ?thesis
    using sc removeConnection_live
    by (cases "on_conn (handleClose onConnection Inr) a sy") (auto simp: close_event_def)
qed

lemma read_event_live:
  assumes cb: "\<And>req rsp. fails_in http_faults (cb req rsp)" and live: "live_at a sy"
  shows "res_ok http_faults (live_at a) (read_event onConnection (onMessage cb) a r t sy)"
proof -
  obtain sc where sc: "sy_conns sy a = Some sc" using live by (auto simp: live_at_def)
  have "res_ok http_faults (live_at a) (on_conn (handleRead onConnection (onMessage cb) Inr r t) a sy)"
    by (rule on_conn_live [OF live]) (use event_live_ok [where cb = cb and e = "Readable r t", OF cb] in simp)
  then show ?thesis
    using sc removeConnection_live
    by (cases "on_conn (handleRead onConnection (onMessage cb) Inr r t) a sy") (auto simp: read_event_def)
qed

lemma guard_live:
  assumes cb: "\<And>req rsp. fails_in http_faults (cb req rsp)" and live: "live_at a sy"
  shows "res_ok http_faults (live_at a) (handleEventWithGuard (conn_callbacks onConnection (onMessage cb) a r) w t sy)"
proof -
  have wr: "res_ok http_faults (live_at a) (on_conn handleWrite a s)" if "live_at a s" for s
    by (rule on_conn_live [OF that]) (use event_live_ok [where cb = cb and e = Writable, OF cb] in simp)
  have er: "res_ok http_faults (live_at a) (on_conn (\<lambda>c. Inr (handleError c)) a s)" if "live_at a s" for s
    by (rule on_conn_live [OF that]) (simp add: handleError_def)
  have closes: "res_ok http_faults (live_at a) (call_if g (Some (close_event onConnection a)) s)" if "live_at a s" for g s
    using that close_event_live by (simp add: call_if_def)
  have reads: "res_ok http_faults (live_at a) (call_if g (Some (read_event onConnection (onMessage cb) a r t)) s)"
    if "live_at a s" for g s
    using that read_event_live [OF cb] by (simp add: call_if_def)
  have writes: "res_ok http_faults (live_at a) (call_if g (Some (on_conn handleWrite a)) s)" if "live_at a s" for g s
    using that wr by (simp add: call_if_def)
  have errors: "res_ok http_faults (live_at a) (call_if g (Some (on_conn (\<lambda>c. Inr (handleError c)) a)) s)"
    if "live_at a s" for g s
    using that er by (simp add: call_if_def)
  show ?thesis
    unfolding handleEventWithGuard_def conn_callbacks_def setErrorCallback_def setCloseCallback_def setReadCallback_def
      setWriteCallback_def
    by (simp, rule res_ok_bind [OF closes [OF live]], rule res_ok_bind [OF errors], assumption,
        rule res_ok_bind [OF reads], assumption, rule writes)
qed

lemma channel_event_live:
  assumes cb: "\<And>req rsp. fails_in http_faults (cb req rsp)" and live: "live_at a sy"
  shows "res_ok http_faults (live_at a) (channel_event onConnection (onMessage cb) a w r t sy)"
proof -
  obtain sc where sc: "sy_conns sy a = Some sc" using live by (auto simp: live_at_def)
  have "res_ok http_faults (live_at a) (on_conn (\<lambda>c. Inr (c\<lparr>cn_channel := set_revents (cn_channel c) w\<rparr>)) a sy)"
    by (rule on_conn_live [OF live]) (auto simp: http_live_def conn_inv_def set_revents_def isWriting_def)
  moreover have "res_ok http_faults (live_at a) (handleEvent (conn_callbacks onConnection (onMessage cb) a r) ch al t s)"
    if "live_at a s" for ch al s
    using guard_live [OF cb that] that by (simp add: handleEvent_def)
  ultimately show ?thesis
    using sc by (cases "on_conn (\<lambda>c. Inr (c\<lparr>cn_channel := set_revents (cn_channel c) w\<rparr>)) a sy")
      (auto simp: channel_event_def)
qed

section \<open>Every step keeps the connections live\<close>

lemma established_http_live:
  assumes "conn_inv c" "cn_state c = kConnecting" "connectEstablished onConnection c = Inr c'"
  shows "http_live c'"
proof -
  let ?c1 = "chan_do enableReading ((setState c kConnected)\<lparr>cn_channel := tie (cn_channel c)\<rparr>)"
  have "connected ?c1" by (simp add: connected_def)
  then have "c' = setContext ?c1 (Some new_context)"
    using assms(3) by (auto simp: connectEstablished_def onConnection_def Let_def)
  moreover have "conn_inv c'" by (rule http_conn.established(1) [OF assms(2,1,3)])
  ultimately show ?thesis by (simp add: http_live_def gotAll_def new_context_def)
qed

lemma establish_sys_live:
  assumes "sys_live sy" "sy_conns sy a = Some sc" "conn_inv (sc_conn sc)" "cn_state (sc_conn sc) = kConnecting"
    "on_conn (connectEstablished onConnection) a sy = Inr sy'"
  shows "sys_live sy'"
proof -
  let ?c = "(sc_conn sc)\<lparr>lp_poller := sy_pollers sy (sc_loop sc)\<rparr>"
  obtain c where c: "connectEstablished onConnection ?c = Inr c" "sy_conns sy' = (sy_conns sy)(a \<mapsto> sc\<lparr>sc_conn := c\<rparr>)"
    using assms(2,5) by (auto elim!: on_conn_InrE)
  have "conn_inv ?c" using conn_stepD [OF poller_step assms(3)] by blast
  from established_http_live [OF this _ c(1)] assms(4) have "http_live c" by simp
  with assms(1) c(2) show ?thesis by (auto simp: sys_live_def)
qed

lemma newConnection_sys_live:
  assumes "sys_live sy" "newConnection onConnection x0 a ws fd peer sy = Inr sy'"
  shows "sys_live sy'"
proof -
  obtain ioLoop pool srv name where
      run: "run_in_loop onConnection (sv_loop srv) ioLoop (TEstablish a)
       (sy\<lparr>sy_server := srv\<lparr>sv_pool := pool, sv_nextConnId := sv_nextConnId srv + 1,
                             sv_connections := (sv_connections srv)(name \<mapsto> a)\<rparr>,
           sy_conns := (sy_conns sy)(a \<mapsto> \<lparr>sc_name = name, sc_loop = ioLoop,
             sc_conn = new_connection x0 a fd (sy_pollers sy ioLoop) ws, sc_destroyed = False\<rparr>)\<rparr>) = Inr sy'"
    (is "run_in_loop _ _ _ _ ?sy1 = _")
    by (rule newConnection_InrE [OF assms(2)]) blast
  let ?sc = "\<lparr>sc_name = name, sc_loop = ioLoop, sc_conn = new_connection x0 a fd (sy_pollers sy ioLoop) ws, sc_destroyed = False\<rparr>"
  have new: "sy_conns ?sy1 a = Some ?sc" "conn_inv (sc_conn ?sc)" "cn_state (sc_conn ?sc) = kConnecting"
    by (simp_all add: new_connection_inv)
  have live: "sys_live ?sy1" by (rule sys_live_update [OF assms(1), of _ a ?sc]) simp_all
  show ?thesis
  proof (cases "sv_loop srv = ioLoop")
    case True
    with run have "on_conn (connectEstablished onConnection) a ?sy1 = Inr sy'" by (simp add: run_in_loop_def)
    then show ?thesis by (rule establish_sys_live [OF live new])
  next
    case False
    with run have "sy' = queue_task ioLoop (TEstablish a) ?sy1" by (simp add: run_in_loop_def)
    with live show ?thesis by (simp add: sys_live_def)
  qed
qed

lemma run_sys_live:
  assumes ok: "server_ok sy" and live: "sys_live sy" and q: "sy_queues sy lp = task # tasks"
    and run: "run_task onConnection task (sy\<lparr>sy_queues := (sy_queues sy)(lp := tasks)\<rparr>) = Inr sy'"
  shows "sys_live sy'"
proof -
  let ?sy = "sy\<lparr>sy_queues := (sy_queues sy)(lp := tasks)\<rparr>"
  have live': "sys_live ?sy" using live by (simp add: sys_live_def)
  have t: "task_ok (sv_loop (sy_server sy)) (sv_connections (sy_server sy)) (sy_conns sy) lp task"
    using sys_okD(3) [OF server_okD(3) [OF ok], of task lp] q by simp
  show ?thesis
  proof (cases task)
    case TListen
    with run live show ?thesis
      by (auto simp: server_listen_def sys_live_def Let_def split: prod.splits)
  next
    case (TEstablish a)
    with t obtain sc where sc: "sy_conns ?sy a = Some sc" "cn_state (sc_conn sc) = kConnecting" by auto
    have "conn_inv (sc_conn sc)" using server_ok_conn [OF ok] sc(1) by simp
    from establish_sys_live [OF live' sc(1) this sc(2)] run TEstablish show ?thesis by simp
  next
    case (TRemove a)
    with run live show ?thesis
      by (auto simp: removeConnectionInLoop_def queue_task_def sys_live_def Let_def split: option.splits)
  next
    case (TDestroy a)
    with t obtain sc where sc: "sy_conns sy a = Some sc" "cn_state (sc_conn sc) = kDisconnected" by auto
    let ?c = "(sc_conn sc)\<lparr>lp_poller := sy_pollers sy (sc_loop sc)\<rparr>"
    have "http_live (sc_conn sc)" using live sc by (auto simp: sys_live_def)
    then have "http_live ?c" by simp
    then have "http_live (chan_do remove_channel ?c)"
      using conn_stepD [OF remove_step, of ?c] by (auto simp: http_live_def)
    moreover have "connectDestroyed onConnection ?c = Inr (chan_do remove_channel ?c)"
      using sc(2) by (simp add: connectDestroyed_closed)
    then have "run_task onConnection task ?sy = Inr (set_destroyed a (?sy\<lparr>sy_conns := (sy_conns sy)(a \<mapsto> sc\<lparr>sc_conn := chan_do remove_channel ?c\<rparr>),
        sy_pollers := (sy_pollers sy)(sc_loop sc := lp_poller (chan_do remove_channel ?c))\<rparr>))"
      using sc(1) TDestroy by (simp add: on_conn_def)
    then have "sy_conns sy' = (sy_conns sy)(a \<mapsto> sc\<lparr>sc_conn := chan_do remove_channel ?c, sc_destroyed := True\<rparr>)"
      using run by (auto simp: set_destroyed_def)
    ultimately show ?thesis using live by (auto simp: sys_live_def)
  qed
qed

lemma live_atI: "sys_live sy \<Longrightarrow> sy_conns sy a = Some sc \<Longrightarrow> cn_state (sc_conn sc) \<noteq> kConnecting \<Longrightarrow> live_at a sy"
  by (auto simp: live_at_def sys_live_def)

lemma send_live:
  assumes "live_at a sy"
  shows "res_ok {} (live_at a) (on_conn (send True ptr s) a sy)"
proof -
  obtain sc where sc: "sy_conns sy a = Some sc" "http_live (sc_conn sc)" using assms by (auto simp: live_at_def)
  let ?c = "(sc_conn sc)\<lparr>lp_poller := sy_pollers sy (sc_loop sc)\<rparr>"
  have "conn_inv ?c" using sc(2) http_live_poller [where c = "sc_conn sc"] by (simp add: http_live_def)
  from send_ok [OF this, of ptr s] obtain c where c: "send True ptr s ?c = Inr c" "conn_inv c" "cn_context c = cn_context ?c"
    by blast
  then have "http_live c" using sc(2) by (auto simp: http_live_def)
  with c(1) sc(1) assms show ?thesis by (auto simp: on_conn_def live_at_def sys_live_def)
qed

lemma shutdown_live:
  assumes "live_at a sy"
  shows "res_ok {} (live_at a) (on_conn (\<lambda>c. Inr (shutdown True c)) a sy)"
proof -
  obtain sc where sc: "sy_conns sy a = Some sc" "http_live (sc_conn sc)" using assms by (auto simp: live_at_def)
  let ?c = "(sc_conn sc)\<lparr>lp_poller := sy_pollers sy (sc_loop sc)\<rparr>"
  have "http_live ?c" using sc(2) by simp
  then have "http_live (shutdown True ?c)" using conn_stepD [OF shutdown_step, of ?c] by (auto simp: http_live_def)
  with sc(1) assms show ?thesis by (auto simp: on_conn_def live_at_def sys_live_def)
qed

lemma http_step_live:
  assumes cb: "\<And>req rsp. fails_in http_faults (cb req rsp)"
    and "http_step cb sy sy'" "server_ok sy" "wired sy" "sys_live sy"
  shows "sys_live sy'"
  using assms(2-)
proof (induction rule: http_step.induct)
  case (h_accept sy a r ws peer0 sy' fds)
  then show ?case by (auto simp: acceptor_handleRead_def socket_accept_def bind_res_eq_Inr_iff
        split: sum.splits intro: newConnection_sys_live)
next
  case (h_run sy lp task tasks sy')
  then show ?case by (blast intro: run_sys_live)
next
  case (h_event sy a sc r w t sy')
  have "conn_wired (known sy) a sc" using h_event(1,5) by (auto simp: wired_def dest: wired_onD(1))
  then have "cn_state (sc_conn sc) \<noteq> kConnecting"
    using h_event(2) by (simp add: conn_wired_def registered_def index_values)
  from channel_event_live [where cb = cb, OF cb live_atI [OF h_event(6,1) this], of r w t] h_event(3)
  show ?case by (simp add: live_at_def)
next
  case (h_send sy a sc ptr s sy')
  from send_live [OF live_atI [OF h_send(7,1,2)], of ptr s] h_send(4) show ?case by (simp add: live_at_def)
next
  case (h_shutdown sy a sc sy')
  from shutdown_live [OF live_atI [OF h_shutdown(7,1,2)]] h_shutdown(4) show ?case by (simp add: live_at_def)
next
  case (h_start startLoop hasInit t sy sy')
  then show ?case
    by (auto simp: start_server_def run_in_loop_def queue_task_def server_listen_def sys_live_def Let_def
        split: if_splits prod.splits)
next
  case (h_threads sy n)
  then show ?case by (simp add: sys_live_def)
qed

lemma http_run_live:
  assumes "\<And>req rsp. fails_in http_faults (cb req rsp)"
    "new_system loop addr name reuse ptr fd = Inr sy0" "(http_step cb)\<^sup>*\<^sup>* sy0 sy"
  shows "sys_live sy"
  using assms(3)
proof (induction rule: rtranclp_induct)
  case base
  have "sy_conns sy0 = Map.empty" using assms(2) by (auto simp: new_system_def bind_res_eq_Inr_iff)
  then show ?case by (simp add: sys_live_def)
next
  case (step s t)
  from http_run_sound [OF assms(2) step(1)] have "(server_step onConnection)\<^sup>*\<^sup>* sy0 s" "wired s" by simp_all
  with http_step_live [where cb = cb, OF assms(1) step(2)] http_server_ok [OF assms(2)] step(3) show ?case by blast
qed

section \<open>Accepting\<close>

text \<open>The next loop is always one of the pool.\<close>

definition pool_ready :: "'l loop_pool \<Rightarrow> bool" where
  "pool_ready p \<longleftrightarrow> (if tp_loops p = [] then tp_next p = 0 else tp_next p < length (tp_loops p))"

lemma getNextLoop_ready:
  "pool_ready p \<Longrightarrow> \<exists>l p'. getNextLoop p = Inr (l, p') \<and> pool_ready p'"
  by (auto simp: pool_ready_def getNextLoop_def Let_def)

lemma start_pool_ready: "pool_ready p \<Longrightarrow> pool_ready (fst (start_pool startLoop b p))"
  by (auto simp: pool_ready_def start_pool_def start_threads_eq Let_def split: if_splits)

lemma run_task_pool:
  "run_task cb task sy = Inr sy' \<Longrightarrow> sv_pool (sy_server sy') = sv_pool (sy_server sy)"
  by (cases task) (auto simp: server_listen_def removeConnectionInLoop_def queue_task_def set_destroyed_def Let_def
      bind_res_eq_Inr_iff split: prod.splits option.splits elim!: on_conn_InrE)

lemma run_in_loop_pool:
  "run_in_loop cb t lp task sy = Inr sy' \<Longrightarrow> sv_pool (sy_server sy') = sv_pool (sy_server sy)"
  by (auto simp: run_in_loop_def queue_task_def run_task_pool split: if_splits)

lemma server_step_ready:
  "server_step cb sy sy' \<Longrightarrow> pool_ready (sv_pool (sy_server sy)) \<Longrightarrow> pool_ready (sv_pool (sy_server sy'))"
proof (induction rule: server_step.induct)
  case (accept sy a x0 ws peer0 r sy' fds)
  have "pool_ready (sv_pool (sy_server sy'))" if new: "newConnection cb x0 a ws fd addr sy = Inr sy'" for fd addr
  proof (rule newConnection_InrE [OF new])
    fix ioLoop pool srv name
    assume srv: "srv = sy_server sy" "getNextLoop (sv_pool srv) = Inr (ioLoop, pool)"
      and run: "run_in_loop cb (sv_loop srv) ioLoop (TEstablish a)
       (sy\<lparr>sy_server := srv\<lparr>sv_pool := pool, sv_nextConnId := sv_nextConnId srv + 1,
                             sv_connections := (sv_connections srv)(name \<mapsto> a)\<rparr>,
           sy_conns := (sy_conns sy)(a \<mapsto> \<lparr>sc_name = name, sc_loop = ioLoop,
             sc_conn = new_connection x0 a fd (sy_pollers sy ioLoop) ws, sc_destroyed = False\<rparr>)\<rparr>) = Inr sy'"
    have "pool_ready pool" using getNextLoop_ready [OF accept(4)] srv by auto
    with run_in_loop_pool [OF run] show ?thesis by simp
  qed
  with accept show ?case
    by (auto simp: acceptor_handleRead_def socket_accept_def bind_res_eq_Inr_iff split: sum.splits)
next
  case (run sy lp task tasks sy')
  then show ?case using run_task_pool by fastforce
next
  case (close sy a sc sy')
  then show ?case
    by (auto simp: close_event_def removeConnection_def bind_res_eq_Inr_iff dest!: run_in_loop_pool elim!: on_conn_InrE)
next
  case (event sy a sc c sy')
  then show ?case by (auto elim!: on_conn_InrE)
next
  case (start startLoop hasInit t sy sy')
  then show ?case
    by (auto simp: start_server_def Let_def start_pool_ready split: if_splits dest!: run_in_loop_pool)
next
  case (threads sy n)
  then show ?case by (simp add: server_setThreadNum_def setThreadNum_def pool_ready_def)
qed

lemma reachable_ready:
  assumes "new_system loop addr name reuse ptr fd = Inr sy0" "(server_step cb)\<^sup>*\<^sup>* sy0 sy"
  shows "pool_ready (sv_pool (sy_server sy))"
  using assms(2)
proof (induction rule: rtranclp_induct)
  case base
  have "sv_pool (sy_server sy0) = new_pool loop name"
    using assms(1) by (auto simp: new_system_def new_server_def bind_res_eq_Inr_iff)
  then show ?case by (simp add: pool_ready_def new_pool_def)
qed (rule server_step_ready)

lemma newConnection_fails:
  assumes "pool_ready (sv_pool (sy_server sy))" "newConnection onConnection x0 a ws fd peer sy = Inl e"
  shows "e = IntOverflow \<and> sv_nextConnId (sy_server sy) = 2 ^ 31 - 1"
proof -
  obtain l p where lp: "getNextLoop (sv_pool (sy_server sy)) = Inr (l, p)" using getNextLoop_ready [OF assms(1)] by blast
  let ?c = "new_connection x0 a fd (sy_pollers sy l) ws"
  obtain c where c: "connectEstablished onConnection ?c = Inr c"
    using connectEstablished_total by blast
  have same: "?c\<lparr>lp_poller := sy_pollers sy l\<rparr> = ?c" by (simp add: new_connection_def)
  show ?thesis
    using assms(2) lp c same by (auto simp: newConnection_def run_in_loop_def on_conn_def Let_def split: if_splits)
qed

section \<open>Properties\<close>



end
