(* ===== verification/ServerLoop.thy ===== *)
theory ServerLoop
  imports ServerFaults
begin

text \<open>
  The body of \<open>EventLoop::loop\<close> for a loop of the HTTP server: the handlers of the channels that
  \<open>epoll\<close> has reported, one after the other, and then the functors that are queued by now, taken out of
  the queue at once. What a handler does to a connection must not harm the handlers that follow, whose
  channels were collected before.
\<close>

section \<open>The body of the loop\<close>

text \<open>An active channel: the wake-up descriptor, the listening socket, or a connection with the reported
  events and what a read of its socket would give. The answers to the writes on a new socket come with
  the event that accepts it.\<close>

datatype active = Wakened | Accepting "write_outcome list" | Reported nat evmask read_outcome

text \<open>The callback of the acceptor. \<open>alloc\<close> is where \<open>new\<close> puts the next connection, or \<open>None\<close> when memory is
  exhausted.\<close>

definition accept_event :: "(http_sys \<Rightarrow> nat option) \<Rightarrow> write_outcome list \<Rightarrow> int \<Rightarrow> sockaddr_in \<Rightarrow> http_sys \<Rightarrow> http_sys res" where
  "accept_event alloc ws fd peer s =
     (case alloc s of None \<Rightarrow> Inl BadAlloc | Some a \<Rightarrow> newConnection onConnection None a ws fd peer s)"

text \<open>\<open>acc\<close> is what \<open>accept4\<close> returns.\<close>

fun handle_active ::
    "http_callback \<Rightarrow> (http_sys \<Rightarrow> nat option) \<Rightarrow> (http_sys \<Rightarrow> errno + int \<times> sockaddr_in) \<Rightarrow> sockaddr_in \<Rightarrow> int \<Rightarrow>
      active list \<Rightarrow> http_sys \<Rightarrow> http_sys res" where
  "handle_active cb alloc acc peer0 t [] sy = Inr sy"
| "handle_active cb alloc acc peer0 t (Wakened # es) sy = handle_active cb alloc acc peer0 t es sy"
| "handle_active cb alloc acc peer0 t (Accepting ws # es) sy =
     bind_res
       (acceptor_handleRead (Some (accept_event alloc ws)) peer0 (acc sy) sy)
       (\<lambda>(sy1, closed). handle_active cb alloc acc peer0 t es sy1)"
| "handle_active cb alloc acc peer0 t (Reported a w r # es) sy =
     bind_res (channel_event onConnection (onMessage cb) a w r t sy) (handle_active cb alloc acc peer0 t es)"

fun run_tasks ::
    "('x tcp_connection \<Rightarrow> 'x tcp_connection res) \<Rightarrow> server_task list \<Rightarrow> 'x server_sys \<Rightarrow> 'x server_sys res" where
  "run_tasks cb [] sy = Inr sy"
| "run_tasks cb (t # ts) sy = bind_res (run_task cb t sy) (run_tasks cb ts)"

definition run_pending ::
    "('x tcp_connection \<Rightarrow> 'x tcp_connection res) \<Rightarrow> nat \<Rightarrow> 'x server_sys \<Rightarrow> 'x server_sys res" where
  "run_pending cb lp sy = run_tasks cb (sy_queues sy lp) (sy\<lparr>sy_queues := (sy_queues sy)(lp := [])\<rparr>)"

definition loop_body ::
    "http_callback \<Rightarrow> (http_sys \<Rightarrow> nat option) \<Rightarrow> (http_sys \<Rightarrow> errno + int \<times> sockaddr_in) \<Rightarrow> sockaddr_in \<Rightarrow> int \<Rightarrow>
      nat \<Rightarrow> active list \<Rightarrow> http_sys \<Rightarrow> http_sys res" where
  "loop_body cb alloc acc peer0 t lp es sy =
     bind_res (handle_active cb alloc acc peer0 t es sy) (run_pending onConnection lp)"

text \<open>What \<open>epoll\<close> reports to the loop \<open>lp\<close>: every channel at most once, and only registered ones.\<close>

fun reported :: "active \<Rightarrow> nat list" where
  "reported (Reported a w r) = [a]"
| "reported e = []"

definition reportable :: "nat \<Rightarrow> http_sys \<Rightarrow> active list \<Rightarrow> bool" where
  "reportable lp sy es \<longleftrightarrow> distinct (concat (map reported es)) \<and>
     (\<forall>a \<in> set (concat (map reported es)).
       \<exists>sc. sy_conns sy a = Some sc \<and> sc_loop sc = lp \<and> ch_index (cn_channel (sc_conn sc)) = kAdded) \<and>
     ((\<exists>ws. Accepting ws \<in> set es) \<longrightarrow> lp = sv_loop (sy_server sy) \<and> ac_listenning (sy_acceptor sy))"

section \<open>A handler leaves the other connections alone\<close>

definition others_kept :: "nat \<Rightarrow> 'x server_sys \<Rightarrow> 'x server_sys \<Rightarrow> bool" where
  "others_kept a sy sy' \<longleftrightarrow> (\<forall>b. b \<noteq> a \<longrightarrow> sy_conns sy' b = sy_conns sy b) \<and> sy_acceptor sy' = sy_acceptor sy \<and>
     sv_loop (sy_server sy') = sv_loop (sy_server sy)"

lemma others_kept_refl [simp]: "others_kept a sy sy"
  by (simp add: others_kept_def)

lemma others_kept_trans: "others_kept a r s \<Longrightarrow> others_kept a s t \<Longrightarrow> others_kept a r t"
  by (simp add: others_kept_def)

text \<open>The operation \<open>f\<close> of the system only works on the connection \<open>a\<close>.\<close>

definition local_to :: "nat \<Rightarrow> ('x server_sys \<Rightarrow> 'x server_sys res) \<Rightarrow> bool" where
  "local_to a f \<longleftrightarrow> (\<forall>sy sy'. f sy = Inr sy' \<longrightarrow> others_kept a sy sy')"

named_theorems local

lemma local_Inr [local]: "local_to a Inr"
  by (simp add: local_to_def)

lemma local_on_conn [local]: "local_to a (on_conn f a)"
  by (auto simp: local_to_def others_kept_def elim!: on_conn_InrE)

lemma local_bind [local]: "local_to a f \<Longrightarrow> local_to a g \<Longrightarrow> local_to a (\<lambda>sy. bind_res (f sy) g)"
  unfolding local_to_def bind_res_eq_Inr_iff by (blast intro: others_kept_trans)

lemma local_call_if [local]: "(\<And>f. cb = Some f \<Longrightarrow> local_to a f) \<Longrightarrow> local_to a (call_if b cb)"
  by (cases cb) (auto simp: call_if_def local_to_def split: if_splits)

lemma local_removeConnection [local]: "local_to a (removeConnection cb t b)"
  by (auto simp: local_to_def others_kept_def removeConnection_def run_in_loop_def removeConnectionInLoop_def queue_task_def
      Let_def split: if_splits option.splits)

lemma local_close_event [local]: "local_to a (close_event cb a)"
  unfolding local_to_def
proof (intro allI impI)
  fix sy sy' :: "'a server_sys" assume "close_event cb a sy = Inr sy'"
  then obtain lp s where "on_conn (handleClose cb Inr) a sy = Inr s" "removeConnection cb lp a s = Inr sy'"
    by (auto simp: close_event_def bind_res_eq_Inr_iff split: option.splits)
  then show "others_kept a sy sy'"
    using local_on_conn [of a "handleClose cb Inr"] local_removeConnection [of a cb lp a]
    unfolding local_to_def by (blast intro: others_kept_trans)
qed

lemma local_read_event [local]: "local_to a (\<lambda>sy. read_event cb onM a r t sy)"
  unfolding local_to_def
proof (intro allI impI)
  fix sy sy' :: "'a server_sys" assume "read_event cb onM a r t sy = Inr sy'"
  then obtain lp s where "on_conn (handleRead cb onM Inr r t) a sy = Inr s"
      "removeConnection cb lp a s = Inr sy' \<or> sy' = s"
    by (auto simp: read_event_def bind_res_eq_Inr_iff split: option.splits if_splits)
  then show "others_kept a sy sy'"
    using local_on_conn [of a "handleRead cb onM Inr r t"] local_removeConnection [of a cb lp a]
    unfolding local_to_def by (blast intro: others_kept_trans)
qed

lemma channel_event_local:
  assumes "channel_event cb onM a w r t sy = Inr sy'"
  shows "others_kept a sy sy'"
proof -
  let ?cbs = "conn_callbacks cb onM a r"
  have cbs: "cb_close ?cbs = Some (close_event cb a)" "cb_write ?cbs = Some (on_conn handleWrite a)"
      "cb_error ?cbs = Some (on_conn (\<lambda>c. Inr (handleError c)) a)" "cb_read ?cbs = Some (\<lambda>t. read_event cb onM a r t)"
    by (simp_all add: conn_callbacks_def setErrorCallback_def setCloseCallback_def setReadCallback_def setWriteCallback_def)
  have guard: "local_to a (handleEventWithGuard ?cbs w t)" for w
    unfolding handleEventWithGuard_def [abs_def] cbs option.map by (intro local) (auto intro: local)
  then have handle: "local_to a (handleEvent ?cbs ch b t)" for ch b
    unfolding handleEvent_def [abs_def] by (cases "ch_tied ch"; cases b) (simp_all add: local_Inr)
  from assms obtain ch b s where
      s: "on_conn (\<lambda>c. Inr (c\<lparr>cn_channel := set_revents (cn_channel c) w\<rparr>)) a sy = Inr s"
        "handleEvent ?cbs ch b t s = Inr sy'"
    by (auto simp: channel_event_def bind_res_eq_Inr_iff split: option.splits)
  have "others_kept a sy s" using local_on_conn s(1) unfolding local_to_def by blast
  moreover have "others_kept a s sy'" using handle s(2) unfolding local_to_def by blast
  ultimately show ?thesis by (rule others_kept_trans)
qed

lemma newConnection_local:
  assumes "newConnection cb x0 a ws fd peer sy = Inr sy'"
  shows "others_kept a sy sy'"
proof (rule newConnection_InrE [OF assms])
  fix ioLoop pool srv name
  let ?sy = "sy\<lparr>sy_server := srv\<lparr>sv_pool := pool, sv_nextConnId := sv_nextConnId srv + 1,
                             sv_connections := (sv_connections srv)(name \<mapsto> a)\<rparr>,
           sy_conns := (sy_conns sy)(a \<mapsto> \<lparr>sc_name = name, sc_loop = ioLoop,
             sc_conn = new_connection x0 a fd (sy_pollers sy ioLoop) ws, sc_destroyed = False\<rparr>)\<rparr>"
  assume srv: "srv = sy_server sy" and run: "run_in_loop cb (sv_loop srv) ioLoop (TEstablish a) ?sy = Inr sy'"
  have "others_kept a sy ?sy" using srv by (simp add: others_kept_def)
  moreover have "others_kept a ?sy sy'"
    using run local_on_conn [of a "connectEstablished cb"] unfolding local_to_def
    by (auto simp: run_in_loop_def queue_task_def others_kept_def split: if_splits)
  ultimately show "others_kept a sy sy'" by (rule others_kept_trans)
qed

section \<open>The handlers\<close>

text \<open>A state that the server reaches, with what holds in it.\<close>

definition server_faults :: "fault set" where
  "server_faults = http_faults \<union> {BadAlloc, IntOverflow}"

lemma reportable_step:
  assumes rep: "reportable lp sy (e # es)" and kept: "others_kept a sy sy'" and a: "reported e = [a] \<or> sy_conns sy a = None"
  shows "reportable lp sy' es"
proof -
  let ?as = "set (concat (map reported es))"
  have same: "sy_conns sy' b = sy_conns sy b" if b: "b \<in> ?as" for b
  proof -
    have "reported e = [a] \<longrightarrow> b \<noteq> a" using rep b by (auto simp: reportable_def)
    moreover have "\<exists>sc. sy_conns sy b = Some sc" using rep b unfolding reportable_def by force
    ultimately have "b \<noteq> a" using a by auto
    with kept show ?thesis by (simp add: others_kept_def)
  qed
  have "distinct (concat (map reported es))" using rep by (simp add: reportable_def)
  moreover have "\<exists>sc. sy_conns sy' b = Some sc \<and> sc_loop sc = lp \<and> ch_index (cn_channel (sc_conn sc)) = kAdded"
    if "b \<in> ?as" for b
    using rep that unfolding same [OF that] reportable_def by simp
  moreover have "lp = sv_loop (sy_server sy') \<and> ac_listenning (sy_acceptor sy')" if "Accepting ws \<in> set es" for ws
    using rep kept that by (auto simp: reportable_def others_kept_def)
  ultimately show ?thesis unfolding reportable_def by blast
qed

lemma reported_faults:
  assumes cb: "\<And>req rsp. fails_in http_faults (cb req rsp)"
    and start: "new_system loop addr name reuse ptr fd = Inr sy0" "(http_step cb)\<^sup>*\<^sup>* sy0 sy"
    and sc: "sy_conns sy a = Some sc" "ch_index (cn_channel (sc_conn sc)) = kAdded"
  shows "case channel_event onConnection (onMessage cb) a w r t sy of Inl e \<Rightarrow> e \<in> http_faults | Inr sy' \<Rightarrow> http_step cb sy sy'"
proof -
  have "conn_wired (known sy) a sc" using http_run_sound [OF start] sc(1) by (auto simp: wired_def dest: wired_onD(1))
  then have "cn_state (sc_conn sc) \<noteq> kConnecting" using sc(2) by (simp add: conn_wired_def registered_def index_values)
  from live_atI [OF http_run_live [where cb = cb, OF cb start] sc(1) this] have "live_at a sy" .
  from channel_event_live [where cb = cb and w = w and r = r and t = t, OF cb this] http_step.h_event [OF sc, of cb w r t]
  show ?thesis by (cases "channel_event onConnection (onMessage cb) a w r t sy") simp_all
qed

text \<open>What accepting a connection does, whether or not \<open>accept4\<close> and \<open>new\<close> succeed.\<close>

lemma accepting_faults:
  assumes start: "new_system loop addr name reuse ptr fd = Inr sy0" "(http_step cb)\<^sup>*\<^sup>* sy0 sy"
    and alloc: "\<forall>s a. alloc s = Some a \<longrightarrow> sy_conns s a = None"
    and acc: "\<forall>s fd a. acc s = Inr (fd, a) \<longrightarrow> \<not> fd_open s fd" and listening: "ac_listenning (sy_acceptor sy)"
  shows "case acceptor_handleRead (Some (accept_event alloc ws)) peer0 (acc sy) sy of
      Inl e \<Rightarrow> e \<in> server_faults
    | Inr (sy', closed) \<Rightarrow> sy' = sy \<or> (\<exists>a. sy_conns sy a = None \<and> http_step cb sy sy' \<and> others_kept a sy sy')"
proof (cases "acc sy")
  case (Inl en)
  then show ?thesis by (simp add: acceptor_handleRead_def socket_accept_def)
next
  case (Inr p)
  then obtain nfd peer where p: "acc sy = Inr (nfd, peer)" by (cases p) auto
  show ?thesis
  proof (cases "alloc sy")
    case None
    with p show ?thesis by (simp add: acceptor_handleRead_def socket_accept_def accept_event_def server_faults_def)
  next
    case (Some a)
    have fresh: "sy_conns sy a = None" using alloc Some by blast
    have eq: "accept_event alloc ws nfd peer sy = newConnection onConnection None a ws nfd peer sy"
      using Some by (simp add: accept_event_def)
    show ?thesis
    proof (cases "newConnection onConnection None a ws nfd peer sy")
      case (Inl e)
      have "pool_ready (sv_pool (sy_server sy))"
        using reachable_ready [OF start(1)] http_run_sound [OF start] by blast
      from newConnection_fails [OF this Inl] have "e \<in> server_faults" by (simp add: server_faults_def)
      with p eq Inl show ?thesis by (simp add: acceptor_handleRead_def socket_accept_def)
    next
      case (Inr s)
      have acpt: "acceptor_handleRead (Some (newConnection onConnection None a ws)) peer0 (acc sy) sy = Inr (s, [])"
        by (simp add: p Inr acceptor_handleRead_def socket_accept_def)
      have "http_step cb sy s" by (rule http_step.h_accept [OF listening fresh _ acpt]) (use acc in blast)
      with fresh newConnection_local [OF Inr] p eq Inr show ?thesis
        by (auto simp: acceptor_handleRead_def socket_accept_def)
    qed
  qed
qed

lemma handle_active_safe:
  assumes cb: "\<And>req rsp. fails_in http_faults (cb req rsp)"
    and start: "new_system loop addr name reuse ptr fd = Inr sy0"
    and alloc: "\<forall>s a. alloc s = Some a \<longrightarrow> sy_conns s a = None"
    and acc: "\<forall>s fd a. acc s = Inr (fd, a) \<longrightarrow> \<not> fd_open s fd"
  shows "(http_step cb)\<^sup>*\<^sup>* sy0 sy \<Longrightarrow> reportable lp sy es \<Longrightarrow>
    (case handle_active cb alloc acc peer0 t es sy of
      Inl e \<Rightarrow> e \<in> server_faults | Inr sy' \<Rightarrow> (http_step cb)\<^sup>*\<^sup>* sy sy' \<and> sv_loop (sy_server sy') = sv_loop (sy_server sy))"
proof (induction es arbitrary: sy)
  case (Cons e es)
  have rest: ?case if step: "http_step cb sy s" and kept: "others_kept a sy s" "reported e = [a] \<or> sy_conns sy a = None"
      and eq: "handle_active cb alloc acc peer0 t (e # es) sy = handle_active cb alloc acc peer0 t es s" for s a
  proof -
    have "(http_step cb)\<^sup>*\<^sup>* sy0 s" using Cons.prems(1) step by (rule rtranclp.rtrancl_into_rtrancl)
    from Cons.IH [OF this reportable_step [OF Cons.prems(2) kept]] step kept(1) show ?thesis
      unfolding eq by (cases "handle_active cb alloc acc peer0 t es s")
        (auto simp: others_kept_def intro: converse_rtranclp_into_rtranclp)
  qed
  show ?case
  proof (cases e)
    case Wakened
    have "reportable lp sy es" using Cons.prems(2) Wakened by (simp add: reportable_def)
    with Cons.IH [OF Cons.prems(1)] Wakened show ?thesis by simp
  next
    case (Reported a w r)
    with Cons.prems(2) obtain sc where sc: "sy_conns sy a = Some sc" "ch_index (cn_channel (sc_conn sc)) = kAdded"
      by (auto simp: reportable_def)
    note f = reported_faults [where cb = cb and w = w and r = r and t = t, OF cb start Cons.prems(1) sc]
    show ?thesis
    proof (cases "channel_event onConnection (onMessage cb) a w r t sy")
      case (Inl e)
      with f Reported show ?thesis by (simp add: server_faults_def)
    next
      case (Inr s)
      show ?thesis
        by (rule rest [where s = s and a = a])
          (use f Inr Reported channel_event_local [OF Inr] in simp_all)
    qed
  next
    case (Accepting ws)
    with Cons.prems(2) have listening: "ac_listenning (sy_acceptor sy)" by (auto simp: reportable_def)
    note f = accepting_faults [where ws = ws and ?peer0.0 = peer0, OF start Cons.prems(1) alloc acc listening]
    show ?thesis
    proof (cases "acceptor_handleRead (Some (accept_event alloc ws)) peer0 (acc sy) sy")
      case (Inl e)
      with f Accepting show ?thesis by simp
    next
      case (Inr p)
      obtain s closed where p: "p = (s, closed)" by fastforce
      have eq: "handle_active cb alloc acc peer0 t (e # es) sy = handle_active cb alloc acc peer0 t es s"
        using Inr p Accepting by simp
      from f Inr p consider "s = sy" | a where "sy_conns sy a = None" "http_step cb sy s" "others_kept a sy s" by auto
      then show ?thesis
      proof cases
        case 1
        have "reportable lp sy es" using Cons.prems(2) Accepting by (auto simp: reportable_def)
        with Cons.IH [OF Cons.prems(1)] 1 eq show ?thesis by simp
      next
        case (2 a)
        show ?thesis by (rule rest [where a = a]) (use 2 eq in simp_all)
      qed
    qed
  qed
qed simp

section \<open>The functors\<close>

text \<open>The state with the functors that were taken out put back in front. Running a functor does not depend on
  them.\<close>

definition put_back :: "nat \<Rightarrow> server_task list \<Rightarrow> 'x server_sys \<Rightarrow> 'x server_sys" where
  "put_back lp ts sy = sy\<lparr>sy_queues := (sy_queues sy)(lp := ts @ sy_queues sy lp)\<rparr>"

lemma put_back_Nil [simp]: "put_back lp [] sy = sy"
  by (simp add: put_back_def)

lemma put_back_simps [simp]:
  "sy_conns (put_back lp ts sy) = sy_conns sy" "sy_server (put_back lp ts sy) = sy_server sy"
  "sy_acceptor (put_back lp ts sy) = sy_acceptor sy" "sy_pollers (put_back lp ts sy) = sy_pollers sy"
  "sy_queues (put_back lp ts sy) lp = ts @ sy_queues sy lp"
  by (simp_all add: put_back_def)

lemma put_back_on_conn: "on_conn f a sy = Inr sy' \<Longrightarrow> on_conn f a (put_back lp ts sy) = Inr (put_back lp ts sy')"
  by (auto simp: on_conn_def put_back_def bind_res_eq_Inr_iff split: option.splits)

lemma put_back_run: "run_task cb t sy = Inr sy' \<Longrightarrow> run_task cb t (put_back lp ts sy) = Inr (put_back lp ts sy')"
proof (cases t)
  case TListen
  assume "run_task cb t sy = Inr sy'"
  with TListen show ?thesis by (auto simp: server_listen_def put_back_def Let_def split: prod.splits)
next
  case (TEstablish a)
  assume "run_task cb t sy = Inr sy'"
  with TEstablish put_back_on_conn show ?thesis by simp
next
  case (TRemove a)
  assume "run_task cb t sy = Inr sy'"
  with TRemove show ?thesis
    by (auto simp: removeConnectionInLoop_def queue_task_def put_back_def fun_upd_twist Let_def split: option.splits)
next
  case (TDestroy a)
  assume "run_task cb t sy = Inr sy'"
  with TDestroy obtain s where s: "on_conn (connectDestroyed cb) a sy = Inr s" "sy' = set_destroyed a s"
    by (auto simp: bind_res_eq_Inr_iff)
  from put_back_on_conn [OF s(1), of lp ts] s(2) TDestroy show ?thesis by (simp add: set_destroyed_def put_back_def)
qed

lemma run_task_queues:
  assumes "task_ok base m (sy_conns sy) lp t" "run_task cb t sy = Inr sy'"
  shows "sy_queues sy' lp = sy_queues sy lp \<or> lp = base \<and> (\<exists>a. sy_queues sy' lp = sy_queues sy lp @ [TDestroy a])"
    "sv_loop (sy_server sy') = sv_loop (sy_server sy)"
  using assms by (cases t; auto simp: server_listen_def removeConnectionInLoop_def queue_task_def set_destroyed_def Let_def
      bind_res_eq_Inr_iff split: prod.splits option.splits elim!: on_conn_InrE)+

text \<open>What may wait in the queue while the loop \<open>lp\<close> runs its functors.\<close>

definition only_destroy :: "nat \<Rightarrow> 'x server_sys \<Rightarrow> bool" where
  "only_destroy lp sy \<longleftrightarrow> (\<forall>t \<in> set (sy_queues sy lp). \<exists>a. t = TDestroy a) \<and>
     (lp \<noteq> sv_loop (sy_server sy) \<longrightarrow> sy_queues sy lp = [])"

lemma run_tasks_safe:
  assumes start: "new_system loop addr name reuse ptr fd = Inr sy0"
  shows "(http_step cb)\<^sup>*\<^sup>* sy0 (put_back lp ts sy) \<Longrightarrow> only_destroy lp sy \<Longrightarrow>
    \<exists>sy'. run_tasks onConnection ts sy = Inr sy' \<and> (http_step cb)\<^sup>*\<^sup>* (put_back lp ts sy) sy' \<and> only_destroy lp sy' \<and>
      sv_loop (sy_server sy') = sv_loop (sy_server sy)"
proof (induction ts arbitrary: sy)
  case (Cons t ts)
  let ?v = "put_back lp (t # ts) sy" and ?base = "sv_loop (sy_server sy)"
  have steps: "(server_step onConnection)\<^sup>*\<^sup>* sy0 ?v" using http_run_sound [OF start Cons.prems(1)] by blast
  have "task_ok ?base (sv_connections (sy_server sy)) (sy_conns sy) lp t"
    using sys_okD(3) [OF server_okD(3) [OF http_server_ok [OF start steps]], of t lp] by simp
  note task = this
  have "busy (sy_queues sy) \<subseteq> insert lp (busy (sy_queues ?v))" by (auto simp: busy_def put_back_def)
  then have "finite (busy (sy_queues sy))" using reachable_busy [OF start steps] by (meson finite_insert finite_subset)
  from run_task_total [OF task this] obtain s where s: "run_task onConnection t sy = Inr s" by blast
  have pop: "?v\<lparr>sy_queues := (sy_queues ?v)(lp := ts @ sy_queues sy lp)\<rparr> = put_back lp ts sy"
    by (simp add: put_back_def)
  have step: "http_step cb ?v (put_back lp ts s)"
    by (rule http_step.h_run [where lp = lp and task = t and tasks = "ts @ sy_queues sy lp"])
      (simp, simp only: pop put_back_run [OF s])
  have "only_destroy lp s" using Cons.prems(2) run_task_queues [OF task s] by (auto simp: only_destroy_def)
  from Cons.IH [OF rtranclp.rtrancl_into_rtrancl [OF Cons.prems(1) step] this] obtain sy' where
      "run_tasks onConnection ts s = Inr sy'" "(http_step cb)\<^sup>*\<^sup>* (put_back lp ts s) sy'" "only_destroy lp sy'"
      "sv_loop (sy_server sy') = sv_loop (sy_server s)"
    by blast
  with s step run_task_queues(2) [OF task s] show ?case
    by (intro exI [of _ sy']) (auto intro: converse_rtranclp_into_rtranclp)
qed simp

lemma run_pending_safe:
  assumes "new_system loop addr name reuse ptr fd = Inr sy0" "(http_step cb)\<^sup>*\<^sup>* sy0 sy"
  shows "\<exists>sy'. run_pending onConnection lp sy = Inr sy' \<and> (http_step cb)\<^sup>*\<^sup>* sy sy' \<and> only_destroy lp sy' \<and>
    sv_loop (sy_server sy') = sv_loop (sy_server sy)"
proof -
  let ?s = "sy\<lparr>sy_queues := (sy_queues sy)(lp := [])\<rparr>"
  have restored: "put_back lp (sy_queues sy lp) ?s = sy" by (simp add: put_back_def)
  have "only_destroy lp ?s" by (simp add: only_destroy_def)
  with run_tasks_safe [OF assms(1), where cb = cb and ts = "sy_queues sy lp" and sy = "?s" and lp = lp] assms(2)
  show ?thesis unfolding run_pending_def restored by simp
qed

section \<open>The property\<close>



end
