(* ===== verification/ServerRounds.thy ===== *)
theory ServerRounds
  imports ServerLoop
begin

text \<open>
  How long a closed connection lives: the base loop takes it out of the table in its next round, and its
  own loop destroys it in the round after that, whatever the two loops and the others do in between.
\<close>

section \<open>What happens to a connection once\<close>

text \<open>A connection keeps its name and its loop, and what is over stays so: once it is closed, out of the
  table, or destroyed, it is so for ever.\<close>

definition goes_on :: "'x server_sys \<Rightarrow> nat \<Rightarrow> 'x server_conn \<Rightarrow> 'x server_sys \<Rightarrow> 'x server_conn \<Rightarrow> bool" where
  "goes_on sy a sc sy' sc' \<longleftrightarrow> sy_conns sy' a = Some sc' \<and> sc_name sc' = sc_name sc \<and> sc_loop sc' = sc_loop sc \<and>
     (cn_state (sc_conn sc) = kDisconnected \<longrightarrow> cn_state (sc_conn sc') = kDisconnected) \<and>
     (sc_destroyed sc \<longrightarrow> sc_destroyed sc') \<and>
     (sv_connections (sy_server sy) (sc_name sc) \<noteq> Some a \<longrightarrow> sv_connections (sy_server sy') (sc_name sc) \<noteq> Some a)"

definition lives_on :: "'x server_sys \<Rightarrow> 'x server_sys \<Rightarrow> bool" where
  "lives_on sy sy' \<longleftrightarrow> sv_loop (sy_server sy') = sv_loop (sy_server sy) \<and>
     (\<forall>a sc. sy_conns sy a = Some sc \<longrightarrow> (\<exists>sc'. goes_on sy a sc sy' sc'))"

lemma lives_on_refl [simp]: "lives_on sy sy"
  by (simp add: lives_on_def goes_on_def)

lemma goes_on_trans: "goes_on r a sc s sd \<Longrightarrow> goes_on s a sd t se \<Longrightarrow> goes_on r a sc t se"
  by (simp add: goes_on_def)

lemma lives_on_trans: "lives_on r s \<Longrightarrow> lives_on s t \<Longrightarrow> lives_on r t"
  unfolding lives_on_def by (metis goes_on_def goes_on_trans)

text \<open>The steps that change no table and at most one connection.\<close>

lemma lives_on_same:
  assumes "sy_conns sy' = sy_conns sy" "sy_server sy' = sy_server sy"
  shows "lives_on sy sy'"
  using assms by (simp add: lives_on_def goes_on_def)

lemma lives_on_update:
  assumes "sy_conns sy a = Some sc" "sy_conns sy' = (sy_conns sy)(a \<mapsto> sc')" "sy_server sy' = sy_server sy"
    "sc_name sc' = sc_name sc" "sc_loop sc' = sc_loop sc" "sc_destroyed sc \<longrightarrow> sc_destroyed sc'"
    "cn_state (sc_conn sc) = kDisconnected \<longrightarrow> cn_state (sc_conn sc') = kDisconnected"
  shows "lives_on sy sy'"
  using assms by (auto simp: lives_on_def goes_on_def)

lemma on_conn_lives:
  assumes "on_conn f a sy = Inr sy'"
    "\<And>sc c. sy_conns sy a = Some sc \<Longrightarrow> cn_state (sc_conn sc) = kDisconnected \<Longrightarrow>
      f ((sc_conn sc)\<lparr>lp_poller := sy_pollers sy (sc_loop sc)\<rparr>) = Inr c \<Longrightarrow> cn_state c = kDisconnected"
  shows "lives_on sy sy'"
proof -
  from assms(1) obtain sc c where sc: "sy_conns sy a = Some sc"
      "f ((sc_conn sc)\<lparr>lp_poller := sy_pollers sy (sc_loop sc)\<rparr>) = Inr c"
      "sy' = sy\<lparr>sy_conns := (sy_conns sy)(a \<mapsto> sc\<lparr>sc_conn := c\<rparr>),
              sy_pollers := (sy_pollers sy)(sc_loop sc := lp_poller c)\<rparr>"
    by (rule on_conn_InrE)
  show ?thesis
    by (rule lives_on_update [OF sc(1), where sc' = "sc\<lparr>sc_conn := c\<rparr>"]) (use sc assms(2) [OF sc(1) _ sc(2)] in auto)
qed

lemma handleClose_closes: "handleClose onConnection Inr c = Inr c' \<Longrightarrow> cn_state c' = kDisconnected"
  by (auto simp: handleClose_def onConnection_def connected_def setState_def bind_res_eq_Inr_iff)

lemma run_task_lives:
  assumes task: "task_ok base m (sy_conns sy) lp t" and run: "run_task onConnection t sy = Inr sy'"
  shows "lives_on sy sy'"
proof (cases t)
  case TListen
  with run show ?thesis by (auto simp: server_listen_def Let_def split: prod.splits intro: lives_on_same)
next
  case (TEstablish a)
  with task run show ?thesis by (auto intro!: on_conn_lives)
next
  case (TRemove a)
  with run show ?thesis
    by (auto simp: removeConnectionInLoop_def queue_task_def lives_on_def goes_on_def Let_def split: option.splits)
next
  case (TDestroy a)
  with run obtain s where s: "on_conn (connectDestroyed onConnection) a sy = Inr s" "sy' = set_destroyed a s"
    by (auto simp: bind_res_eq_Inr_iff)
  have "lives_on sy s"
    by (rule on_conn_lives [OF s(1)]) (auto simp: connectDestroyed_closed)
  moreover have "lives_on s sy'" by (auto simp: s(2) set_destroyed_def lives_on_def goes_on_def)
  ultimately show ?thesis by (rule lives_on_trans)
qed

lemma pop_lives: "lives_on sy (sy\<lparr>sy_queues := q\<rparr>)"
  by (simp add: lives_on_same)

lemma close_event_lives:
  assumes "close_event onConnection a sy = Inr sy'"
  shows "lives_on sy sy'"
proof -
  from assms obtain lp s where s: "on_conn (handleClose onConnection Inr) a sy = Inr s"
      "removeConnection onConnection lp a s = Inr sy'"
    by (auto simp: close_event_def bind_res_eq_Inr_iff split: option.splits)
  have "lives_on sy s" by (rule on_conn_lives [OF s(1)]) (rule handleClose_closes)
  moreover have "lives_on s sy'"
    using s(2) by (auto simp: removeConnection_def run_in_loop_def removeConnectionInLoop_def queue_task_def lives_on_def
        goes_on_def Let_def split: if_splits option.splits)
  ultimately show ?thesis by (rule lives_on_trans)
qed

lemma newConnection_lives:
  assumes fresh: "sy_conns sy a = None" and new: "newConnection onConnection x0 a ws fd peer sy = Inr sy'"
  shows "lives_on sy sy'"
proof (rule newConnection_InrE [OF new])
  fix ioLoop pool srv name
  let ?sy = "sy\<lparr>sy_server := srv\<lparr>sv_pool := pool, sv_nextConnId := sv_nextConnId srv + 1,
                             sv_connections := (sv_connections srv)(name \<mapsto> a)\<rparr>,
           sy_conns := (sy_conns sy)(a \<mapsto> \<lparr>sc_name = name, sc_loop = ioLoop,
             sc_conn = new_connection x0 a fd (sy_pollers sy ioLoop) ws, sc_destroyed = False\<rparr>)\<rparr>"
  assume srv: "srv = sy_server sy" and run: "run_in_loop onConnection (sv_loop srv) ioLoop (TEstablish a) ?sy = Inr sy'"
  have "lives_on sy ?sy" using fresh srv by (auto simp: lives_on_def goes_on_def)
  moreover have "lives_on ?sy sy'"
  proof (cases "sv_loop srv = ioLoop")
    case True
    with run have "on_conn (connectEstablished onConnection) a ?sy = Inr sy'" by (simp add: run_in_loop_def)
    then show ?thesis by (rule on_conn_lives) (auto simp: new_connection_def)
  next
    case False
    with run have "sy' = queue_task ioLoop (TEstablish a) ?sy" by (simp add: run_in_loop_def)
    then show ?thesis by (simp add: lives_on_same queue_task_def)
  qed
  ultimately show "lives_on sy sy'" by (rule lives_on_trans)
qed

lemma start_server_lives:
  assumes "start_server onConnection startLoop hasInit t sy = Inr sy'"
  shows "lives_on sy sy'"
  using assms by (auto simp: start_server_def run_in_loop_def server_listen_def queue_task_def lives_on_def goes_on_def Let_def
      split: if_splits prod.splits)

lemma server_step_lives:
  assumes "server_step onConnection sy sy'" "server_ok sy"
  shows "lives_on sy sy'"
  using assms
proof (induction rule: server_step.induct)
  case (accept sy x0 a ws peer0 r sy' fds)
  then show ?case
    by (auto simp: acceptor_handleRead_def socket_accept_def bind_res_eq_Inr_iff
        split: sum.splits intro: newConnection_lives)
next
  case (run sy lp task tasks sy')
  let ?s = "sy\<lparr>sy_queues := (sy_queues sy)(lp := tasks)\<rparr>"
  have "task_ok (sv_loop (sy_server sy)) (sv_connections (sy_server sy)) (sy_conns ?s) lp task"
    using sys_okD(3) [OF server_okD(3) [OF run(3)], of task lp] run(1) by simp
  from lives_on_trans [OF pop_lives run_task_lives [OF this run(2)]] show ?case .
next
  case (close sy a sc sy')
  then show ?case by (simp add: close_event_lives)
next
  case (event sy a sc c sy')
  have "conn_inv (sc_conn sc)" by (rule server_ok_conn [OF event(7,1)])
  then show ?case
    using conn_step_state(1) [OF event(4)] event(1) by (auto intro: on_conn_lives [OF event(6)])
next
  case (start startLoop hasInit t sy sy')
  then show ?case by (simp add: start_server_lives)
next
  case (threads sy n)
  then show ?case by (simp add: lives_on_def goes_on_def server_setThreadNum_def)
qed

lemma http_steps_live_on:
  assumes "new_system loop addr name reuse ptr fd = Inr sy0" "(http_step cb)\<^sup>*\<^sup>* sy0 sy" "(http_step cb)\<^sup>*\<^sup>* sy sy'"
  shows "lives_on sy sy'"
  using assms(3)
proof (induction rule: rtranclp_induct)
  case (step s t)
  have run: "(http_step cb)\<^sup>*\<^sup>* sy0 s" using assms(2) step(1) by simp
  note s = http_run_sound [OF assms(1) this]
  have "(server_step onConnection)\<^sup>*\<^sup>* s t"
    using http_step_sound [OF step(2) http_server_ok [OF assms(1) conjunct1 [OF s]] conjunct2 [OF s]] by blast
  then have "lives_on s t" using http_server_ok [OF assms(1) conjunct1 [OF s]]
  proof (induction rule: converse_rtranclp_induct)
    case (step u v)
    then show ?case using server_step_lives http_conn.server_step_ok by (meson lives_on_trans)
  qed simp
  with step(3) show ?case by (rule lives_on_trans)
qed simp

section \<open>Destroying\<close>

definition destroyed_at :: "nat \<Rightarrow> 'x server_sys \<Rightarrow> bool" where
  "destroyed_at a sy \<longleftrightarrow> (\<exists>sc. sy_conns sy a = Some sc \<and> sc_destroyed sc)"

lemma run_task_destroys:
  assumes "run_task cb t sy = Inr sy'" "t = TDestroy a \<or> destroyed_at a sy"
  shows "destroyed_at a sy'"
proof -
  have conn: "destroyed_at a s'" if "on_conn f b s = Inr s'" "destroyed_at a s" for f b s and s' :: "'a server_sys"
    using that by (auto simp: destroyed_at_def elim!: on_conn_InrE)
  show ?thesis
  proof (cases t)
    case (TDestroy b)
    with assms(1) obtain s where s: "on_conn (connectDestroyed cb) b sy = Inr s" "sy' = set_destroyed b s"
      by (auto simp: bind_res_eq_Inr_iff)
    show ?thesis
    proof (cases "a = b")
      case True
      from s(1) have "\<exists>sc. sy_conns s b = Some sc" by (auto elim!: on_conn_InrE)
      with True s(2) show ?thesis by (auto simp: destroyed_at_def set_destroyed_def)
    next
      case False
      with assms(2) TDestroy conn [OF s(1)] s(2) show ?thesis by (auto simp: destroyed_at_def set_destroyed_def)
    qed
  qed (use assms conn in \<open>auto simp: server_listen_def removeConnectionInLoop_def queue_task_def destroyed_at_def Let_def
      split: prod.splits option.splits\<close>)
qed

lemma run_tasks_destroy:
  "run_tasks cb ts sy = Inr sy' \<Longrightarrow> TDestroy a \<in> set ts \<or> destroyed_at a sy \<Longrightarrow> destroyed_at a sy'"
proof (induction ts arbitrary: sy)
  case (Cons t ts)
  then obtain s where "run_task cb t sy = Inr s" "run_tasks cb ts s = Inr sy'" by (auto simp: bind_res_eq_Inr_iff)
  with Cons run_task_destroys [of cb t sy s a] show ?case by auto
qed simp

lemma run_pending_destroys:
  assumes "run_pending cb lp sy = Inr sy'" "TDestroy a \<in> set (sy_queues sy lp) \<or> destroyed_at a sy"
  shows "destroyed_at a sy'"
  using run_tasks_destroy [OF assms(1) [unfolded run_pending_def]] assms(2) by (simp add: destroyed_at_def)

section \<open>A hang-up closes\<close>

lemma hangup_closes:
  assumes sc: "sy_conns sy a = Some sc" "\<not> sc_destroyed sc"
  obtains sy' sd where "channel_event onConnection onM a EPOLLHUP r t sy = Inr sy'" "sy_conns sy' a = Some sd"
    "cn_state (sc_conn sd) = kDisconnected" "\<not> sc_destroyed sd"
proof -
  let ?f = "\<lambda>c. Inr (c\<lparr>cn_channel := set_revents (cn_channel c) EPOLLHUP\<rparr>)"
    and ?cbs = "conn_callbacks onConnection onM a r"
  obtain s se where s: "on_conn ?f a sy = Inr s" "sy_conns s a = Some se" "sc_destroyed se = sc_destroyed sc"
    using on_conn_total [OF sc(1), where f = ?f] by auto
  have "handleEventWithGuard ?cbs EPOLLHUP t s = close_event onConnection a s"
    by (cases "close_event onConnection a s")
      (simp_all add: handleEventWithGuard_def call_if_def epoll_masks conn_callbacks_def setErrorCallback_def
        setCloseCallback_def setReadCallback_def setWriteCallback_def)
  then have "handleEvent ?cbs (set_revents (cn_channel (sc_conn sc)) EPOLLHUP) True t s = close_event onConnection a s"
    by (simp add: handleEvent_def set_revents_def)
  with s(1) sc have eq: "channel_event onConnection onM a EPOLLHUP r t sy = close_event onConnection a s"
    by (simp add: channel_event_def)
  obtain sy' sd where "close_event onConnection a s = Inr sy'" "sy_conns sy' a = Some sd"
      "cn_state (sc_conn sd) = kDisconnected" "sc_destroyed sd = sc_destroyed se"
    using close_event_total [OF s(2)] by blast
  with that eq s(3) sc(2) show thesis by simp
qed

section \<open>Two rounds\<close>

text \<open>A round that comes to its end, with the state in which its functors start.\<close>

lemma loop_round_split:
  assumes "\<And>req rsp. fails_in http_faults (cb req rsp)"
    and "new_system loop addr name reuse ptr fd = Inr sy0" "(http_step cb)\<^sup>*\<^sup>* sy0 sy"
    and "\<forall>s a. alloc s = Some a \<longrightarrow> sy_conns s a = None" "\<forall>s nfd peer. acc s = Inr (nfd, peer) \<longrightarrow> \<not> fd_open s nfd"
    and "reportable lp sy es" "loop_body cb alloc acc peer0 t lp es sy = Inr sy'"
  obtains s where "(http_step cb)\<^sup>*\<^sup>* sy s" "run_pending onConnection lp s = Inr sy'" "(http_step cb)\<^sup>*\<^sup>* s sy'"
    "only_destroy lp sy'"
proof -
  obtain s where s: "handle_active cb alloc acc peer0 t es sy = Inr s" "run_pending onConnection lp s = Inr sy'"
    using assms(7) by (auto simp: loop_body_def bind_res_eq_Inr_iff)
  have steps: "(http_step cb)\<^sup>*\<^sup>* sy s"
    using handle_active_safe [where cb = cb and alloc = alloc and acc = acc and ?peer0.0 = peer0 and t = t, OF assms(1,2,4,5,3,6)]
      s(1) by simp
  with assms(3) have "(http_step cb)\<^sup>*\<^sup>* sy0 s" by simp
  from run_pending_safe [OF assms(2) this, of lp] s(2) have "(http_step cb)\<^sup>*\<^sup>* s sy'" "only_destroy lp sy'" by auto
  with steps s(2) that show thesis by blast
qed

lemma round_removes:
  assumes start: "new_system loop addr name reuse ptr fd = Inr sy0" and run: "(http_step cb)\<^sup>*\<^sup>* sy0 sy"
    and sc: "sy_conns sy a = Some sc" "cn_state (sc_conn sc) = kDisconnected"
    and only: "only_destroy (sv_loop (sy_server sy)) sy"
  shows "sv_connections (sy_server sy) (sc_name sc) \<noteq> Some a"
proof -
  have "server_ok sy" using http_run_sound [OF start run] http_server_ok [OF start] by blast
  from sys_okD(2) [OF server_okD(3) [OF this] sc(1)] sc(2) only show ?thesis
    by (auto simp: conn_ok_def only_destroy_def)
qed

lemma round_destroys:
  assumes start: "new_system loop addr name reuse ptr fd = Inr sy0" and run: "(http_step cb)\<^sup>*\<^sup>* sy0 sy"
    and sc: "sy_conns sy a = Some sc" "sv_connections (sy_server sy) (sc_name sc) \<noteq> Some a"
    and pending: "run_pending onConnection (sc_loop sc) sy = Inr sy'"
  shows "destroyed_at a sy'"
proof (rule run_pending_destroys [OF pending])
  have "server_ok sy" using http_run_sound [OF start run] http_server_ok [OF start] by blast
  from sys_okD(2) [OF server_okD(3) [OF this] sc(1)] sc
  show "TDestroy a \<in> set (sy_queues sy (sc_loop sc)) \<or> destroyed_at a sy" by (auto simp: conn_ok_def destroyed_at_def)
qed

text \<open>C30. A closed connection is gone after two rounds: once it is closed, one round of the base loop and
  then one of its own loop suffice to take it out of the table, out of its poller, and to destroy it, however
  many steps the loops and the other threads make before, between and after, whatever is reported in the two
  rounds, and even where the two loops are the same. Nothing brings it back.\<close>

theorem gone_in_two_rounds:
  assumes "\<And>req rsp. fails_in http_faults (cb req rsp)"
    and "new_system loop addr name reuse ptr fd = Inr sy0" "(http_step cb)\<^sup>*\<^sup>* sy0 sy"
    and "\<forall>s a. alloc s = Some a \<longrightarrow> sy_conns s a = None" "\<forall>s nfd peer. acc s = Inr (nfd, peer) \<longrightarrow> \<not> fd_open s nfd"
    and "sy_conns sy a = Some sc" "cn_state (sc_conn sc) = kDisconnected"
    and "(http_step cb)\<^sup>*\<^sup>* sy s1" "reportable (sv_loop (sy_server sy)) s1 es1"
      "loop_body cb alloc acc peer0 t1 (sv_loop (sy_server sy)) es1 s1 = Inr s2"
    and "(http_step cb)\<^sup>*\<^sup>* s2 s3" "reportable (sc_loop sc) s3 es2"
      "loop_body cb alloc acc peer0 t2 (sc_loop sc) es2 s3 = Inr s4"
    and "(http_step cb)\<^sup>*\<^sup>* s4 s5"
  shows "\<exists>sc'. sy_conns s5 a = Some sc' \<and> sc_destroyed sc' \<and> sc_name sc' = sc_name sc \<and>
    sv_connections (sy_server s5) (sc_name sc) \<noteq> Some a \<and>
    (\<forall>lp nfd. pl_channels (sy_pollers s5 lp) nfd = Some a \<longrightarrow>
      a = ch_ptr (ac_channel (sy_acceptor s5)) \<and> nfd = ch_fd (ac_channel (sy_acceptor s5)))"
proof -
  have run1: "(http_step cb)\<^sup>*\<^sup>* sy0 s1" using assms(3,8) by simp
  obtain u1 where u1: "(http_step cb)\<^sup>*\<^sup>* s1 u1" "(http_step cb)\<^sup>*\<^sup>* u1 s2" "only_destroy (sv_loop (sy_server sy)) s2"
    by (rule loop_round_split [OF assms(1,2) run1 assms(4,5,9,10)])
  have run2: "(http_step cb)\<^sup>*\<^sup>* sy0 s2" "(http_step cb)\<^sup>*\<^sup>* sy s2" using run1 assms(8) u1 by simp_all
  have live2: "lives_on sy s2" by (rule http_steps_live_on [OF assms(2,3) run2(2)])
  then obtain sd where sd: "goes_on sy a sc s2 sd" using assms(6) unfolding lives_on_def by blast
  have "sv_connections (sy_server s2) (sc_name sd) \<noteq> Some a"
    by (rule round_removes [OF assms(2) run2(1)])
      (use sd assms(7) u1(3) live2 in \<open>simp_all add: goes_on_def lives_on_def\<close>)
  note gone = this
  have run3: "(http_step cb)\<^sup>*\<^sup>* sy0 s3" using run2 assms(11) by simp
  obtain u3 where u3: "(http_step cb)\<^sup>*\<^sup>* s3 u3" "run_pending onConnection (sc_loop sc) u3 = Inr s4" "(http_step cb)\<^sup>*\<^sup>* u3 s4"
    by (rule loop_round_split [OF assms(1,2) run3 assms(4,5,12,13)])
  have run4: "(http_step cb)\<^sup>*\<^sup>* sy0 u3" "(http_step cb)\<^sup>*\<^sup>* s2 u3" "(http_step cb)\<^sup>*\<^sup>* u3 s5" "(http_step cb)\<^sup>*\<^sup>* sy0 s5"
    using run3 u3 assms(11,14) by simp_all
  obtain se where se: "goes_on s2 a sd u3 se"
    using http_steps_live_on [OF assms(2) run2(1) run4(2)] sd unfolding lives_on_def goes_on_def by blast
  have table: "sv_connections (sy_server u3) (sc_name se) \<noteq> Some a" using se gone by (simp add: goes_on_def)
  have "run_pending onConnection (sc_loop se) u3 = Inr s4" using u3(2) sd se by (simp add: goes_on_def)
  from round_destroys [OF assms(2) run4(1) _ table this] se have "destroyed_at a s4" by (simp add: goes_on_def)
  then obtain sf where sf: "sy_conns s4 a = Some sf" "sc_destroyed sf" by (auto simp: destroyed_at_def)
  have run: "(http_step cb)\<^sup>*\<^sup>* sy0 s4" using run4(1) u3(3) by simp
  obtain sf' where sf': "goes_on u3 a se s4 sf'"
    using http_steps_live_on [OF assms(2) run4(1) u3(3)] se unfolding lives_on_def goes_on_def by blast
  obtain sc' where sc': "goes_on s4 a sf s5 sc'"
    using http_steps_live_on [OF assms(2) run assms(14)] sf(1) unfolding lives_on_def by blast
  have names: "sc_name se = sc_name sc" "sf' = sf" using sd se sf sf' by (simp_all add: goes_on_def)
  have facts: "sy_conns s5 a = Some sc'" "sc_destroyed sc'" "sc_name sc' = sc_name sc"
      "sv_connections (sy_server s5) (sc_name sc) \<noteq> Some a"
    using sc' sf sf' table names by (simp_all add: goes_on_def)
  have w: "wired s5" using http_run_sound [OF assms(2) run4(4)] ..
  have "\<not> registered sc'" using wired_onD(1) [OF w [unfolded wired_def] facts(1)] facts(2) by (simp add: conn_wired_def)
  then have "a = ch_ptr (ac_channel (sy_acceptor s5)) \<and> nfd = ch_fd (ac_channel (sy_acceptor s5))"
    if "pl_channels (sy_pollers s5 lp) nfd = Some a" for lp nfd
    using wired_onD(4) [OF w [unfolded wired_def], of lp nfd a] that facts(1) by (auto simp: known_def)
  with facts show ?thesis by blast
qed

theorem gone_in_two_rounds_witness:
  "\<exists>(sy :: http_sys) s2 s4 sc sc'. sy_conns sy 7 = Some sc \<and> \<not> sc_destroyed sc \<and>
     loop_body defaultHttpCallback (\<lambda>_. None) (\<lambda>_. Inl EMFILE) \<lparr>sin_port = 0, sin_addr = 0\<rparr> 1
       (sv_loop (sy_server sy)) [Wakened] sy = Inr s2 \<and>
     loop_body defaultHttpCallback (\<lambda>_. None) (\<lambda>_. Inl EMFILE) \<lparr>sin_port = 0, sin_addr = 0\<rparr> 2
       (sc_loop sc) [] s2 = Inr s4 \<and> sy_conns s4 7 = Some sc' \<and> sc_destroyed sc'"
proof -
  let ?cb = defaultHttpCallback and ?p = "\<lparr>sin_port = 0, sin_addr = 0\<rparr>"
    and ?alloc = "\<lambda>_ :: http_sys. None :: nat option" and ?acc = "\<lambda>_ :: http_sys. Inl EMFILE :: errno + int \<times> sockaddr_in"
  obtain sy0 where sy0: "new_system 0 ?p ''http'' False 0 3 = Inr (sy0 :: http_sys)"
    using sample_system by blast
  from one_connection_events [OF this, of ?cb 7] obtain s sd where
      r: "(http_step ?cb)\<^sup>*\<^sup>* sy0 s" "sy_conns s = [7 \<mapsto> sd]" "cn_state (sc_conn sd) \<in> {kConnected, kDisconnecting}"
    by blast
  have sd: "sy_conns s 7 = Some sd" using r(2) by simp
  have "conn_wired (known s) 7 sd" using http_run_sound [OF sy0 r(1)] sd by (auto simp: wired_def dest: wired_onD(1))
  then have ch: "ch_index (cn_channel (sc_conn sd)) = kAdded" "\<not> sc_destroyed sd"
    using r(3) by (auto simp: conn_wired_def watched_def registered_def index_values)
  obtain sy sc where sy: "channel_event onConnection (onMessage ?cb) 7 EPOLLHUP (ReadErr ECONNRESET) 1 s = Inr sy"
      "sy_conns sy 7 = Some sc" "cn_state (sc_conn sc) = kDisconnected" "\<not> sc_destroyed sc"
    by (rule hangup_closes [OF sd ch(2)])
  have run: "(http_step ?cb)\<^sup>*\<^sup>* sy0 sy" using r(1) http_step.h_event [OF sd ch(1) sy(1)] by simp
  have cb: "fails_in http_faults (?cb req rsp)" for req rsp by (simp add: defaultHttpCallback_def)
  have round: "\<exists>s'. loop_body ?cb ?alloc ?acc ?p t lp es u = Inr s' \<and> (http_step ?cb)\<^sup>*\<^sup>* u s' \<and> reportable lp u es"
    if "(http_step ?cb)\<^sup>*\<^sup>* sy0 u" "es = [] \<or> es = [Wakened]" for u t lp es
    using run_pending_safe [OF sy0 that(1), of lp] that(2) by (auto simp: loop_body_def reportable_def)
  obtain s2 where s2: "loop_body ?cb ?alloc ?acc ?p 1 (sv_loop (sy_server sy)) [Wakened] sy = Inr s2"
      "(http_step ?cb)\<^sup>*\<^sup>* sy s2" "reportable (sv_loop (sy_server sy)) sy [Wakened]"
    using round [OF run] by blast
  have "(http_step ?cb)\<^sup>*\<^sup>* sy0 s2" using run s2(2) by simp
  with round obtain s4 where s4: "loop_body ?cb ?alloc ?acc ?p 2 (sc_loop sc) [] s2 = Inr s4" "reportable (sc_loop sc) s2 []"
    by blast
  have alloc: "\<forall>s a. ?alloc s = Some a \<longrightarrow> sy_conns s a = None" and
    acc: "\<forall>s nfd peer. ?acc s = Inr (nfd, peer) \<longrightarrow> \<not> fd_open s nfd" by simp_all
  from gone_in_two_rounds [OF cb sy0 run alloc acc sy(2,3) rtranclp.rtrancl_refl s2(3,1) rtranclp.rtrancl_refl s4(2,1)
      rtranclp.rtrancl_refl] obtain sc' where "sy_conns s4 7 = Some sc'" "sc_destroyed sc'" by blast
  with sy(2,4) s2(1) s4(1) show ?thesis by blast
qed

end
