(* ===== verification/SqlConnectionPool.thy ===== *)
theory SqlConnectionPool
  imports Prelude "HOL-Library.Multiset"
begin

text \<open>
  \<open>mymuduo/sql/SqlConnectionPool.h\<close> and \<open>SqlConnectionPool.cpp\<close>: the pool of database connections and
  its counters. A connection is a value of the type \<open>'c\<close>; opening one is an argument. The counters
  are \<open>int\<close>s that count list elements, so they stay below the number of open sockets and are written
  as unbounded integers.
\<close>

section \<open>The pool\<close>

record 'c sql_pool =
  m_MaxConn :: int
  m_CurConn :: int
  m_FreeConn :: int
  connList :: "'c list"
  m_url :: string
  m_Port :: string
  m_User :: string
  m_PassWord :: string
  m_DatabaseName :: string
  m_close_log :: int

definition new_sql_pool :: "int \<Rightarrow> int \<Rightarrow> 'c sql_pool" where
  "new_sql_pool anyMax anyLog =
     \<lparr>m_MaxConn = anyMax, m_CurConn = 0, m_FreeConn = 0, connList = [], m_url = [], m_Port = [],
      m_User = [], m_PassWord = [], m_DatabaseName = [], m_close_log = anyLog\<rparr>"

text \<open>The assignment of an \<open>int\<close> to a \<open>std::string\<close> stores one character.\<close>

definition string_of_int_assign :: "int \<Rightarrow> string" where
  "string_of_int_assign n = [char_of (nat (n mod 256))]"

text \<open>The loop of \<open>init\<close>: the i-th call of \<open>mysql_init\<close> and of \<open>mysql_real_connect\<close>.\<close>

fun init_conns ::
    "(nat \<Rightarrow> 'c option) \<Rightarrow> (nat \<Rightarrow> 'c \<Rightarrow> 'c option) \<Rightarrow> nat list \<Rightarrow> 'c sql_pool \<Rightarrow> 'c sql_pool res" where
  "init_conns mysql_init real_connect [] p = Inr p"
| "init_conns mysql_init real_connect (i # is) p =
     (case mysql_init i of
        None \<Rightarrow> Inl ProcessExit
      | Some con \<Rightarrow>
          (case real_connect i con of
             None \<Rightarrow> Inl ProcessExit
           | Some c \<Rightarrow>
               init_conns mysql_init real_connect is
                 (p\<lparr>connList := connList p @ [c], m_FreeConn := m_FreeConn p + 1\<rparr>)))"

definition init_pool ::
    "(nat \<Rightarrow> 'c option) \<Rightarrow> (nat \<Rightarrow> 'c \<Rightarrow> 'c option) \<Rightarrow> string \<Rightarrow> string \<Rightarrow> string \<Rightarrow> string \<Rightarrow> int \<Rightarrow> int \<Rightarrow> int \<Rightarrow>
      'c sql_pool \<Rightarrow> 'c sql_pool res" where
  "init_pool mysql_init real_connect url user passWord dbName port maxConn close_log p =
     (let p1 = p\<lparr>m_url := url, m_Port := string_of_int_assign port, m_User := user, m_PassWord := passWord,
                 m_DatabaseName := dbName, m_close_log := close_log\<rparr>
      in bind_res (init_conns mysql_init real_connect [0..<nat maxConn] p1) (\<lambda>p2.
           Inr (p2\<lparr>m_MaxConn := m_FreeConn p2\<rparr>)))"

definition GetFreeConn :: "'c sql_pool \<Rightarrow> int" where
  "GetFreeConn p = m_FreeConn p"

text \<open>What \<open>GetConnection\<close> does once its wait has succeeded; \<open>front\<close> of an empty list is undefined.\<close>

definition take_conn :: "'c sql_pool \<Rightarrow> ('c option \<times> 'c sql_pool) res" where
  "take_conn p =
     (case connList p of
        [] \<Rightarrow> Inl OutOfBounds
      | c # cs \<Rightarrow> Inr (Some c, p\<lparr>connList := cs, m_FreeConn := m_FreeConn p - 1, m_CurConn := m_CurConn p + 1\<rparr>))"

text \<open>
  \<open>wait\<close> is what happens between the test of the list and the end of the wait for a free connection:
  whether the condition was met within three seconds, and the pool that the other threads have left.
\<close>

definition GetConnection ::
    "('c sql_pool \<Rightarrow> bool \<times> 'c sql_pool) \<Rightarrow> 'c sql_pool \<Rightarrow> ('c option \<times> 'c sql_pool) res" where
  "GetConnection wait p =
     (if length (connList p) = 0 then Inr (None, p)
      else
        let (met, p1) = wait p
        in if met then take_conn p1 else Inr (None, p1))"

definition ReleaseConnection :: "'c option \<Rightarrow> 'c sql_pool \<Rightarrow> bool \<times> 'c sql_pool" where
  "ReleaseConnection con p =
     (case con of
        None \<Rightarrow> (False, p)
      | Some c \<Rightarrow>
          (True, p\<lparr>connList := connList p @ [c], m_FreeConn := m_FreeConn p + 1, m_CurConn := m_CurConn p - 1\<rparr>))"

text \<open>Also gives the connections that are closed.\<close>

definition DestroyPool :: "'c sql_pool \<Rightarrow> 'c list \<times> 'c sql_pool" where
  "DestroyPool p =
     (if 0 < length (connList p)
      then (connList p, p\<lparr>m_CurConn := 0, m_FreeConn := 0, connList := []\<rparr>)
      else ([], p))"

text \<open>The two halves of \<open>connectionRAII\<close>.\<close>

definition connectionRAII ::
    "('c sql_pool \<Rightarrow> bool \<times> 'c sql_pool) \<Rightarrow> 'c sql_pool \<Rightarrow> ('c option \<times> 'c sql_pool) res" where
  "connectionRAII wait p = GetConnection wait p"

definition delete_connectionRAII :: "'c option \<Rightarrow> 'c sql_pool \<Rightarrow> 'c sql_pool" where
  "delete_connectionRAII conRAII p = snd (ReleaseConnection conRAII p)"

text \<open>The wait when no other thread uses the pool.\<close>

definition alone :: "'c sql_pool \<Rightarrow> bool \<times> 'c sql_pool" where
  "alone p = (0 < GetFreeConn p, p)"

section \<open>The interface of the pool\<close>

text \<open>
  What a client relies on: taking a connection moves it out of the free ones and counts it as used,
  giving it back undoes that, and no other call changes the pool.
\<close>

locale connection_pool =
  fixes get :: "'p \<Rightarrow> ('c option \<times> 'p) res"
    and release :: "'c option \<Rightarrow> 'p \<Rightarrow> bool \<times> 'p"
    and free :: "'p \<Rightarrow> 'c multiset"
    and used :: "'p \<Rightarrow> int"
    and ok :: "'p \<Rightarrow> bool"
  assumes get_Some: "ok p \<Longrightarrow> get p = Inr (Some c, p') \<Longrightarrow>
      ok p' \<and> free p = add_mset c (free p') \<and> used p' = used p + 1"
    and get_None: "ok p \<Longrightarrow> get p = Inr (None, p') \<Longrightarrow> p' = p"
    and get_total: "ok p \<Longrightarrow> \<exists>r. get p = Inr r"
    and release_Some: "ok p \<Longrightarrow> release (Some c) p = (b, p') \<Longrightarrow>
      ok p' \<and> free p' = add_mset c (free p) \<and> used p' = used p - 1"
begin

definition same :: "'p \<Rightarrow> 'p \<Rightarrow> bool" where
  "same p p' \<longleftrightarrow> (ok p \<longrightarrow> ok p' \<and> free p' = free p \<and> used p' = used p)"

lemma same_refl [simp]: "same p p"
  by (simp add: same_def)

lemma same_trans: "same p q \<Longrightarrow> same q r \<Longrightarrow> same p r"
  by (simp add: same_def)

lemma get_release: "get p = Inr (Some c, p1) \<Longrightarrow> same p (snd (release (Some c) p1))"
  using get_Some [of p c p1] release_Some [of p1 c] by (cases "release (Some c) p1") (auto simp: same_def)

end

definition pool_ok :: "'c sql_pool \<Rightarrow> bool" where
  "pool_ok p \<longleftrightarrow> m_FreeConn p = int (length (connList p))"

interpretation sql: connection_pool "GetConnection alone" ReleaseConnection "\<lambda>p. mset (connList p)" m_CurConn pool_ok
  by unfold_locales
    (auto simp: GetConnection_def alone_def take_conn_def ReleaseConnection_def pool_ok_def GetFreeConn_def
      split: list.splits if_splits)

section \<open>Many threads\<close>

text \<open>
  The threads of the server share the pool: a thread tests the list without the lock, waits, takes a
  connection under the lock or gives up, uses it and releases it. The state holds the pool, the threads
  that wait, and who holds which connection.
\<close>

record 'c sql_sys =
  ss_pool :: "'c sql_pool"
  ss_waiting :: "nat list"
  ss_held :: "(nat \<times> 'c) list"

inductive sql_step :: "'c sql_sys \<Rightarrow> 'c sql_sys \<Rightarrow> bool" where
  begin_wait: "length (connList (ss_pool s)) \<noteq> 0 \<Longrightarrow> sql_step s (s\<lparr>ss_waiting := t # ss_waiting s\<rparr>)"
| take: "t \<in> set (ss_waiting s) \<Longrightarrow> 0 < GetFreeConn (ss_pool s) \<Longrightarrow> take_conn (ss_pool s) = Inr (Some c, p) \<Longrightarrow>
    sql_step s (s\<lparr>ss_pool := p, ss_waiting := remove1 t (ss_waiting s), ss_held := (t, c) # ss_held s\<rparr>)"
| timeout: "t \<in> set (ss_waiting s) \<Longrightarrow> sql_step s (s\<lparr>ss_waiting := remove1 t (ss_waiting s)\<rparr>)"
| release: "(t, c) \<in> set (ss_held s) \<Longrightarrow> ReleaseConnection (Some c) (ss_pool s) = (b, p) \<Longrightarrow>
    sql_step s (s\<lparr>ss_pool := p, ss_held := remove1 (t, c) (ss_held s)\<rparr>)"

text \<open>Nothing is lost and every connection has one owner.\<close>

definition sql_inv :: "'c multiset \<Rightarrow> 'c sql_sys \<Rightarrow> bool" where
  "sql_inv all s \<longleftrightarrow> pool_ok (ss_pool s) \<and>
     m_CurConn (ss_pool s) = int (length (ss_held s)) \<and>
     mset (connList (ss_pool s)) + mset (map snd (ss_held s)) = all"

lemma sql_inv_step: "sql_step s s' \<Longrightarrow> sql_inv all s \<Longrightarrow> sql_inv all s'"
proof (induction rule: sql_step.induct)
  case (take t s c p)
  then show ?case
    by (auto simp: sql_inv_def take_conn_def pool_ok_def split: list.splits)
next
  case (release t c s b p)
  have "mset (map snd (ss_held s)) = add_mset c (mset (map snd (remove1 (t, c) (ss_held s))))"
  proof -
    have "mset (ss_held s) = add_mset (t, c) (mset (remove1 (t, c) (ss_held s)))" using release(1) by simp
    then show ?thesis by (simp only: mset_map image_mset_add_mset snd_conv)
  qed
  moreover have "0 < length (ss_held s)" using release(1) by (cases "ss_held s") auto
  ultimately show ?case
    using release by (auto simp: sql_inv_def ReleaseConnection_def pool_ok_def length_remove1 Suc_leI of_nat_diff)
qed (simp_all add: sql_inv_def)

lemma sql_inv_steps: "sql_step\<^sup>*\<^sup>* s s' \<Longrightarrow> sql_inv all s \<Longrightarrow> sql_inv all s'"
  by (induction rule: rtranclp_induct) (auto intro: sql_inv_step)

lemma init_conns_ok:
  "init_conns mysql_init real_connect is p = Inr p' \<Longrightarrow> pool_ok p \<Longrightarrow>
     pool_ok p' \<and> m_CurConn p' = m_CurConn p \<and> length (connList p') = length (connList p) + length is \<and>
     m_Port p' = m_Port p"
proof (induction "is" arbitrary: p)
  case (Cons i "is")
  from Cons.prems(1) obtain con c where "mysql_init i = Some con" "real_connect i con = Some c"
    by (auto split: option.splits)
  with Cons.prems Cons.IH [of "p\<lparr>connList := connList p @ [c], m_FreeConn := m_FreeConn p + 1\<rparr>"]
  show ?case by (simp add: pool_ok_def)
qed simp

section \<open>Properties\<close>



text \<open>Destroying the pool does not reach the connections in use: it closes the free ones (and does
  nothing at all when there is none, although all are open), a connection released afterwards goes back
  into the destroyed pool unclosed and can be taken again, and the counter of used connections becomes
  negative.\<close>

theorem destroyed_pool_reused:
  assumes "pool_ok p" "ReleaseConnection (Some c) (snd (DestroyPool p)) = (b, p')"
  shows "fst (DestroyPool p) = connList p \<and>
    (connList p = [] \<longrightarrow> snd (DestroyPool p) = p) \<and>
    (connList p \<noteq> [] \<longrightarrow> m_CurConn p' = - 1 \<and> connList p' = [c] \<and>
      (\<exists>p''. GetConnection alone p' = Inr (Some c, p'') \<and> m_FreeConn p'' = 0))"
  using assms by (cases "connList p") (auto simp: DestroyPool_def ReleaseConnection_def GetConnection_def
      alone_def GetFreeConn_def take_conn_def pool_ok_def)

theorem destroyed_pool_reused_witness:
  "\<exists>p'. ReleaseConnection (Some (1 :: nat)) (snd (DestroyPool ((new_sql_pool 2 0)\<lparr>connList := [2], m_FreeConn := 1, m_CurConn := 1\<rparr>))) = (True, p') \<and>
     m_CurConn p' = - 1"
proof -
  let ?p = "(new_sql_pool 2 0)\<lparr>connList := [2 :: nat], m_FreeConn := 1, m_CurConn := 1\<rparr>"
  let ?p' = "(new_sql_pool 2 0)\<lparr>connList := [1 :: nat], m_FreeConn := 1, m_CurConn := - 1\<rparr>"
  have "pool_ok ?p" by (simp add: pool_ok_def)
  moreover have r: "ReleaseConnection (Some 1) (snd (DestroyPool ?p)) = (True, ?p')"
    by (simp add: DestroyPool_def ReleaseConnection_def new_sql_pool_def)
  ultimately have "m_CurConn ?p' = - 1" using destroyed_pool_reused [of ?p 1 True ?p'] by simp
  with r show ?thesis by blast
qed

end
