(* ===== verification/SqlOperation.thy ===== *)
theory SqlOperation
  imports SqlConnectionPool
begin

text \<open>
  \<open>mymuduo/sql/SqlOperation.cpp\<close>: looking a user up and adding one, over a connection of the pool. The
  database is behind the client library, so it is an argument: \<open>query c s d\<close> is the outcome of
  \<open>mysql_real_query\<close> of the text \<open>s\<close> on connection \<open>c\<close> in the database state \<open>d\<close> (true when it
  returns 0) with the state after it, and \<open>fetch c d\<close> what \<open>mysql_fetch_row\<close> then gives for the stored
  result, a row whose cells may be null or no row.
\<close>

section \<open>The operations\<close>

abbreviation quote :: char where "quote \<equiv> CHR 0x27"

definition select_query :: "string \<Rightarrow> string" where
  "select_query username = ''select * from userdata WHERE username='' @ quote # username @ quote # '';''"

definition insert_query :: "string \<Rightarrow> string \<Rightarrow> string" where
  "insert_query username userpasswd =
     ''INSERT INTO userdata (username,password) VALUES ('' @ quote # username @ quote # '','' @ quote # userpasswd @ quote # '')''"

text \<open>The copy of the row; \<open>std::string\<close> of a null pointer throws.\<close>

fun row_cells :: "string option list \<Rightarrow> string list res" where
  "row_cells [] = Inr []"
| "row_cells (None # cs) = Inl LogicError"
| "row_cells (Some s # cs) = bind_res (row_cells cs) (\<lambda>ss. Inr (s # ss))"

type_synonym ('c, 'd) db_query = "'c \<Rightarrow> string \<Rightarrow> 'd \<Rightarrow> bool \<times> 'd"
type_synonym ('c, 'd) db_fetch = "'c \<Rightarrow> 'd \<Rightarrow> string option list option"
type_synonym ('c, 'd) sql_state = "'c sql_pool \<times> 'd"

definition give_back :: "'c \<Rightarrow> 'c sql_pool \<Rightarrow> 'c sql_pool" where
  "give_back c p = snd (ReleaseConnection (Some c) p)"

definition getQueryRes ::
    "('c sql_pool \<Rightarrow> bool \<times> 'c sql_pool) \<Rightarrow> ('c, 'd) db_query \<Rightarrow> ('c, 'd) db_fetch \<Rightarrow> string \<Rightarrow>
      ('c, 'd) sql_state \<Rightarrow> (string list \<times> ('c, 'd) sql_state) res" where
  "getQueryRes wait query fetch username s =
     (let (p, d) = s
      in bind_res (GetConnection wait p) (\<lambda>(sqlconn, p1).
           case sqlconn of
             None \<Rightarrow> Inr ([], (p1, d))
           | Some c \<Rightarrow>
               let (success, d1) = query c (select_query username) d
               in if \<not> success then Inr ([], (give_back c p1, d1))
                  else
                    (case fetch c d1 of
                       None \<Rightarrow> Inr ([], (give_back c p1, d1))
                     | Some res_row \<Rightarrow>
                         bind_res (row_cells res_row) (\<lambda>res. Inr (res, (give_back c p1, d1))))))"

definition insertNewUser ::
    "('c sql_pool \<Rightarrow> bool \<times> 'c sql_pool) \<Rightarrow> ('c, 'd) db_query \<Rightarrow> ('c, 'd) db_fetch \<Rightarrow> string \<Rightarrow> string \<Rightarrow>
      ('c, 'd) sql_state \<Rightarrow> (bool \<times> ('c, 'd) sql_state) res" where
  "insertNewUser wait query fetch username userpasswd s =
     bind_res (getQueryRes wait query fetch username s) (\<lambda>(preQuery, (p, d)).
       if 0 < length preQuery then Inr (False, (p, d))
       else
         bind_res (GetConnection wait p) (\<lambda>(sqlconn, p1).
           case sqlconn of
             None \<Rightarrow> Inr (False, (p1, d))
           | Some c \<Rightarrow>
               let (success, d1) = query c (insert_query username userpasswd) d
               in Inr (success, (give_back c p1, d1))))"

section \<open>The pool after an operation\<close>

lemma getQueryRes_same:
  assumes "getQueryRes alone query fetch u (p, d) = Inr (r, (p', d'))"
  shows "sql.same p p'"
proof (cases "GetConnection alone p")
  case (Inr x)
  obtain con p1 where x: "x = (con, p1)" by fastforce
  show ?thesis
  proof (cases con)
    case None
    with assms Inr x have "p' = p1" by (simp add: getQueryRes_def)
    with sql.get_None [of p p1] Inr x None show ?thesis by (auto simp: sql.same_def)
  next
    case (Some c)
    with assms Inr x have "p' = give_back c p1"
      by (auto simp: getQueryRes_def Let_def bind_res_eq_Inr_iff split: prod.splits if_splits option.splits)
    then show ?thesis using sql.get_release [of p c p1] Inr x Some by (simp add: give_back_def)
  qed
qed (use assms in \<open>simp add: getQueryRes_def\<close>)

lemma insertNewUser_same:
  assumes "insertNewUser alone query fetch u pw (p, d) = Inr (r, (p', d'))"
  shows "sql.same p p'"
proof -
  obtain q p1 d1 where q: "getQueryRes alone query fetch u (p, d) = Inr (q, (p1, d1))"
    using assms by (auto simp: insertNewUser_def bind_res_eq_Inr_iff)
  have s1: "sql.same p p1" by (rule getQueryRes_same [OF q])
  show ?thesis
  proof (cases "q = []")
    case False
    with assms q s1 show ?thesis by (simp add: insertNewUser_def)
  next
    case True
    with assms q obtain con p2 where g: "GetConnection alone p1 = Inr (con, p2)"
      by (auto simp: insertNewUser_def bind_res_eq_Inr_iff)
    have "sql.same p1 p'"
    proof (cases con)
      case None
      with assms q True g have "p' = p2" by (simp add: insertNewUser_def)
      with sql.get_None [of p1 p2] g None show ?thesis by (auto simp: sql.same_def)
    next
      case (Some c)
      with assms q True g have "p' = give_back c p2"
        by (auto simp: insertNewUser_def Let_def split: prod.splits)
      then show ?thesis using sql.get_release [of p1 c p2] g Some by (simp add: give_back_def)
    qed
    with s1 show ?thesis by (rule sql.same_trans)
  qed
qed

lemma take_first:
  "pool_ok p \<Longrightarrow> connList p \<noteq> [] \<Longrightarrow> \<exists>c p'. GetConnection alone p = Inr (Some c, p') \<and>
     sql.same p (give_back c p') \<and> connList (give_back c p') \<noteq> []"
  by (cases "connList p") (auto simp: GetConnection_def alone_def GetFreeConn_def take_conn_def pool_ok_def
      give_back_def ReleaseConnection_def sql.same_def)

section \<open>A database that holds the table of users\<close>

text \<open>
  The documented behaviour of the server for the two texts, when the names hold no quote and no
  backslash: selecting finds the row of the user or none, inserting adds it.
\<close>

definition sql_plain :: "string \<Rightarrow> bool" where
  "sql_plain s \<longleftrightarrow> quote \<notin> set s \<and> CHR 0x5C \<notin> set s"

definition holds_users :: "('c, 'd) db_query \<Rightarrow> ('c, 'd) db_fetch \<Rightarrow> ('d \<Rightarrow> string \<rightharpoonup> string) \<Rightarrow> bool" where
  "holds_users query fetch users \<longleftrightarrow>
     (\<forall>c d u. sql_plain u \<longrightarrow> (\<exists>d1 id. query c (select_query u) d = (True, d1) \<and> users d1 = users d \<and>
        fetch c d1 = map_option (\<lambda>pw. [Some id, Some u, Some pw]) (users d u))) \<and>
     (\<forall>c d u pw. sql_plain u \<longrightarrow> sql_plain pw \<longrightarrow> users d u = None \<longrightarrow>
        (\<exists>d1. query c (insert_query u pw) d = (True, d1) \<and> users d1 = (users d)(u \<mapsto> pw)))"

lemma getQueryRes_users:
  assumes "holds_users query fetch users" "pool_ok p" "connList p \<noteq> []" "sql_plain u"
  shows "\<exists>id p' d'. getQueryRes alone query fetch u (p, d) =
      Inr (case users d u of None \<Rightarrow> [] | Some pw \<Rightarrow> [id, u, pw], (p', d')) \<and>
    users d' = users d \<and> pool_ok p' \<and> connList p' \<noteq> []"
proof -
  obtain c p1 where g: "GetConnection alone p = Inr (Some c, p1)" "sql.same p (give_back c p1)"
      "connList (give_back c p1) \<noteq> []"
    using take_first [OF assms(2,3)] by blast
  obtain d1 id where q: "query c (select_query u) d = (True, d1)" "users d1 = users d"
      "fetch c d1 = map_option (\<lambda>pw. [Some id, Some u, Some pw]) (users d u)"
    using assms(1,4) unfolding holds_users_def by blast
  show ?thesis
    using g q assms(2) by (cases "users d u") (auto simp: getQueryRes_def sql.same_def)
qed

section \<open>Properties\<close>

text \<open>C34. Looking a user up or adding one gives the connection back on every path that returns, whatever
  the database answers (no connection free, a query that fails, no row, a row): afterwards the same
  connections are free and the counters are as before.\<close>

theorem sql_connection_returned:
  assumes "pool_ok p"
    "getQueryRes alone query fetch u (p, d) = Inr (r, (p', d')) \<or>
     insertNewUser alone query fetch u pw (p, d) = Inr (b, (p', d'))"
  shows "mset (connList p') = mset (connList p) \<and> m_FreeConn p' = m_FreeConn p \<and> m_CurConn p' = m_CurConn p"
proof -
  have "sql.same p p'" using assms(2) by (auto dest: getQueryRes_same insertNewUser_same)
  with assms(1) have s: "mset (connList p') = mset (connList p)" "m_CurConn p' = m_CurConn p" "pool_ok p'"
    by (simp_all add: sql.same_def)
  moreover have "length (connList p') = length (connList p)" by (rule mset_eq_length [OF s(1)])
  ultimately show ?thesis using assms(1) by (simp add: pool_ok_def)
qed

theorem sql_connection_returned_witness:
  "\<exists>p' d'. getQueryRes alone (\<lambda>c q d. (True, d + 1)) (\<lambda>c d. Some [Some ''1'', Some ''bob'']) ''bob''
      (((new_sql_pool 1 0)\<lparr>connList := [7 :: nat], m_FreeConn := 1\<rparr>), 0 :: nat) = Inr ([''1'', ''bob''], (p', d')) \<and>
    mset (connList p') = {#7#} \<and> d' = 1"
proof -
  let ?p = "(new_sql_pool 1 0)\<lparr>connList := [7 :: nat], m_FreeConn := 1\<rparr>"
  have g: "\<exists>p'. getQueryRes alone (\<lambda>c q d. (True, d + 1)) (\<lambda>c d. Some [Some ''1'', Some ''bob'']) ''bob'' (?p, 0 :: nat) =
      Inr ([''1'', ''bob''], (p', 1))"
    by (simp add: getQueryRes_def GetConnection_def alone_def GetFreeConn_def take_conn_def)
  then obtain p' where p': "getQueryRes alone (\<lambda>c q d. (True, d + 1)) (\<lambda>c d. Some [Some ''1'', Some ''bob''])
      ''bob'' (?p, 0 :: nat) = Inr ([''1'', ''bob''], (p', 1))" ..
  have "pool_ok ?p" by (simp add: pool_ok_def)
  from sql_connection_returned [OF this disjI1 [OF p']] p' show ?thesis by auto
qed

text \<open>Registering a user, on a database that holds the table of users: \<open>insertNewUser\<close> succeeds
  exactly when the name is new, then the table has gained exactly this entry and otherwise is as
  before, and a later \<open>getQueryRes\<close> of the name returns the identifier, the name and the stored password.\<close>

theorem register_then_lookup:
  assumes "holds_users query fetch users" "pool_ok p" "connList p \<noteq> []" "sql_plain u" "sql_plain pw"
  shows "\<exists>b p' d' id s. insertNewUser alone query fetch u pw (p, d) = Inr (b, (p', d')) \<and>
    b = (users d u = None) \<and> users d' = (if b then (users d)(u \<mapsto> pw) else users d) \<and>
    getQueryRes alone query fetch u (p', d') = Inr ([id, u, the (users d' u)], s)"
proof -
  obtain id1 p1 d1 where r1: "getQueryRes alone query fetch u (p, d) =
      Inr (case users d u of None \<Rightarrow> [] | Some pw \<Rightarrow> [id1, u, pw], (p1, d1))" "users d1 = users d"
      "pool_ok p1" "connList p1 \<noteq> []"
    using getQueryRes_users [OF assms(1-4)] by blast
  have "\<exists>b p' d'. insertNewUser alone query fetch u pw (p, d) = Inr (b, (p', d')) \<and> b = (users d u = None) \<and>
      users d' = (if b then (users d)(u \<mapsto> pw) else users d) \<and> pool_ok p' \<and> connList p' \<noteq> []"
  proof (cases "users d u")
    case (Some w)
    with r1 show ?thesis by (auto simp: insertNewUser_def)
  next
    case None
    obtain c p2 where g: "GetConnection alone p1 = Inr (Some c, p2)" "sql.same p1 (give_back c p2)"
        "connList (give_back c p2) \<noteq> []"
      using take_first [OF r1(3,4)] by blast
    have "users d1 u = None" using None r1(2) by simp
    with assms(1,4,5) obtain d2 where q: "query c (insert_query u pw) d1 = (True, d2)"
        "users d2 = (users d1)(u \<mapsto> pw)"
      unfolding holds_users_def by blast
    show ?thesis using r1 g q None by (auto simp: insertNewUser_def sql.same_def)
  qed
  then obtain b p' d' where i: "insertNewUser alone query fetch u pw (p, d) = Inr (b, (p', d'))"
      "b = (users d u = None)" "users d' = (if b then (users d)(u \<mapsto> pw) else users d)" "pool_ok p'" "connList p' \<noteq> []"
    by blast
  obtain id p'' d'' where "getQueryRes alone query fetch u (p', d') =
      Inr (case users d' u of None \<Rightarrow> [] | Some pw \<Rightarrow> [id, u, pw], (p'', d''))"
    using getQueryRes_users [OF assms(1) i(4,5) assms(4)] by blast
  moreover obtain w where "users d' u = Some w" using i(2,3) by (cases "users d u") auto
  ultimately show ?thesis using i(1-3) by auto
qed

text \<open>A small database: the table, and the row of the last selection.\<close>

definition small_query :: "(nat, (string \<rightharpoonup> string) \<times> string option list option) db_query" where
  "small_query c q d =
     (case find_char quote q of
        None \<Rightarrow> (False, d)
      | Some (h, rest) \<Rightarrow>
          (case find_char quote rest of
             None \<Rightarrow> (False, d)
           | Some (u, rest2) \<Rightarrow>
               if h = ''select * from userdata WHERE username=''
               then (True, (fst d, map_option (\<lambda>pw. [Some ''1'', Some u, Some pw]) (fst d u)))
               else
                 (case find_char quote (tl (tl rest2)) of
                    None \<Rightarrow> (False, d)
                  | Some (pw, _) \<Rightarrow> (True, ((fst d)(u \<mapsto> pw), None)))))"

lemma small_query_holds_users: "holds_users small_query (\<lambda>c d. snd d) fst"
  by (auto simp: holds_users_def sql_plain_def small_query_def select_query_def insert_query_def)

theorem register_then_lookup_witness:
  "\<exists>p' d' id s. insertNewUser alone small_query (\<lambda>c d. snd d) ''alice'' ''secret''
      (((new_sql_pool 1 0)\<lparr>connList := [7 :: nat], m_FreeConn := 1\<rparr>), (Map.empty, None)) = Inr (True, (p', d')) \<and>
    getQueryRes alone small_query (\<lambda>c d. snd d) ''alice'' (p', d') = Inr ([id, ''alice'', ''secret''], s)"
proof -
  let ?p = "(new_sql_pool 1 0)\<lparr>connList := [7 :: nat], m_FreeConn := 1\<rparr>"
  have p: "pool_ok ?p" "connList ?p \<noteq> []" by (simp_all add: pool_ok_def)
  have u: "sql_plain ''alice''" "sql_plain ''secret''" by (simp_all add: sql_plain_def)
  show ?thesis
    using register_then_lookup [OF small_query_holds_users p u, of "(Map.empty, None)"] by auto
qed

end
