(* ===== verification/SqlThreads.thy ===== *)
theory SqlThreads
  imports SqlOperation
begin

text \<open>
  \<open>getQueryRes\<close> and \<open>insertNewUser\<close> of \<open>mymuduo/sql/SqlOperation.cpp\<close> as the threads of the server run
  them at the same time: a step is what a thread does between two points where another thread can act on
  the pool or on the database.
\<close>

section \<open>The threads\<close>

text \<open>A use of a connection: the query of \<open>getQueryRes\<close>, called by the site or by \<open>insertNewUser\<close>, and the
  insertion of the latter.\<close>

datatype db_call = Lookup string | Check string string | Add string string

datatype db_answer = Rows "string list" | Flag bool

text \<open>Where a thread is: outside, before the unlocked test of \<open>GetConnection\<close>, in its wait, before the
  query, before \<open>ReleaseConnection\<close> (with what comes after it), and returned.\<close>

datatype 'c db_pc = Idle | Test db_call | Wait db_call | Hold db_call 'c | Giving 'c "'c db_pc" | Returned db_call db_answer

record ('c, 'd) db_sys =
  ds_pool :: "'c sql_pool"
  ds_db :: 'd
  ds_pcs :: "nat \<Rightarrow> 'c db_pc"

text \<open>What follows when there is no connection, and when the rows of the query are known.\<close>

fun rows_known :: "db_call \<Rightarrow> string list \<Rightarrow> 'c db_pc" where
  "rows_known (Check u pw) rows = (if 0 < length rows then Returned (Check u pw) (Flag False) else Test (Add u pw))"
| "rows_known k rows = Returned k (Rows rows)"

fun no_connection :: "db_call \<Rightarrow> 'c db_pc" where
  "no_connection (Add u pw) = Returned (Add u pw) (Flag False)"
| "no_connection k = rows_known k []"

definition select_rows :: "('c, 'd) db_query \<Rightarrow> ('c, 'd) db_fetch \<Rightarrow> string \<Rightarrow> 'c \<Rightarrow> 'd \<Rightarrow> (string list \<times> 'd) res" where
  "select_rows query fetch u c d =
     (let (success, d1) = query c (select_query u) d
      in if \<not> success then Inr ([], d1)
         else case fetch c d1 of None \<Rightarrow> Inr ([], d1) | Some row \<Rightarrow> bind_res (row_cells row) (\<lambda>rows. Inr (rows, d1)))"

fun use_connection ::
    "('c, 'd) db_query \<Rightarrow> ('c, 'd) db_fetch \<Rightarrow> db_call \<Rightarrow> 'c \<Rightarrow> 'd \<Rightarrow> ('c db_pc \<times> 'd) res" where
  "use_connection query fetch (Lookup u) c d =
     bind_res (select_rows query fetch u c d) (\<lambda>(rows, d1). Inr (rows_known (Lookup u) rows, d1))"
| "use_connection query fetch (Check u pw) c d =
     bind_res (select_rows query fetch u c d) (\<lambda>(rows, d1). Inr (rows_known (Check u pw) rows, d1))"
| "use_connection query fetch (Add u pw) c d =
     (let (success, d1) = query c (insert_query u pw) d in Inr (Returned (Add u pw) (Flag success), d1))"

definition at_pc :: "nat \<Rightarrow> 'c db_pc \<Rightarrow> ('c, 'd) db_sys \<Rightarrow> ('c, 'd) db_sys" where
  "at_pc t pc s = s\<lparr>ds_pcs := (ds_pcs s)(t := pc)\<rparr>"

text \<open>The texts that the threads send; the site does not check the name of a login.\<close>

fun plain_call :: "db_call \<Rightarrow> bool" where
  "plain_call (Lookup u) = sql_plain u"
| "plain_call (Check u pw) = (sql_plain u \<and> sql_plain pw)"
| "plain_call (Add u pw) = (sql_plain u \<and> sql_plain pw)"

fun is_outside :: "'c db_pc \<Rightarrow> bool" where
  "is_outside Idle = True"
| "is_outside (Returned k r) = True"
| "is_outside _ = False"

inductive db_step :: "('c, 'd) db_query \<Rightarrow> ('c, 'd) db_fetch \<Rightarrow> ('c, 'd) db_sys \<Rightarrow> ('c, 'd) db_sys \<Rightarrow> bool"
  for query fetch where
  call: "is_outside (ds_pcs s t) \<Longrightarrow> plain_call k \<Longrightarrow> (\<forall>u pw. k \<noteq> Add u pw) \<Longrightarrow> db_step query fetch s (at_pc t (Test k) s)"
| test: "ds_pcs s t = Test k \<Longrightarrow>
    db_step query fetch s (at_pc t (if length (connList (ds_pool s)) = 0 then no_connection k else Wait k) s)"
| take: "ds_pcs s t = Wait k \<Longrightarrow> 0 < GetFreeConn (ds_pool s) \<Longrightarrow> take_conn (ds_pool s) = Inr (Some c, p) \<Longrightarrow>
    db_step query fetch s (at_pc t (Hold k c) (s\<lparr>ds_pool := p\<rparr>))"
| timeout: "ds_pcs s t = Wait k \<Longrightarrow> db_step query fetch s (at_pc t (no_connection k) s)"
| use: "ds_pcs s t = Hold k c \<Longrightarrow> use_connection query fetch k c (ds_db s) = Inr (pc, d) \<Longrightarrow>
    db_step query fetch s (at_pc t (Giving c pc) (s\<lparr>ds_db := d\<rparr>))"
| release: "ds_pcs s t = Giving c pc \<Longrightarrow>
    db_step query fetch s (at_pc t pc (s\<lparr>ds_pool := give_back c (ds_pool s)\<rparr>))"

inductive_cases db_stepE: "db_step query fetch s s'"

lemma at_pc_simps [simp]:
  "ds_pool (at_pc t pc s) = ds_pool s" "ds_db (at_pc t pc s) = ds_db s"
  "ds_pcs (at_pc t pc s) = (ds_pcs s)(t := pc)"
  by (simp_all add: at_pc_def)

section \<open>One thread alone\<close>

text \<open>Without other threads the steps are the sequential operations.\<close>

definition runs_to ::
    "('c, 'd) db_query \<Rightarrow> ('c, 'd) db_fetch \<Rightarrow> nat \<Rightarrow> ('c, 'd) db_sys \<Rightarrow> 'c db_pc \<Rightarrow> ('c, 'd) sql_state \<Rightarrow> bool" where
  "runs_to query fetch t s pc pd \<longleftrightarrow>
     (db_step query fetch)\<^sup>*\<^sup>* s (at_pc t pc (s\<lparr>ds_db := snd pd, ds_pool := fst pd\<rparr>))"

lemma at_pc_twice [simp]: "at_pc t pc (at_pc t pc' s) = at_pc t pc s"
  by (simp add: at_pc_def)

lemma runs_none:
  assumes "ds_pcs s t = Test k" "GetConnection alone (ds_pool s) = Inr (None, p)"
  shows "runs_to query fetch t s (no_connection k) (p, ds_db s)"
proof (cases "length (connList (ds_pool s)) = 0")
  case True
  with assms db_step.test [OF assms(1), of query fetch] show ?thesis
    by (auto simp: runs_to_def GetConnection_def intro: r_into_rtranclp)
next
  case False
  with assms(2) have "p = ds_pool s" by (auto simp: GetConnection_def alone_def take_conn_def split: if_splits list.splits)
  moreover have "db_step query fetch s (at_pc t (Wait k) s)" using db_step.test [OF assms(1), of query fetch] False by simp
  moreover have "db_step query fetch (at_pc t (Wait k) s) (at_pc t (no_connection k) s)"
    using db_step.timeout [of "at_pc t (Wait k) s" t k query fetch] by simp
  ultimately show ?thesis unfolding runs_to_def by (simp add: converse_rtranclp_into_rtranclp)
qed

lemma runs_take:
  assumes "ds_pcs s t = Test k" "GetConnection alone (ds_pool s) = Inr (Some c, p)"
    and "use_connection query fetch k c (ds_db s) = Inr (pc, d)"
  shows "runs_to query fetch t s pc (give_back c p, d)"
proof -
  have g: "connList (ds_pool s) \<noteq> []" "0 < GetFreeConn (ds_pool s)" "take_conn (ds_pool s) = Inr (Some c, p)"
    using assms(2) by (auto simp: GetConnection_def alone_def split: if_splits)
  have "db_step query fetch s (at_pc t (Wait k) s)" using db_step.test [OF assms(1), of query fetch] g(1) by simp
  moreover have "db_step query fetch (at_pc t (Wait k) s) (at_pc t (Hold k c) (s\<lparr>ds_pool := p\<rparr>))"
    using db_step.take [of "at_pc t (Wait k) s" t k c p query fetch] g by (simp add: at_pc_def)
  moreover have "db_step query fetch (at_pc t (Hold k c) (s\<lparr>ds_pool := p\<rparr>))
      (at_pc t (Giving c pc) (s\<lparr>ds_pool := p, ds_db := d\<rparr>))"
    using db_step.use [of "at_pc t (Hold k c) (s\<lparr>ds_pool := p\<rparr>)" t k c query fetch pc d] assms(3) by (simp add: at_pc_def)
  moreover have "db_step query fetch (at_pc t (Giving c pc) (s\<lparr>ds_pool := p, ds_db := d\<rparr>))
      (at_pc t pc (s\<lparr>ds_db := d, ds_pool := give_back c p\<rparr>))"
    using db_step.release [of "at_pc t (Giving c pc) (s\<lparr>ds_pool := p, ds_db := d\<rparr>)" t c pc query fetch] by (simp add: at_pc_def)
  ultimately show ?thesis unfolding runs_to_def fst_conv snd_conv by (blast intro: converse_rtranclp_into_rtranclp)
qed

lemma select_getQueryRes:
  "getQueryRes alone query fetch u (p, d) =
     bind_res (GetConnection alone p) (\<lambda>(con, p1). case con of
         None \<Rightarrow> Inr ([], (p1, d))
       | Some c \<Rightarrow> bind_res (select_rows query fetch u c d) (\<lambda>(rows, d1). Inr (rows, (give_back c p1, d1))))"
proof -
  have "(let (success, d1) = query c (select_query u) d
        in if \<not> success then Inr ([], (give_back c p1, d1))
           else (case fetch c d1 of None \<Rightarrow> Inr ([], (give_back c p1, d1))
              | Some row \<Rightarrow> bind_res (row_cells row) (\<lambda>res. Inr (res, (give_back c p1, d1))))) =
      bind_res (select_rows query fetch u c d) (\<lambda>(rows, d1). Inr (rows, (give_back c p1, d1)))" for c p1
  proof -
    obtain ok d1 where q: "query c (select_query u) d = (ok, d1)" by fastforce
    show ?thesis
    proof (cases "fetch c d1")
      case (Some row)
      with q show ?thesis by (cases "row_cells row") (simp_all add: select_rows_def)
    qed (simp_all add: q select_rows_def)
  qed
  then show ?thesis by (simp add: getQueryRes_def cong: option.case_cong)
qed

lemma solo_rows:
  assumes "ds_pcs s t = Test k" "k = Lookup u \<or> k = Check u pw"
    and "getQueryRes alone query fetch u (ds_pool s, ds_db s) = Inr (rows, pd)"
  shows "runs_to query fetch t s (rows_known k rows) pd"
proof -
  from assms(3) obtain con p where g: "GetConnection alone (ds_pool s) = Inr (con, p)"
    unfolding select_getQueryRes bind_res_eq_Inr_iff by fastforce
  show ?thesis
  proof (cases con)
    case None
    with g assms(3) have "rows = []" "pd = (p, ds_db s)" by (simp_all add: select_getQueryRes)
    moreover have "no_connection k = rows_known k []" using assms(2) by auto
    ultimately show ?thesis using runs_none [OF assms(1), of p query fetch] g None by metis
  next
    case (Some c)
    with g assms(3) obtain d1 where d1: "select_rows query fetch u c (ds_db s) = Inr (rows, d1)" "pd = (give_back c p, d1)"
      by (auto simp: select_getQueryRes bind_res_eq_Inr_iff)
    have "use_connection query fetch k c (ds_db s) = Inr (rows_known k rows, d1)" using assms(2) d1(1) by auto
    from runs_take [OF assms(1) _ this] g Some d1(2) show ?thesis by simp
  qed
qed

text \<open>A thread that nobody disturbs does what the sequential functions do.\<close>

lemma solo_lookup:
  assumes "ds_pcs s t = Test (Lookup u)" "getQueryRes alone query fetch u (ds_pool s, ds_db s) = Inr (rows, pd)"
  shows "runs_to query fetch t s (Returned (Lookup u) (Rows rows)) pd"
  using solo_rows [OF assms(1) _ assms(2)] by simp

lemma solo_insert:
  assumes "ds_pcs s t = Test (Check u pw)" "insertNewUser alone query fetch u pw (ds_pool s, ds_db s) = Inr (b, pd)"
  shows "\<exists>k \<in> {Check u pw, Add u pw}. runs_to query fetch t s (Returned k (Flag b)) pd"
proof -
  from assms(2) obtain rows p d where r: "getQueryRes alone query fetch u (ds_pool s, ds_db s) = Inr (rows, (p, d))"
    by (auto simp: insertNewUser_def bind_res_eq_Inr_iff)
  note run = solo_rows [OF assms(1) _ r, of pw]
  show ?thesis
  proof (cases "rows = []")
    case False
    with assms(2) r have "pd = (p, d)" "\<not> b" by (simp_all add: insertNewUser_def)
    with run False show ?thesis by simp
  next
    case True
    let ?s = "at_pc t (Test (Add u pw)) (s\<lparr>ds_db := d, ds_pool := p\<rparr>)"
    have 1: "(db_step query fetch)\<^sup>*\<^sup>* s ?s" using run True by (simp add: runs_to_def)
    from assms(2) r True obtain con p1 where g: "GetConnection alone p = Inr (con, p1)"
      unfolding insertNewUser_def by (auto simp: bind_res_eq_Inr_iff)
    have "runs_to query fetch t ?s (Returned (Add u pw) (Flag b)) pd"
    proof (cases con)
      case None
      with assms(2) r True g have "pd = (p1, d)" "\<not> b" by (simp_all add: insertNewUser_def)
      with runs_none [of ?s t "Add u pw" p1 query fetch] g None show ?thesis by simp
    next
      case (Some c)
      obtain ok d1 where q: "query c (insert_query u pw) d = (ok, d1)" by fastforce
      with assms(2) r True g Some have "pd = (give_back c p1, d1)" "b = ok" by (simp_all add: insertNewUser_def)
      with runs_take [of ?s t "Add u pw" c p1 query fetch] g Some q show ?thesis by simp
    qed
    then have "(db_step query fetch)\<^sup>*\<^sup>* ?s (at_pc t (Returned (Add u pw) (Flag b)) (s\<lparr>ds_db := snd pd, ds_pool := fst pd\<rparr>))"
      by (simp add: runs_to_def at_pc_def)
    with 1 have "runs_to query fetch t s (Returned (Add u pw) (Flag b)) pd" by (simp add: runs_to_def)
    then show ?thesis by blast
  qed
qed

section \<open>Who holds which connection\<close>

fun holder :: "'c db_pc \<Rightarrow> 'c option" where
  "holder (Hold k c) = Some c"
| "holder (Giving c pc) = Some c"
| "holder _ = None"

definition one_owner :: "'c sql_pool \<Rightarrow> (nat \<Rightarrow> 'c db_pc) \<Rightarrow> bool" where
  "one_owner p pcs \<longleftrightarrow> distinct (connList p) \<and>
     (\<forall>t c. holder (pcs t) = Some c \<longrightarrow> c \<notin> set (connList p)) \<and>
     (\<forall>t t' c. holder (pcs t) = Some c \<longrightarrow> holder (pcs t') = Some c \<longrightarrow> t = t') \<and>
     (\<forall>t c pc. pcs t = Giving c pc \<longrightarrow> holder pc = None \<and> (\<forall>c' pc'. pc \<noteq> Giving c' pc'))"

lemma holder_rows [simp]: "holder (rows_known k rows) = None" "rows_known k rows \<noteq> Giving c pc"
  by (cases k; simp)+

lemma holder_none [simp]: "holder (no_connection k) = None" "no_connection k \<noteq> Giving c pc"
  by (cases k; simp)+

lemma holder_use:
  "use_connection query fetch k c d = Inr (pc, d') \<Longrightarrow> holder pc = None \<and> (\<forall>c' pc'. pc \<noteq> Giving c' pc')"
  by (cases k) (auto simp: bind_res_eq_Inr_iff simp del: rows_known.simps split: prod.splits)

lemma one_owner_pc:
  "one_owner p pcs \<Longrightarrow> holder pc = None \<Longrightarrow> (\<And>c' pc'. pc \<noteq> Giving c' pc') \<Longrightarrow> one_owner p (pcs(t := pc))"
  by (auto simp: one_owner_def)

lemma one_owner_step:
  assumes "db_step query fetch s s'" "one_owner (ds_pool s) (ds_pcs s)"
  shows "one_owner (ds_pool s') (ds_pcs s')"
  using assms
proof (induction rule: db_step.induct)
  case (take s t k c p)
  then obtain cs where cs: "connList (ds_pool s) = c # cs" "connList p = cs"
    by (auto simp: take_conn_def split: list.splits)
  show ?case using take(4) unfolding one_owner_def by (auto simp: cs)
next
  case (use s t k c pc d)
  then have "holder (ds_pcs s t) = Some c" by simp
  with use(3) holder_use [OF use(2)] show ?case unfolding one_owner_def by auto
next
  case (release s t c pc)
  then have h: "holder (ds_pcs s t) = Some c" by simp
  have "connList (give_back c (ds_pool s)) = connList (ds_pool s) @ [c]"
    by (simp add: give_back_def ReleaseConnection_def)
  moreover have "holder pc = None" "\<And>c' pc'. pc \<noteq> Giving c' pc'" using release by (auto simp: one_owner_def)
  ultimately show ?case using release(2) h unfolding one_owner_def by auto
qed (auto intro: one_owner_pc)

section \<open>A database with a key\<close>

text \<open>
  The documented behaviour of a table whose names are a key, over connections that may fail at any time:
  a selection that succeeds gives the row of the user or none, and an insertion that succeeds adds a name
  that was not there.
\<close>

definition keyed_users :: "('c, 'd) db_query \<Rightarrow> ('c, 'd) db_fetch \<Rightarrow> ('d \<Rightarrow> string \<rightharpoonup> string) \<Rightarrow> bool" where
  "keyed_users query fetch users \<longleftrightarrow>
     (\<forall>c d u. sql_plain u \<longrightarrow> (\<exists>ok d1. query c (select_query u) d = (ok, d1) \<and> users d1 = users d \<and>
        (ok \<longrightarrow> (\<exists>id. fetch c d1 = map_option (\<lambda>pw. [Some id, Some u, Some pw]) (users d u))))) \<and>
     (\<forall>c d u pw. sql_plain u \<longrightarrow> sql_plain pw \<longrightarrow> (\<exists>ok d1. query c (insert_query u pw) d = (ok, d1) \<and>
        users d1 = (if ok then (users d)(u \<mapsto> pw) else users d) \<and> (ok \<longrightarrow> users d u = None)))"

text \<open>What an answer says about the table.\<close>

fun truthful :: "(string \<rightharpoonup> string) \<Rightarrow> db_call \<Rightarrow> db_answer \<Rightarrow> bool" where
  "truthful m (Lookup u) (Rows rows) = (rows \<noteq> [] \<longrightarrow> (\<exists>id pw. rows = [id, u, pw] \<and> m u = Some pw))"
| "truthful m (Check u pw) (Flag b) = (\<not> b \<and> m u \<noteq> None)"
| "truthful m (Add u pw) (Flag b) = (b \<longrightarrow> m u = Some pw)"
| "truthful m _ _ = False"

fun answer_ok :: "(string \<rightharpoonup> string) \<Rightarrow> 'c db_pc \<Rightarrow> bool" where
  "answer_ok m (Returned k r) = truthful m k r"
| "answer_ok m (Giving c pc) = answer_ok m pc"
| "answer_ok m (Test k) = plain_call k"
| "answer_ok m (Wait k) = plain_call k"
| "answer_ok m (Hold k c) = plain_call k"
| "answer_ok m Idle = True"

lemma truthful_mono: "m \<subseteq>\<^sub>m m' \<Longrightarrow> truthful m k r \<Longrightarrow> truthful m' k r"
  by (induction m k r rule: truthful.induct) (auto simp: map_le_def dom_def)

lemma answer_ok_mono: "m \<subseteq>\<^sub>m m' \<Longrightarrow> answer_ok m pc \<Longrightarrow> answer_ok m' pc"
  by (induction pc) (auto intro: truthful_mono)

lemma answer_none: "plain_call k \<Longrightarrow> answer_ok m (no_connection k)"
  by (cases k) auto

lemma select_rows_keyed:
  assumes "keyed_users query fetch users" "sql_plain u" "select_rows query fetch u c d = Inr (rows, d')"
  shows "users d' = users d \<and> (rows \<noteq> [] \<longrightarrow> (\<exists>id pw. rows = [id, u, pw] \<and> users d u = Some pw))"
proof -
  obtain ok d1 where q: "query c (select_query u) d = (ok, d1)" "users d1 = users d"
      "ok \<longrightarrow> (\<exists>id. fetch c d1 = map_option (\<lambda>pw. [Some id, Some u, Some pw]) (users d u))"
    using assms(1,2) unfolding keyed_users_def by blast
  with assms(3) show ?thesis by (cases "users d u") (auto simp: select_rows_def split: if_splits)
qed

lemma use_connection_keyed:
  assumes K: "keyed_users query fetch users" and "plain_call k" "use_connection query fetch k c d = Inr (pc, d')"
  shows "users d \<subseteq>\<^sub>m users d' \<and> answer_ok (users d') pc"
proof (cases k)
  case (Lookup u)
  with assms(2,3) obtain rows where "select_rows query fetch u c d = Inr (rows, d')" "pc = rows_known k rows"
    by (auto simp: bind_res_eq_Inr_iff)
  with select_rows_keyed [OF K _ this(1)] assms(2) Lookup show ?thesis by simp
next
  case (Check u pw)
  with assms(2,3) obtain rows where "select_rows query fetch u c d = Inr (rows, d')" "pc = rows_known k rows"
    by (auto simp: bind_res_eq_Inr_iff)
  with select_rows_keyed [OF K _ this(1)] assms(2) Check show ?thesis by auto
next
  case (Add u pw)
  with assms(2) obtain ok d1 where q: "query c (insert_query u pw) d = (ok, d1)"
      "users d1 = (if ok then (users d)(u \<mapsto> pw) else users d)" "ok \<longrightarrow> users d u = None"
    using K unfolding keyed_users_def by (metis plain_call.simps(3))
  with assms(3) Add show ?thesis by (auto simp: map_le_def)
qed

lemma db_step_answers:
  assumes "keyed_users query fetch users" "db_step query fetch s s'" "\<forall>t. answer_ok (users (ds_db s)) (ds_pcs s t)"
  shows "users (ds_db s) \<subseteq>\<^sub>m users (ds_db s') \<and> (\<forall>t. answer_ok (users (ds_db s')) (ds_pcs s' t))"
  using assms(2,3)
proof (induction rule: db_step.induct)
  case (use s t k c pc d)
  from use(1,3) have "plain_call k" by (metis answer_ok.simps(5))
  from use_connection_keyed [OF assms(1) this use(2)] use(3) answer_ok_mono show ?case by fastforce
next
  case (test s t k)
  from test(1,2) have "plain_call k" by (metis answer_ok.simps(3))
  with test(2) show ?case by (auto simp: answer_none)
next
  case (timeout s t k)
  from timeout(1,2) have "plain_call k" by (metis answer_ok.simps(4))
  with timeout(2) show ?case by (auto simp: answer_none)
next
  case (take s t k c p)
  from take(1,4) have "plain_call k" by (metis answer_ok.simps(4))
  with take(4) show ?case by auto
next
  case (release s t c pc)
  from release(1,2) have "answer_ok (users (ds_db s)) pc" by (metis answer_ok.simps(2))
  with release(2) show ?case by auto
qed auto

lemma db_steps_answers:
  assumes "keyed_users query fetch users" "(db_step query fetch)\<^sup>*\<^sup>* s s'" "\<forall>t. answer_ok (users (ds_db s)) (ds_pcs s t)"
  shows "users (ds_db s) \<subseteq>\<^sub>m users (ds_db s') \<and> (\<forall>t. answer_ok (users (ds_db s')) (ds_pcs s' t))"
  using assms(2)
proof (induction rule: rtranclp_induct)
  case (step y z)
  with db_step_answers [OF assms(1) step(2)] show ?case by (blast intro: map_le_trans)
qed (use assms(3) in simp)

lemma one_owner_steps:
  assumes "(db_step query fetch)\<^sup>*\<^sup>* s s'" "one_owner (ds_pool s) (ds_pcs s)"
  shows "one_owner (ds_pool s') (ds_pcs s')"
  using assms by (induction rule: rtranclp_induct) (auto intro: one_owner_step)

text \<open>A registered name is not registered again.\<close>

lemma add_again:
  assumes "keyed_users query fetch users" "sql_plain u" "sql_plain pw" "users d u \<noteq> None"
    "use_connection query fetch (Add u pw) c d = Inr (pc, d')"
  shows "pc = Returned (Add u pw) (Flag False) \<and> users d' = users d"
proof -
  from assms(1-3) obtain ok d1 where "query c (insert_query u pw) d = (ok, d1)"
      "users d1 = (if ok then (users d)(u \<mapsto> pw) else users d)" "ok \<longrightarrow> users d u = None"
    unfolding keyed_users_def by metis
  with assms(4,5) show ?thesis by auto
qed

definition idle_threads :: "'c sql_pool \<Rightarrow> 'd \<Rightarrow> ('c, 'd) db_sys" where
  "idle_threads p d = \<lparr>ds_pool = p, ds_db = d, ds_pcs = (\<lambda>_. Idle)\<rparr>"

section \<open>Properties\<close>


text \<open>The small database with a key.\<close>

definition keyed_query :: "(nat, (string \<rightharpoonup> string) \<times> string option list option) db_query" where
  "keyed_query c q d =
     (case find_char quote q of
        None \<Rightarrow> (False, d)
      | Some (h, rest) \<Rightarrow>
          (case find_char quote rest of
             None \<Rightarrow> (False, d)
           | Some (u, rest2) \<Rightarrow>
               if h \<noteq> ''select * from userdata WHERE username='' \<and> fst d u \<noteq> None then (False, d) else small_query c q d))"

lemma keyed_query_laws:
  "keyed_users keyed_query (\<lambda>c d. snd d) fst" "holds_users keyed_query (\<lambda>c d. snd d) fst"
  by (auto simp: keyed_users_def holds_users_def keyed_query_def sql_plain_def small_query_def select_query_def insert_query_def)


section \<open>Without a key\<close>

text \<open>One connection that is taken and given back leaves the pool as it was.\<close>

lemma single_connection:
  assumes "pcs t = Test k" "use_connection query fetch k c d = Inr (pc, d')" "connList p = [c]" "m_FreeConn p = 1"
  shows "(db_step query fetch)\<^sup>*\<^sup>* \<lparr>ds_pool = p, ds_db = d, ds_pcs = pcs\<rparr> \<lparr>ds_pool = p, ds_db = d', ds_pcs = pcs(t := pc)\<rparr>"
proof -
  let ?s = "\<lparr>ds_pool = p, ds_db = d, ds_pcs = pcs\<rparr>"
  let ?p1 = "p\<lparr>connList := [], m_FreeConn := 0, m_CurConn := m_CurConn p + 1\<rparr>"
  have g: "GetConnection alone (ds_pool ?s) = Inr (Some c, ?p1)"
    using assms(3,4) by (simp add: GetConnection_def alone_def GetFreeConn_def take_conn_def)
  have "give_back c ?p1 = p" using assms(3,4) by (cases p) (simp add: give_back_def ReleaseConnection_def)
  with runs_take [of ?s t k c ?p1 query fetch pc d'] g assms(1,2) show ?thesis by (simp add: runs_to_def at_pc_def)
qed

text \<open>If the table has no key, so that inserting a name again replaces the account, checking and inserting
  in two separate queries lets two threads register the same name: both are told that they succeeded, and
  the password of the first is lost.\<close>

theorem double_registration:
  "\<exists>s :: (nat, (string \<rightharpoonup> string) \<times> string option list option) db_sys.
     (db_step small_query (\<lambda>c d. snd d))\<^sup>*\<^sup>*
       (idle_threads ((new_sql_pool 1 0)\<lparr>connList := [7], m_FreeConn := 1\<rparr>) (Map.empty, None)) s \<and>
     ds_pcs s 1 = Returned (Add ''alice'' ''mine'') (Flag True) \<and> ds_pcs s 2 = Returned (Add ''alice'' ''other'') (Flag True) \<and>
     fst (ds_db s) = [''alice'' \<mapsto> ''other'']"
proof -
  let ?p = "(new_sql_pool 1 0)\<lparr>connList := [7 :: nat], m_FreeConn := 1\<rparr>" and ?fetch = "\<lambda>c :: nat. snd"
  let ?step = "db_step small_query ?fetch"
  let ?S = "\<lambda>d pcs. \<lparr>ds_pool = ?p, ds_db = d, ds_pcs = pcs\<rparr>"
  let ?c1 = "Check ''alice'' ''mine''" and ?c2 = "Check ''alice'' ''other''" and ?a1 = "Add ''alice'' ''mine''" and ?a2 = "Add ''alice'' ''other''"
  let ?none = "(Map.empty, None) :: (string \<rightharpoonup> string) \<times> string option list option"
  have start: "?step (?S d pcs) (?S d (pcs(t := Test k)))" if "pcs t = Idle" "k = ?c1 \<or> k = ?c2" for t d pcs k
    using db_step.call [of "?S d pcs" t k small_query ?fetch] that by (auto simp: at_pc_def sql_plain_def)
  have segment: "?step\<^sup>*\<^sup>* (?S d pcs) (?S d' (pcs(t := pc)))"
    if "pcs t = Test k" "use_connection small_query ?fetch k 7 d = Inr (pc, d')" for t k d d' pc pcs
    using single_connection [of pcs t k small_query ?fetch 7 d pc d' ?p] that by simp
  have sel: "use_connection small_query ?fetch ?c1 7 ?none = Inr (Test ?a1, ?none)"
      "use_connection small_query ?fetch ?c2 7 ?none = Inr (Test ?a2, ?none)"
    by (simp_all add: select_rows_def small_query_def select_query_def)
  have ins: "use_connection small_query ?fetch ?a1 7 ?none = Inr (Returned ?a1 (Flag True), ([''alice'' \<mapsto> ''mine''], None))"
      "use_connection small_query ?fetch ?a2 7 ([''alice'' \<mapsto> ''mine''], None) =
        Inr (Returned ?a2 (Flag True), ([''alice'' \<mapsto> ''other''], None))"
    by (simp_all add: small_query_def insert_query_def)
  let ?q0 = "\<lambda>_ :: nat. Idle :: nat db_pc"
  let ?q1 = "?q0(1 := Test ?c1, 2 := Test ?c2)"
  have r1: "?step\<^sup>*\<^sup>* (?S ?none ?q0) (?S ?none ?q1)"
    using start [of ?q0 1 ?c1 ?none] start [of "?q0(1 := Test ?c1)" 2 ?c2 ?none] by simp
  have r2: "?step\<^sup>*\<^sup>* (?S ?none ?q1) (?S ?none (?q1(1 := Test ?a1)))" by (rule segment [OF _ sel(1)]) simp
  have r3: "?step\<^sup>*\<^sup>* (?S ?none (?q1(1 := Test ?a1))) (?S ?none (?q1(1 := Test ?a1, 2 := Test ?a2)))"
    by (rule segment [OF _ sel(2)]) simp
  have r4: "?step\<^sup>*\<^sup>* (?S ?none (?q1(1 := Test ?a1, 2 := Test ?a2)))
      (?S ([''alice'' \<mapsto> ''mine''], None) (?q1(1 := Test ?a1, 2 := Test ?a2, 1 := Returned ?a1 (Flag True))))"
    by (rule segment [OF _ ins(1)]) simp
  have r5: "?step\<^sup>*\<^sup>* (?S ([''alice'' \<mapsto> ''mine''], None) (?q1(1 := Test ?a1, 2 := Test ?a2, 1 := Returned ?a1 (Flag True))))
      (?S ([''alice'' \<mapsto> ''other''], None) (?q1(1 := Test ?a1, 2 := Test ?a2, 1 := Returned ?a1 (Flag True), 2 := Returned ?a2 (Flag True))))"
    by (rule segment [OF _ ins(2)]) simp
  note run = rtranclp_trans [OF rtranclp_trans [OF rtranclp_trans [OF rtranclp_trans [OF r1 r2] r3] r4] r5]
  show ?thesis unfolding idle_threads_def by (intro exI conjI) (rule run, simp_all)
qed

end
