(* ===== verification/WebApp.thy ===== *)
theory WebApp
  imports HttpServer SqlOperation
begin

text \<open>
  \<open>example/test.cpp\<close>: the callback of the web site, which serves files and handles the two forms.
  The file system is an argument: for a name, nothing, a file that can be mapped, or an entry of some
  size that cannot (a directory, or a file without read permission). The database and the pool are the
  arguments of \<open>SqlOperation\<close>.
\<close>

section \<open>Files\<close>

datatype file_entry = Mappable string | Unmappable nat

type_synonym file_system = "string \<Rightarrow> file_entry option"

text \<open>
  A failed \<open>mmap\<close> is only logged: the body is then built from the address of \<open>MAP_FAILED\<close>, which reads
  outside every object unless the size is 0.
\<close>

definition fileToString :: "file_system \<Rightarrow> string \<Rightarrow> http_response \<Rightarrow> http_response res" where
  "fileToString fs filename resp =
     (case fs filename of
        None \<Rightarrow> Inr (setCloseConnection (setStatusMessage (setStatusCode resp k404NotFound) ''Not Found'') True)
      | Some entry \<Rightarrow>
          let resp1 = setStatusMessage (setStatusCode resp k200Ok) ''OK''
          in (case entry of
                Mappable s \<Rightarrow> Inr (setResponseBody resp1 s)
              | Unmappable st_size \<Rightarrow> if st_size = 0 then Inr (setResponseBody resp1 []) else Inl OutOfBounds))"

text \<open>A path may hold a NUL, where \<open>c_str\<close> ends.\<close>

definition c_str :: "string \<Rightarrow> string" where
  "c_str s = takeWhile (\<lambda>c. c \<noteq> NUL) s"

section \<open>Forms\<close>

text \<open>The regular expression \<open>^[0-9a-zA-Z_]{5,16}$\<close>.\<close>

definition word_char :: "char \<Rightarrow> bool" where
  "word_char c \<longleftrightarrow> (let n = of_char c :: nat in
     48 \<le> n \<and> n \<le> 57 \<or> 97 \<le> n \<and> n \<le> 122 \<or> 65 \<le> n \<and> n \<le> 90 \<or> n = 95)"

definition validateString :: "string \<Rightarrow> bool" where
  "validateString s \<longleftrightarrow> list_all word_char s \<and> 5 \<le> length s \<and> length s \<le> 16"

text \<open>
  \<open>std::string::find\<close> gives a \<open>size_t\<close>, which the code keeps in an \<open>int\<close> and converts back when it
  compares it with \<open>npos\<close> and when it passes it on.
\<close>

definition npos :: nat where "npos = 2 ^ 64 - 1"

definition string_find :: "char \<Rightarrow> nat \<Rightarrow> string \<Rightarrow> nat" where
  "string_find c pos s =
     (case find_char c (drop pos s) of None \<Rightarrow> npos | Some (a, _) \<Rightarrow> pos + length a)"

definition as_int :: "nat \<Rightarrow> int" where
  "as_int n = (int n + 2 ^ 31) mod 2 ^ 32 - 2 ^ 31"

definition as_size :: "int \<Rightarrow> nat" where
  "as_size i = nat (i mod 2 ^ 64)"

definition substr :: "string \<Rightarrow> nat \<Rightarrow> nat \<Rightarrow> string res" where
  "substr s pos n = (if length s < pos then Inl OutOfRange else Inr (take n (drop pos s)))"

definition vector_at :: "string list \<Rightarrow> nat \<Rightarrow> string res" where
  "vector_at v i = (if i < length v then Inr (v ! i) else Inl OutOfBounds)"

text \<open>The part that the two forms share: nothing when a position is \<open>npos\<close>, else name and password.\<close>

definition form_fields :: "string \<Rightarrow> (string \<times> string) option res" where
  "form_fields body =
     (let namestart = as_int (string_find (CHR ''='') 0 body);
          nameend = as_int (string_find (CHR ''&'') 0 body);
          passwdstart = as_int (string_find (CHR ''='') (as_size nameend) body)
      in if as_size namestart = npos \<or> as_size nameend = npos \<or> as_size passwdstart = npos
         then Inr None
         else
           bind_res (substr body (as_size (namestart + 1)) (as_size (nameend - namestart - 1))) (\<lambda>username.
           bind_res (substr body (as_size (passwdstart + 1)) (as_size (int (length body) - passwdstart - 1))) (\<lambda>userpasswd.
           Inr (Some (username, userpasswd)))))"

definition login_ok :: "string \<Rightarrow> string \<Rightarrow> string list \<Rightarrow> bool res" where
  "login_ok username userpasswd query_res =
     (if validateString username \<and> validateString userpasswd \<and> 0 < length query_res
      then
        bind_res (vector_at query_res 1) (\<lambda>name.
          if username = name
          then bind_res (vector_at query_res 2) (\<lambda>pw. Inr (userpasswd = pw))
          else Inr False)
      else Inr False)"

section \<open>The callback\<close>

definition web_file :: "string \<Rightarrow> string" where
  "web_file path =
     (if path = ''/'' then ''../root/login.html''
      else if string_find (CHR ''.'') 0 path = npos then ''../root'' @ path @ ''.html''
      else ''../root'' @ path)"

definition handle_login ::
    "file_system \<Rightarrow> ('c sql_pool \<Rightarrow> bool \<times> 'c sql_pool) \<Rightarrow> ('c, 'd) db_query \<Rightarrow> ('c, 'd) db_fetch \<Rightarrow> string \<Rightarrow>
      http_response \<Rightarrow> ('c, 'd) sql_state \<Rightarrow> (http_response \<times> ('c, 'd) sql_state) res" where
  "handle_login fs wait query fetch body resp s =
     bind_res (form_fields body) (\<lambda>fields.
       case fields of
         None \<Rightarrow> bind_res (fileToString fs ''../root/loginfail.html'' resp) (\<lambda>r. Inr (r, s))
       | Some (username, userpasswd) \<Rightarrow>
           bind_res (getQueryRes wait query fetch username s) (\<lambda>(query_res, s1).
           bind_res (login_ok username userpasswd query_res) (\<lambda>ok.
           bind_res (fileToString fs (if ok then ''../root/index.html'' else ''../root/loginfail.html'') resp) (\<lambda>r.
           Inr (r, s1)))))"

definition handle_register ::
    "file_system \<Rightarrow> ('c sql_pool \<Rightarrow> bool \<times> 'c sql_pool) \<Rightarrow> ('c, 'd) db_query \<Rightarrow> ('c, 'd) db_fetch \<Rightarrow> string \<Rightarrow>
      http_response \<Rightarrow> ('c, 'd) sql_state \<Rightarrow> (http_response \<times> ('c, 'd) sql_state) res" where
  "handle_register fs wait query fetch body resp s =
     bind_res (form_fields body) (\<lambda>fields.
       case fields of
         None \<Rightarrow> bind_res (fileToString fs ''../root/loginfailuser404.html'' resp) (\<lambda>r. Inr (r, s))
       | Some (username, userpasswd) \<Rightarrow>
           if validateString username \<and> validateString userpasswd
           then
             bind_res (insertNewUser wait query fetch username userpasswd s) (\<lambda>(inserted, s1).
             bind_res (fileToString fs
                 (if inserted then ''../root/registersucceed.html'' else ''../root/registerfail.html'') resp) (\<lambda>r.
             Inr (r, s1)))
           else bind_res (fileToString fs ''../root/registerfail.html'' resp) (\<lambda>r. Inr (r, s)))"

definition web_onRequest ::
    "file_system \<Rightarrow> ('c sql_pool \<Rightarrow> bool \<times> 'c sql_pool) \<Rightarrow> ('c, 'd) db_query \<Rightarrow> ('c, 'd) db_fetch \<Rightarrow>
      http_request \<Rightarrow> http_response \<Rightarrow> ('c, 'd) sql_state \<Rightarrow> (http_response \<times> ('c, 'd) sql_state) res" where
  "web_onRequest fs wait query fetch req resp s =
     (if req_method req = kGet
      then bind_res (fileToString fs (c_str (web_file (req_path req))) resp) (\<lambda>r. Inr (r, s))
      else if req_method req = kPost
      then
        if req_path req = ''/login'' then handle_login fs wait query fetch (req_body req) resp s
        else if req_path req = ''/register'' then handle_register fs wait query fetch (req_body req) resp s
        else Inr (resp, s)
      else Inr (setCloseConnection (setStatusMessage (setStatusCode resp k404NotFound) ''Not Found'') True, s))"

text \<open>The callback as the HTTP server sees it, in a given state of the pool and the database.\<close>

definition web_callback ::
    "file_system \<Rightarrow> ('c sql_pool \<Rightarrow> bool \<times> 'c sql_pool) \<Rightarrow> ('c, 'd) db_query \<Rightarrow> ('c, 'd) db_fetch \<Rightarrow>
      ('c, 'd) sql_state \<Rightarrow> http_callback" where
  "web_callback fs wait query fetch s req resp =
     bind_res (web_onRequest fs wait query fetch req resp s) (\<lambda>(r, s1). Inr r)"

section \<open>Reading a form\<close>

lemma drop_append_length: "drop (length xs) (xs @ ys) = ys"
  by simp

lemma as_int_small: "n < 2 ^ 31 \<Longrightarrow> as_int n = int n"
  by (simp add: as_int_def)

lemma as_int_npos [simp]: "as_int npos = -1" "as_size (-1) = npos"
  by (simp_all add: as_int_def as_size_def npos_def)

lemma as_size_small: "0 \<le> i \<Longrightarrow> i < 2 ^ 31 \<Longrightarrow> as_size i = nat i"
  by (simp add: as_size_def)

lemma npos_large: "n < 2 ^ 31 \<Longrightarrow> n \<noteq> npos"
  by (simp add: npos_def)

lemma string_find_at: "c \<notin> set a \<Longrightarrow> pos = length p \<Longrightarrow> string_find c pos (p @ a @ c # b) = pos + length a"
  by (simp add: string_find_def)

lemma string_find_none: "c \<notin> set s \<Longrightarrow> string_find c pos s = npos"
proof -
  assume "c \<notin> set s"
  then have "c \<notin> set (drop pos s)" using set_drop_subset by fastforce
  then show ?thesis by (simp add: string_find_def)
qed

definition login_form :: "string \<Rightarrow> string \<Rightarrow> string \<Rightarrow> string \<Rightarrow> string" where
  "login_form k1 name k2 pw = k1 @ CHR ''='' # name @ CHR ''&'' # k2 @ CHR ''='' # pw"

lemma form_fields_login_form:
  assumes "CHR ''='' \<notin> set k1" "CHR ''&'' \<notin> set k1" "CHR ''&'' \<notin> set name" "CHR ''='' \<notin> set k2"
    "length (login_form k1 name k2 pw) < 2 ^ 31"
  shows "form_fields (login_form k1 name k2 pw) = Inr (Some (name, pw))"
proof -
  let ?b = "login_form k1 name k2 pw"
  let ?e = "length k1 + 1 + length name"
  have f1: "string_find (CHR ''='') 0 ?b = length k1"
    using string_find_at [of "CHR ''=''" k1 0 "[]"] assms(1) by (simp add: login_form_def)
  have "?b = [] @ (k1 @ CHR ''='' # name) @ CHR ''&'' # k2 @ CHR ''='' # pw" by (simp add: login_form_def)
  then have f2: "string_find (CHR ''&'') 0 ?b = ?e"
    using string_find_at [of "CHR ''&''" "k1 @ CHR ''='' # name" 0 "[]"] assms(2,3) by simp
  have "?b = (k1 @ CHR ''='' # name) @ (CHR ''&'' # k2) @ CHR ''='' # pw" by (simp add: login_form_def)
  then have f3: "string_find (CHR ''='') ?e ?b = ?e + 1 + length k2"
    using string_find_at [of "CHR ''=''" "CHR ''&'' # k2" ?e "k1 @ CHR ''='' # name"] assms(4) by simp
  have len: "length ?b = ?e + 2 + length k2 + length pw" by (simp add: login_form_def)
  have small: "length k1 < 2 ^ 31" "?e < 2 ^ 31" "?e + 1 + length k2 < 2 ^ 31" using assms(5) len by linarith+
  have ints: "as_int (length k1) = int (length k1)" "as_int ?e = int ?e"
      "as_int (?e + 1 + length k2) = int (?e + 1 + length k2)"
    by (rule as_int_small [OF small(1)], rule as_int_small [OF small(2)], rule as_int_small [OF small(3)])
  have size: "as_size (int n) = n" if "n < 2 ^ 31" for n using that by (simp add: as_size_small)
  have diff: "int ?e - int (length k1) - 1 = int (length name)"
      "int (length ?b) - int (?e + 1 + length k2) - 1 = int (length pw)"
    using len by simp_all
  have s1: "as_size (int (length k1) + 1) = Suc (length k1)" using size [of "Suc (length k1)"] small by (simp add: algebra_simps)
  have s2: "as_size (int (?e + 1 + length k2) + 1) = ?e + 2 + length k2"
    using size [of "?e + 2 + length k2"] assms(5) len by (simp add: algebra_simps)
  have s3: "as_size (int (length name)) = length name" "as_size (int (length pw)) = length pw"
    using assms(5) len by (auto intro!: size)
  have u: "substr ?b (Suc (length k1)) (length name) = Inr name"
    by (simp add: substr_def login_form_def)
  have p: "substr ?b (?e + 2 + length k2) (length pw) = Inr pw"
  proof -
    let ?h = "k1 @ CHR ''='' # name @ CHR ''&'' # k2 @ [CHR ''='']"
    have h: "?b = ?h @ pw" "?e + 2 + length k2 = length ?h" by (simp_all add: login_form_def)
    have "drop (length ?h) (?h @ pw) = pw" by (rule drop_append_length)
    then show ?thesis unfolding h substr_def by simp
  qed
  show ?thesis
    unfolding form_fields_def Let_def f1 f2 ints size [OF small(1)] size [OF small(2)] f3 size [OF small(3)]
      diff s1 s2 s3 u p
    using npos_large [OF small(1)] npos_large [OF small(2)] npos_large [OF small(3)] by simp
qed

lemma word_char_plain: "word_char c \<Longrightarrow> c \<noteq> quote \<and> c \<noteq> CHR 0x5C"
  by (auto simp: word_char_def)

lemma validateString_plain: "validateString s \<Longrightarrow> sql_plain s"
  using word_char_plain by (fastforce simp: validateString_def sql_plain_def list_all_iff)


text \<open>The file of a path.\<close>

lemma string_find_npos_iff: "length s < 2 ^ 31 \<Longrightarrow> string_find c 0 s = npos \<longleftrightarrow> c \<notin> set s"
proof
  assume len: "length s < 2 ^ 31" and f: "string_find c 0 s = npos"
  show "c \<notin> set s"
  proof
    assume "c \<in> set s"
    then obtain a b where ab: "s = a @ c # b" "c \<notin> set a" by (meson split_list_first)
    then have "string_find c 0 s = length a" by (simp add: string_find_def)
    moreover have "length a < 2 ^ 31" using ab(1) len by simp
    ultimately show False using f npos_large by metis
  qed
qed (rule string_find_none)

lemma web_file_eq:
  "length path < 2 ^ 31 \<Longrightarrow> web_file path =
     (if path = ''/'' then ''../root/login.html''
      else ''../root'' @ path @ (if CHR ''.'' \<in> set path then [] else ''.html''))"
  by (simp add: web_file_def string_find_npos_iff)

section \<open>Properties\<close>

lemma login_ok_row: "login_ok u pw [i, u', w] = Inr (validateString u \<and> validateString pw \<and> u = u' \<and> pw = w)"
  by (auto simp: login_ok_def vector_at_def)



text \<open>The login form reaches the database unchecked: whatever name the form carries, also one that
  \<open>validateString\<close> rejects, its characters are sent to the database inside the text of the query as
  they are, before the check; quotes are not escaped.\<close>

theorem login_query_unvalidated:
  assumes "CHR ''&'' \<notin> set name" "length (login_form ''u'' name ''p'' pw) < 2 ^ 31"
    "req_method req = kPost" "req_path req = ''/login''" "req_body req = login_form ''u'' name ''p'' pw"
    "pool_ok p" "connList p \<noteq> []" "fs ''../root/loginfail.html'' = Some (Mappable page)"
  shows "\<exists>r p'. web_onRequest fs alone (\<lambda>c q d. (True, d @ [q])) (\<lambda>c d. None) req resp (p, sent) =
    Inr (r, (p', sent @ [''select * from userdata WHERE username='' @ quote # name @ quote # '';'']))"
proof -
  have "form_fields (login_form ''u'' name ''p'' pw) = Inr (Some (name, pw))"
    by (rule form_fields_login_form) (use assms(1,2) in simp_all)
  moreover obtain c p' where "GetConnection alone p = Inr (Some c, p')"
    using take_first [OF assms(6,7)] by blast
  ultimately show ?thesis using assms(3-5,8)
    by (simp add: web_onRequest_def handle_login_def getQueryRes_def login_ok_def fileToString_def select_query_def)
qed

theorem login_query_unvalidated_witness:
  "\<exists>r p' q. \<not> validateString (quote # '' OR 1=1 -- '') \<and>
    web_onRequest (\<lambda>f. Some (Mappable f)) alone (\<lambda>c q d. (True, d @ [q])) (\<lambda>c d. None)
      (new_request\<lparr>req_method := kPost, req_path := ''/login'', req_body := login_form ''u'' (quote # '' OR 1=1 -- '') ''p'' ''x''\<rparr>)
      (new_response False) ((new_sql_pool 1 0)\<lparr>connList := [7 :: nat], m_FreeConn := 1\<rparr>, []) = Inr (r, (p', [q])) \<and>
    q = ''select * from userdata WHERE username='' @ quote # quote # '' OR 1=1 -- '' @ quote # '';''"
proof -
  let ?p = "(new_sql_pool 1 0)\<lparr>connList := [7 :: nat], m_FreeConn := 1\<rparr>"
  let ?n = "quote # '' OR 1=1 -- ''"
  let ?req = "new_request\<lparr>req_method := kPost, req_path := ''/login'', req_body := login_form ''u'' ?n ''p'' ''x''\<rparr>"
  have a: "CHR ''&'' \<notin> set ?n" "length (login_form ''u'' ?n ''p'' ''x'') < 2 ^ 31" by (simp_all add: login_form_def)
  have r: "req_method ?req = kPost" "req_path ?req = ''/login''" "req_body ?req = login_form ''u'' ?n ''p'' ''x''" by simp_all
  have p: "pool_ok ?p" "connList ?p \<noteq> []" by (simp_all add: pool_ok_def)
  have v: "\<not> validateString ?n" by (simp add: validateString_def word_char_def)
  from login_query_unvalidated [where fs = "\<lambda>f. Some (Mappable f)", OF a r p refl, of "new_response False" "[]"] v
  show ?thesis by auto
qed



text \<open>A request can crash the server: when the path of a GET request names an entry that exists but
  cannot be mapped and is not empty, for example a directory or a file without read permission, the
  failed mapping is only logged and the body is read from an invalid address.\<close>

theorem unmappable_file_crashes:
  assumes "conn_inv c" "cn_context c = Some new_context"
    and "msg_ok m" "m_method m = kGet" "content (cn_input c) = msg_text m @ after"
    and "fs (c_str (web_file (m_path m))) = Some (Unmappable n)" "0 < n"
  shows "onMessage (web_callback fs wait query fetch st) t c = Inl OutOfBounds"
proof -
  have bi: "buf_inv (cn_input c)" using assms(1) unfolding conn_inv_def by blast
  have "parse_spec new_context t (content (cn_input c)) = Inr (True, request_context (msg_request t m), after)"
    using parse_msg [OF assms(3)] assms(5) by simp
  then obtain b where b: "parseRequest new_context (cn_input c) t = Some (Inr (True, request_context (msg_request t m), b))"
    using parseRequest_refines [OF bi, of new_context t] by (auto simp: gotAll_def new_context_def)
  have "web_callback fs wait query fetch st (msg_request t m) rsp = Inl OutOfBounds" for rsp
    using assms(4,6,7) by (simp add: web_callback_def web_onRequest_def msg_request_def parsed_request_def fileToString_def)
  with b assms(2) show ?thesis by (simp add: onMessage_def onRequest_def gotAll_def request_context_def)
qed

theorem unmappable_file_crashes_witness:
  "onMessage (web_callback (\<lambda>f. if f = ''../root/.'' then Some (Unmappable 4096) else None) alone
     small_query (\<lambda>c d. snd d) (new_sql_pool 0 0, (Map.empty, None))) 3
     (sample_http (msg_text (sample_msg\<lparr>m_path := ''/.''\<rparr>)) []) = Inl OutOfBounds"
proof -
  let ?m = "sample_msg\<lparr>m_path := ''/.''\<rparr>"
  have ok: "msg_ok ?m" "m_method ?m = kGet"
    by (simp_all add: sample_msg_def msg_ok_def wf_request_def wf_line_def)
  have i: "content (cn_input (sample_http (msg_text ?m) [])) = msg_text ?m @ []" by simp
  let ?fs = "\<lambda>f. if f = ''../root/.'' then Some (Unmappable 4096) else None"
  have f: "?fs (c_str (web_file (m_path ?m))) = Some (Unmappable 4096)"
    by (simp add: web_file_def string_find_def npos_def c_str_def)
  show ?thesis
    by (rule unmappable_file_crashes [where fs = ?fs, OF sample_http_simps(1,4) ok i f]) simp
qed

text \<open>A POST to any path but the two forms gets no answer of the application: the response stays as it
  was created, so what the client receives on a kept connection is a response with the status 0 and no
  reason.\<close>

theorem post_elsewhere_status_zero:
  assumes "conn_inv c" "connected c" "cn_context c = Some new_context" "\<not> close_wanted (msg_request t m)"
    and "msg_ok m" "m_method m = kPost" "content (cn_input c) = msg_text m @ after"
    and "m_path m \<notin> {''/login'', ''/register''}"
  shows "\<exists>c' page. onMessage (web_callback fs wait query fetch st) t c = Inr c' \<and>
    page = ''HTTP/1.1 0 '' @ crlf @ ''Content-Length: 0'' @ crlf @ ''Connection: Keep-Alive'' @ crlf @ crlf \<and>
    stream c' = stream c @ (if peer_gone page c then [] else page)"
proof -
  have cb: "web_callback fs wait query fetch st (msg_request t m) (new_response (close_wanted (msg_request t m))) =
      Inr (new_response False)"
    using assms(4,6,8) by (simp add: web_callback_def web_onRequest_def msg_request_def parsed_request_def)
  have sp: "parse_spec new_context t (content (cn_input c)) = Inr (True, request_context (msg_request t m), after)"
    using parse_msg [OF assms(5)] assms(7) by simp
  have "dec 0 = ''0''" by code_simp
  then have r: "render (new_response False) =
      ''HTTP/1.1 0 '' @ crlf @ ''Content-Length: 0'' @ crlf @ ''Connection: Keep-Alive'' @ crlf @ crlf"
    by (simp add: render_def head_lines_def status_line_def connection_lines_def new_response_def)
  show ?thesis
    using onMessage_request [where cb = "web_callback fs wait query fetch st", OF assms(1) _ assms(3) sp cb empty_response_fits] assms(2)
    unfolding r by (auto simp: connected_def)
qed

theorem post_elsewhere_status_zero_witness:
  "\<exists>c'. onMessage (web_callback (\<lambda>f. None) alone small_query (\<lambda>c d. snd d) (new_sql_pool 0 0, (Map.empty, None))) 3
      (sample_http (msg_text (sample_msg\<lparr>m_method := kPost, m_path := ''/x'', m_headers := [(''Content-Length'', dec 0)]\<rparr>)) [WriteOk 100]) = Inr c' \<and>
    stream c' = ''HTTP/1.1 0 '' @ crlf @ ''Content-Length: 0'' @ crlf @ ''Connection: Keep-Alive'' @ crlf @ crlf"
proof -
  let ?m = "sample_msg\<lparr>m_method := kPost, m_path := ''/x'', m_headers := [(''Content-Length'', dec 0)]\<rparr>"
  let ?c = "sample_http (msg_text ?m) [WriteOk 100]"
  have g: "\<not> peer_gone d ?c" for d by (rule peer_stays_not_gone) (simp add: peer_stays_def)
  have d: "dec 0 = ''0''" "trim ''0'' = ''0''" by code_simp+
  have ok: "msg_ok ?m" "m_method ?m = kPost" "m_path ?m \<notin> {''/login'', ''/register''}"
    by (simp_all add: sample_msg_def msg_ok_def wf_request_def wf_line_def wf_header_def int_max_def d)
  have cw: "\<not> close_wanted (msg_request 3 ?m)"
    by (simp add: sample_msg_def msg_request_def parsed_request_def close_wanted_def getHeader_def smap_get_def)
  have i: "content (cn_input ?c) = msg_text ?m @ []" by simp
  from post_elsewhere_status_zero [OF sample_http_simps(1,2,4) cw ok(1,2) i ok(3),
      of "\<lambda>f. None" alone small_query "\<lambda>c d. snd d" "(new_sql_pool 0 0, (Map.empty, None))"] g
  show ?thesis by auto
qed

end
