(* ===== verification/SiteServer.thy ===== *)
theory SiteServer
  imports ServerEvents WebApp
begin

text \<open>
  \<open>main\<close> of \<open>example/test.cpp\<close> and the construction and start of \<open>http/HttpServer.cpp\<close>: how the
  components are put together from the command line. The main thread runs the base loop; the C library's
  \<open>inet_addr\<close>, the MySQL client, and the loops that the started threads get are arguments.
\<close>

section \<open>The command line\<close>

text \<open>
  \<open>atoi\<close> reads like \<open>std::stoi\<close>, but is 0 without a digit, and undefined for a number that is no \<open>int\<close>.
\<close>

definition atoi :: "string \<Rightarrow> int res" where
  "atoi s = (case stoi s of Inr v \<Rightarrow> Inr v | Inl e \<Rightarrow> if e = InvalidArgument then Inr 0 else Inl IntOverflow)"

record site_options =
  numThreads :: int
  listenAddr :: string
  listenPort :: "32 word"

definition read_args :: "string list \<Rightarrow> site_options res" where
  "read_args argv =
     bind_res (if 1 < length argv then atoi (argv ! 1) else Inr 4) (\<lambda>n.
       let ip = (if 2 < length argv then argv ! 2 else ''0.0.0.0'')
       in bind_res (if 3 < length argv then atoi (argv ! 3) else Inr 8000) (\<lambda>port.
            Inr \<lparr>numThreads = n, listenAddr = ip, listenPort = word_of_int port\<rparr>))"

section \<open>The HTTP server object\<close>

record http_server =
  hs_sys :: http_sys
  hs_callback :: http_callback

definition new_http_server :: "nat \<Rightarrow> sockaddr_in \<Rightarrow> string \<Rightarrow> bool \<Rightarrow> nat \<Rightarrow> int \<Rightarrow> http_server res" where
  "new_http_server loop addr name reuse ptr fd =
     bind_res (new_system loop addr name reuse ptr fd) (\<lambda>sy. Inr \<lparr>hs_sys = sy, hs_callback = defaultHttpCallback\<rparr>)"

definition setHttpCallback :: "http_callback \<Rightarrow> http_server \<Rightarrow> http_server" where
  "setHttpCallback cb hs = hs\<lparr>hs_callback := cb\<rparr>"

definition http_setThreadNum :: "int \<Rightarrow> http_server \<Rightarrow> http_server" where
  "http_setThreadNum n hs =
     hs\<lparr>hs_sys := (hs_sys hs)\<lparr>sy_server := server_setThreadNum n (sy_server (hs_sys hs))\<rparr>\<rparr>"

definition http_start :: "(nat \<Rightarrow> nat) \<Rightarrow> nat \<Rightarrow> http_server \<Rightarrow> http_server res" where
  "http_start startLoop t hs =
     bind_res (start_server onConnection startLoop False t (hs_sys hs)) (\<lambda>sy. Inr (hs\<lparr>hs_sys := sy\<rparr>))"

section \<open>The main function\<close>

text \<open>Up to the call of \<open>loop.loop()\<close>; the base loop is number \<open>lp\<close>, the listening socket \<open>fd\<close>.\<close>

definition site_main ::
    "(string \<Rightarrow> 32 word) \<Rightarrow> (nat \<Rightarrow> 'c option) \<Rightarrow> (nat \<Rightarrow> 'c \<Rightarrow> 'c option) \<Rightarrow> (nat \<Rightarrow> nat) \<Rightarrow> nat \<Rightarrow> nat \<Rightarrow> int \<Rightarrow>
      http_callback \<Rightarrow> 'c sql_pool \<Rightarrow> string list \<Rightarrow> ('c sql_pool \<times> http_server) res" where
  "site_main inet_addr mysql_init real_connect startLoop lp ptr fd cb pool argv =
     bind_res (read_args argv) (\<lambda>opts.
     bind_res (init_pool mysql_init real_connect ''localhost'' ''httpguest'' ''httpguest'' ''simplehttpserver'' 3306 2 0 pool)
       (\<lambda>pool1.
     bind_res (new_http_server lp (InetAddress inet_addr (ucast (listenPort opts)) (listenAddr opts)) ''dummy'' False ptr fd)
       (\<lambda>hs.
     bind_res (http_start startLoop lp (http_setThreadNum (numThreads opts) (setHttpCallback cb hs))) (\<lambda>hs1.
     Inr (pool1, hs1)))))"

section \<open>Lemmas\<close>

lemma init_conns_total:
  "\<forall>i \<in> set is. \<exists>con c. mysql_init i = Some con \<and> real_connect i con = Some c \<Longrightarrow>
     \<exists>p'. init_conns mysql_init real_connect is p = Inr p'"
proof (induction "is" arbitrary: p)
  case (Cons i "is")
  then obtain con c where "mysql_init i = Some con" "real_connect i con = Some c" by auto
  with Cons show ?case by simp
qed simp

lemma init_pool_two:
  assumes "\<forall>i < 2. \<exists>con c. mysql_init i = Some con \<and> real_connect i con = Some c"
  shows "\<exists>p'. init_pool mysql_init real_connect url user pw db port 2 log (new_sql_pool m l) = Inr p' \<and>
    m_FreeConn p' = 2 \<and> length (connList p') = 2"
proof -
  let ?p = "(new_sql_pool m l)\<lparr>m_url := url, m_Port := string_of_int_assign port, m_User := user, m_PassWord := pw,
      m_DatabaseName := db, m_close_log := log\<rparr>"
  obtain p1 where p1: "init_conns mysql_init real_connect [0..<nat 2] ?p = Inr p1"
    using init_conns_total [of "[0..<nat 2]" mysql_init real_connect ?p] assms by auto
  have "pool_ok ?p" by (simp add: pool_ok_def new_sql_pool_def)
  from init_conns_ok [OF p1 this] have "length (connList p1) = 2" "m_FreeConn p1 = 2"
    by (simp_all add: pool_ok_def new_sql_pool_def)
  with p1 show ?thesis by (simp add: init_pool_def Let_def)
qed

lemma new_system_total: "\<exists>sy. new_system lp addr name reuse ptr fd = Inr sy"
proof -
  have "length (toIp addr @ '':'' @ dec (unat (toPort addr))) \<le> 21"
    using length_toIp [of addr] length_dec_port [of "toPort addr"] by simp
  then show ?thesis by (simp add: new_system_def new_server_def toIpPort_def Let_def)
qed

lemma server_listen_simps [simp]:
  "ac_listenning (sy_acceptor (server_listen sy))"
  "ac_socket (sy_acceptor (server_listen sy)) = socket_listen (ac_socket (sy_acceptor sy))"
  "sy_server (server_listen sy) = sy_server sy"
  by (simp_all add: server_listen_def acceptor_listen_def acceptor_do_def Let_def split: prod.splits)

section \<open>Properties\<close>



end
