(* ===== verification/SiteSession.thy ===== *)
theory SiteSession
  imports WebApp
begin

text \<open>
  The web site as a whole: the callbacks of \<open>http/HttpServer.cpp\<close> with the state of the pool and the
  database threaded through the callback of \<open>example/test.cpp\<close>, against an abstract site that maps
  actions and a table of users to pages and a table of users.
\<close>

section \<open>The abstract site\<close>

datatype site_action = GetPage string | Login string string | Register string string

definition account_ok :: "string \<Rightarrow> string \<Rightarrow> bool" where
  "account_ok name pw \<longleftrightarrow> validateString name \<and> validateString pw"

fun site_page :: "(string \<rightharpoonup> string) \<Rightarrow> site_action \<Rightarrow> string" where
  "site_page users (GetPage path) = c_str (web_file path)"
| "site_page users (Login name pw) =
     (if account_ok name pw \<and> users name = Some pw then ''../root/index.html'' else ''../root/loginfail.html'')"
| "site_page users (Register name pw) =
     (if account_ok name pw \<and> users name = None then ''../root/registersucceed.html'' else ''../root/registerfail.html'')"

fun site_users :: "(string \<rightharpoonup> string) \<Rightarrow> site_action \<Rightarrow> (string \<rightharpoonup> string)" where
  "site_users users (Register name pw) =
     (if account_ok name pw \<and> users name = None then users(name \<mapsto> pw) else users)"
| "site_users users _ = users"

fun site_run :: "(string \<rightharpoonup> string) \<Rightarrow> site_action list \<Rightarrow> string list \<times> (string \<rightharpoonup> string)" where
  "site_run users [] = ([], users)"
| "site_run users (a # as) = (let (ps, users') = site_run (site_users users a) as in (site_page users a # ps, users'))"

text \<open>Which requests ask for an action.\<close>

definition form_of :: "string \<Rightarrow> string \<Rightarrow> string \<Rightarrow> bool" where
  "form_of name pw body \<longleftrightarrow> (\<exists>k1 k2. body = login_form k1 name k2 pw \<and> CHR ''='' \<notin> set k1 \<and> CHR ''&'' \<notin> set k1 \<and>
     CHR ''&'' \<notin> set name \<and> CHR ''='' \<notin> set k2 \<and> length body < 2 ^ 31)"

fun asks_for :: "http_request \<Rightarrow> site_action \<Rightarrow> bool" where
  "asks_for req (GetPage path) \<longleftrightarrow> req_method req = kGet \<and> req_path req = path"
| "asks_for req (Login name pw) \<longleftrightarrow> req_method req = kPost \<and> req_path req = ''/login'' \<and>
     form_of name pw (req_body req) \<and> sql_plain name"
| "asks_for req (Register name pw) \<longleftrightarrow> req_method req = kPost \<and> req_path req = ''/register'' \<and>
     form_of name pw (req_body req)"

section \<open>The callback implements the abstract site\<close>

definition site_ready ::
    "('c, 'd) db_query \<Rightarrow> ('c, 'd) db_fetch \<Rightarrow> ('d \<Rightarrow> string \<rightharpoonup> string) \<Rightarrow> ('c, 'd) sql_state \<Rightarrow> bool" where
  "site_ready query fetch users s \<longleftrightarrow> holds_users query fetch users \<and> pool_ok (fst s) \<and> connList (fst s) \<noteq> []"

lemma form_fields_form: "form_of name pw body \<Longrightarrow> form_fields body = Inr (Some (name, pw))"
  by (auto simp: form_of_def form_fields_login_form)

lemma getQueryRes_ready:
  assumes "site_ready query fetch users s" "sql_plain name"
  shows "\<exists>id s'. getQueryRes alone query fetch name s =
      Inr (case users (snd s) name of None \<Rightarrow> [] | Some pw \<Rightarrow> [id, name, pw], s') \<and>
    users (snd s') = users (snd s) \<and> site_ready query fetch users s'"
proof -
  have "holds_users query fetch users" "pool_ok (fst s)" "connList (fst s) \<noteq> []"
    using assms(1) by (simp_all add: site_ready_def)
  from getQueryRes_users [OF this assms(2), of "snd s"] obtain id p' d' where
      "getQueryRes alone query fetch name (fst s, snd s) =
        Inr (case users (snd s) name of None \<Rightarrow> [] | Some pw \<Rightarrow> [id, name, pw], (p', d'))"
      "users d' = users (snd s)" "pool_ok p'" "connList p' \<noteq> []"
    by blast
  with assms(1) show ?thesis by (intro exI [of _ id] exI [of _ "(p', d')"]) (simp add: site_ready_def)
qed

lemma insertNewUser_ready:
  assumes "site_ready query fetch users s" "sql_plain name" "sql_plain pw"
  shows "\<exists>s'. insertNewUser alone query fetch name pw s = Inr (users (snd s) name = None, s') \<and>
    users (snd s') = (if users (snd s) name = None then (users (snd s))(name \<mapsto> pw) else users (snd s)) \<and>
    site_ready query fetch users s'"
proof -
  obtain id s1 where s1: "getQueryRes alone query fetch name s =
      Inr (case users (snd s) name of None \<Rightarrow> [] | Some pw \<Rightarrow> [id, name, pw], s1)"
      "users (snd s1) = users (snd s)" "site_ready query fetch users s1"
    using getQueryRes_ready [OF assms(1,2)] by blast
  obtain p1 d1 where pd: "s1 = (p1, d1)" by fastforce
  show ?thesis
  proof (cases "users (snd s) name")
    case (Some w)
    with s1 pd show ?thesis by (auto simp: insertNewUser_def)
  next
    case None
    have ok: "pool_ok p1" "connList p1 \<noteq> []" "holds_users query fetch users"
      using s1(3) pd by (simp_all add: site_ready_def)
    obtain c p2 where g: "GetConnection alone p1 = Inr (Some c, p2)" "sql.same p1 (give_back c p2)"
        "connList (give_back c p2) \<noteq> []"
      using take_first [OF ok(1,2)] by blast
    have "users d1 name = None" using None s1(2) pd by simp
    with ok(3) assms(2,3) obtain d2 where q: "query c (insert_query name pw) d1 = (True, d2)"
        "users d2 = (users d1)(name \<mapsto> pw)"
      unfolding holds_users_def by blast
    have "pool_ok (give_back c p2)" using g(2) ok(1) by (simp add: sql.same_def)
    with g(3) ok(3) have "site_ready query fetch users (give_back c p2, d2)" by (simp add: site_ready_def)
    moreover have "insertNewUser alone query fetch name pw s = Inr (True, (give_back c p2, d2))"
      using s1 g(1) q(1) None pd by (simp add: insertNewUser_def)
    ultimately show ?thesis using q(2) None s1(2) pd by auto
  qed
qed

lemma web_onRequest_site:
  assumes ready: "site_ready query fetch users s" and asks: "asks_for req a"
  shows "\<exists>s'. web_onRequest fs alone query fetch req resp s =
      bind_res (fileToString fs (site_page (users (snd s)) a) resp) (\<lambda>r. Inr (r, s')) \<and>
    users (snd s') = site_users (users (snd s)) a \<and> site_ready query fetch users s'"
proof (cases a)
  case (GetPage path)
  with ready asks show ?thesis by (intro exI [of _ s]) (simp add: web_onRequest_def)
next
  case (Login name pw)
  with asks have req: "req_method req = kPost" "req_path req = ''/login''" "sql_plain name"
      "form_fields (req_body req) = Inr (Some (name, pw))"
    by (simp_all add: form_fields_form)
  obtain id s' where s': "getQueryRes alone query fetch name s =
      Inr (case users (snd s) name of None \<Rightarrow> [] | Some pw \<Rightarrow> [id, name, pw], s')"
      "users (snd s') = users (snd s)" "site_ready query fetch users s'"
    using getQueryRes_ready [OF ready req(3)] by blast
  have "web_onRequest fs alone query fetch req resp s =
      bind_res (fileToString fs (site_page (users (snd s)) a) resp) (\<lambda>r. Inr (r, s'))"
  proof (cases "users (snd s) name")
    case None
    then show ?thesis using s'(1) req Login by (simp add: web_onRequest_def handle_login_def login_ok_def)
  next
    case (Some w)
    then show ?thesis using s'(1) req Login
      by (auto simp: web_onRequest_def handle_login_def login_ok_row account_ok_def)
  qed
  with s' Login show ?thesis by (intro exI [of _ s']) simp
next
  case (Register name pw)
  with asks have req: "req_method req = kPost" "req_path req = ''/register''"
      "form_fields (req_body req) = Inr (Some (name, pw))"
    by (simp_all add: form_fields_form)
  show ?thesis
  proof (cases "account_ok name pw")
    case True
    then have "sql_plain name" "sql_plain pw" by (simp_all add: account_ok_def validateString_plain)
    from insertNewUser_ready [OF ready this] obtain s' where s':
        "insertNewUser alone query fetch name pw s = Inr (users (snd s) name = None, s')"
        "users (snd s') = (if users (snd s) name = None then (users (snd s))(name \<mapsto> pw) else users (snd s))"
        "site_ready query fetch users s'"
      by blast
    have "web_onRequest fs alone query fetch req resp s =
        bind_res (fileToString fs (site_page (users (snd s)) a) resp) (\<lambda>r. Inr (r, s'))"
      using s'(1) req True Register by (simp add: web_onRequest_def handle_register_def account_ok_def)
    with s' True Register show ?thesis by (intro exI [of _ s']) simp
  next
    case False
    have "web_onRequest fs alone query fetch req resp s =
        bind_res (fileToString fs (site_page (users (snd s)) a) resp) (\<lambda>r. Inr (r, s))"
      using req False Register by (auto simp: web_onRequest_def handle_register_def account_ok_def)
    with ready False Register show ?thesis by (intro exI [of _ s]) auto
  qed
qed

section \<open>The HTTP callbacks with the state of the site\<close>

text \<open>
  \<open>onRequest\<close> and \<open>onMessage\<close> of the HTTP server and \<open>handleRead\<close> of the connection, where the user's
  callback also changes a state.
\<close>

type_synonym 's site_callback = "http_request \<Rightarrow> http_response \<Rightarrow> 's \<Rightarrow> (http_response \<times> 's) res"

definition site_onRequest ::
    "'s site_callback \<Rightarrow> http_connection \<Rightarrow> http_request \<Rightarrow> 's \<Rightarrow> (http_connection \<times> 's) res" where
  "site_onRequest httpCallback conn req s =
     bind_res (httpCallback req (new_response (close_wanted req)) s) (\<lambda>(response, s1).
     bind_res (appendToBuffer response (new_buffer kInitialSize)) (\<lambda>buf.
     bind_res (retrieveAllAsString buf) (\<lambda>(str, buf).
     bind_res (send True 0 str conn) (\<lambda>conn.
     Inr (if rsp_close response then shutdown True conn else conn, s1)))))"

definition site_onMessage ::
    "'s site_callback \<Rightarrow> int \<Rightarrow> http_connection \<Rightarrow> 's \<Rightarrow> (http_connection \<times> 's) res" where
  "site_onMessage httpCallback receiveTime c s =
     (case cn_context c of
        None \<Rightarrow> Inl NullDeref
      | Some context \<Rightarrow>
          (case parseRequest context (cn_input c) receiveTime of
             None \<Rightarrow> Inl Hangs
           | Some (Inl e) \<Rightarrow> Inl e
           | Some (Inr (ok, context1, buf)) \<Rightarrow>
               let c1 = setContext (c\<lparr>cn_input := buf\<rparr>) (Some context1) in
               bind_res
                 (if \<not> ok
                  then bind_res (send True 0 bad_request c1) (\<lambda>c2. Inr (shutdown True c2))
                  else Inr c1)
                 (\<lambda>c2.
                    if gotAll context1
                    then bind_res (site_onRequest httpCallback c2 (ctx_request context1) s)
                           (\<lambda>(c3, s1). Inr (setContext c3 (Some (reset_context context1)), s1))
                    else Inr (c2, s))))"

definition site_handleRead ::
    "'s site_callback \<Rightarrow> read_outcome \<Rightarrow> int \<Rightarrow> http_connection \<Rightarrow> 's \<Rightarrow> (http_connection \<times> 's) res" where
  "site_handleRead httpCallback r receiveTime c s =
     bind_res (readFd (cn_input c) r) (\<lambda>(b, n).
       let c1 = c\<lparr>cn_input := b\<rparr>
       in case n of
            Inr k \<Rightarrow> if 0 < k then site_onMessage httpCallback receiveTime c1 s
                     else bind_res (handleClose onConnection Inr c1) (\<lambda>c2. Inr (c2, s))
          | Inl e \<Rightarrow> Inr (handleError c1, s))"

fun site_reads :: "'s site_callback \<Rightarrow> int \<Rightarrow> string list \<Rightarrow> http_connection \<Rightarrow> 's \<Rightarrow> (http_connection \<times> 's) res" where
  "site_reads httpCallback t [] c s = Inr (c, s)"
| "site_reads httpCallback t (x # xs) c s =
     bind_res (site_handleRead httpCallback (ReadData x) t c s) (\<lambda>(c1, s1). site_reads httpCallback t xs c1 s1)"

lemma site_onRequest_eq:
  "cb req (new_response (close_wanted req)) s = Inr (rsp, s1) \<Longrightarrow>
     site_onRequest cb c req s = bind_res (onRequest (\<lambda>_ _. Inr rsp) c req) (\<lambda>c'. Inr (c', s1))"
  by (cases "appendToBuffer rsp (new_buffer kInitialSize)")
    (auto simp: site_onRequest_def onRequest_def bind_res_def split: sum.splits)

text \<open>When a message completes a request, the state changes as the callback says.\<close>

lemma site_onMessage_eq:
  assumes "cn_context c = Some ctx" "parseRequest ctx (cn_input c) t = Some (Inr (ok, ctx1, b))" "gotAll ctx1"
    "cb (ctx_request ctx1) (new_response (close_wanted (ctx_request ctx1))) s = Inr (rsp, s1)"
  shows "site_onMessage cb t c s = bind_res (onMessage (\<lambda>_ _. Inr rsp) t c) (\<lambda>c'. Inr (c', s1))"
proof -
  let ?c1 = "setContext (c\<lparr>cn_input := b\<rparr>) (Some ctx1)"
  let ?bad = "if \<not> ok then bind_res (send True 0 bad_request ?c1) (\<lambda>c2. Inr (shutdown True c2)) else Inr ?c1"
  let ?req = "\<lambda>c2. bind_res (onRequest (\<lambda>_ _. Inr rsp) c2 (ctx_request ctx1))
      (\<lambda>c3. Inr (setContext c3 (Some (reset_context ctx1))))"
  have "site_onMessage cb t c s = bind_res ?bad (\<lambda>c2. bind_res (site_onRequest cb c2 (ctx_request ctx1) s)
      (\<lambda>(c3, s1). Inr (setContext c3 (Some (reset_context ctx1)), s1)))"
    using assms(1-3) by (simp add: site_onMessage_def Let_def)
  also have "\<dots> = bind_res ?bad (\<lambda>c2. bind_res (?req c2) (\<lambda>c'. Inr (c', s1)))"
  proof -
    have "bind_res (site_onRequest cb c2 (ctx_request ctx1) s) (\<lambda>(c3, s1). Inr (setContext c3 (Some (reset_context ctx1)), s1)) =
        bind_res (?req c2) (\<lambda>c'. Inr (c', s1))" for c2
      unfolding site_onRequest_eq [where cb = cb, OF assms(4)]
      by (cases "onRequest (\<lambda>_ _. Inr rsp) c2 (ctx_request ctx1)") simp_all
    then show ?thesis by presburger
  qed
  also have "\<dots> = bind_res (bind_res ?bad ?req) (\<lambda>c'. Inr (c', s1))"
    by (cases ?bad) simp_all
  also have "bind_res ?bad ?req = onMessage (\<lambda>_ _. Inr rsp) t c"
    using assms(1-3) by (simp add: onMessage_def Let_def)
  finally show ?thesis .
qed

lemma site_serve_one:
  assumes "ready c" "msg_ok m" "length (msg_text m) \<le> extrabuf_size"
    and "cb (msg_request t m) (new_response (close_wanted (msg_request t m))) s = Inr (rsp, s1)"
    and "fits_int rsp" "\<not> rsp_close rsp"
  shows "\<exists>c'. site_handleRead cb (ReadData (msg_text m)) t c s = Inr (c', s1) \<and> ready c' \<and>
    stream c' = stream c @ render rsp"
proof -
  note bi = ready_inv(2) [OF assms(1)]
  obtain b where b: "readFd (cn_input c) (ReadData (msg_text m)) = Inr (b, Inr (length (msg_text m)))"
      "buf_inv b" "content b = msg_text m"
    using read_whole [OF bi _ assms(3)] assms(1) by (auto simp: ready_def)
  have sp: "parse_spec new_context t (content b) = Inr (True, request_context (msg_request t m), [])"
    using parse_msg [OF assms(2), of t "[]"] b(3) by simp
  obtain b1 where p: "parseRequest new_context b t = Some (Inr (True, request_context (msg_request t m), b1))"
    using parseRequest_refines [OF b(2) _ sp] by (auto simp: gotAll_def new_context_def)
  have "answer_of (\<lambda>_ _. Inr rsp) t m = Inr rsp" by (simp add: answer_of_def)
  from serve_one [where cb = "\<lambda>_ _. Inr rsp", OF assms(1-3) this assms(5,6)] obtain c' where
      c': "handleRead onConnection (onMessage (\<lambda>_ _. Inr rsp)) Inr (ReadData (msg_text m)) t c = Inr c'"
        "ready c'" "stream c' = stream c @ render rsp"
    by blast
  have len: "0 < length (msg_text m)" by (rule msg_text_nonempty [OF assms(2)])
  have "site_onMessage cb t (c\<lparr>cn_input := b\<rparr>) s =
      bind_res (onMessage (\<lambda>_ _. Inr rsp) t (c\<lparr>cn_input := b\<rparr>)) (\<lambda>c'. Inr (c', s1))"
    by (rule site_onMessage_eq [where ?ctx1.0 = "request_context (msg_request t m)"])
      (use assms(1,4) p in \<open>simp_all add: ready_def request_context_def gotAll_def\<close>)
  moreover have "onMessage (\<lambda>_ _. Inr rsp) t (c\<lparr>cn_input := b\<rparr>) = Inr c'"
    using c'(1) b(1) len by (simp add: handleRead_def)
  ultimately show ?thesis using c'(2,3) b(1) len by (simp add: site_handleRead_def)
qed

section \<open>Conversations with the site\<close>

definition web_site ::
    "file_system \<Rightarrow> ('c, 'd) db_query \<Rightarrow> ('c, 'd) db_fetch \<Rightarrow> ('c, 'd) sql_state site_callback" where
  "web_site fs query fetch req resp s = web_onRequest fs alone query fetch req resp s"

definition page_text :: "string \<Rightarrow> string" where
  "page_text body = ''HTTP/1.1 200 OK'' @ crlf @ ''Content-Length: '' @ dec (length body) @ crlf @
     ''Connection: Keep-Alive'' @ crlf @ crlf @ body"

definition msg_asks :: "int \<Rightarrow> http_msg \<Rightarrow> site_action \<Rightarrow> bool" where
  "msg_asks t m a \<longleftrightarrow> msg_ok m \<and> length (msg_text m) \<le> extrabuf_size \<and>
     \<not> close_wanted (msg_request t m) \<and> asks_for (msg_request t m) a"

definition has_page :: "file_system \<Rightarrow> (string \<Rightarrow> string) \<Rightarrow> string \<Rightarrow> bool" where
  "has_page fs pages f \<longleftrightarrow> fs f = Some (Mappable (pages f)) \<and> length (pages f) < 2 ^ 31"

lemma site_serve_action:
  assumes "ready c" "msg_asks t m a" "site_ready query fetch users s" "has_page fs pages (site_page (users (snd s)) a)"
  shows "\<exists>c' s'. site_handleRead (web_site fs query fetch) (ReadData (msg_text m)) t c s = Inr (c', s') \<and> ready c' \<and>
    stream c' = stream c @ page_text (pages (site_page (users (snd s)) a)) \<and>
    users (snd s') = site_users (users (snd s)) a \<and> site_ready query fetch users s'"
proof -
  let ?f = "site_page (users (snd s)) a"
  let ?rsp = "setResponseBody (setStatusMessage (setStatusCode (new_response False) k200Ok) ''OK'') (pages ?f)"
  note m = assms(2) [unfolded msg_asks_def]
  obtain s' where s': "web_onRequest fs alone query fetch (msg_request t m) (new_response False) s =
      bind_res (fileToString fs ?f (new_response False)) (\<lambda>r. Inr (r, s'))"
      "users (snd s') = site_users (users (snd s)) a" "site_ready query fetch users s'"
    using web_onRequest_site [OF assms(3), of "msg_request t m" a fs] m by blast
  have cb: "web_site fs query fetch (msg_request t m) (new_response (close_wanted (msg_request t m))) s = Inr (?rsp, s')"
    using s'(1) m assms(4) by (simp add: web_site_def has_page_def fileToString_def)
  have fit: "fits_int ?rsp"
    using assms(4) by (simp add: has_page_def fits_int_def new_response_def setResponseBody_def setStatusMessage_def setStatusCode_def)
  have keep: "\<not> rsp_close ?rsp"
    by (simp add: new_response_def setResponseBody_def setStatusMessage_def setStatusCode_def)
  have "dec 200 = ''200''" by code_simp
  then have r: "render ?rsp = page_text (pages ?f)"
    by (simp add: page_text_def render_def head_lines_def status_line_def connection_lines_def new_response_def
        setResponseBody_def setStatusMessage_def setStatusCode_def)
  from site_serve_one [where cb = "web_site fs query fetch", OF assms(1) _ _ cb fit keep] m r
  obtain c' where "site_handleRead (web_site fs query fetch) (ReadData (msg_text m)) t c s = Inr (c', s')" "ready c'"
      "stream c' = stream c @ page_text (pages ?f)"
    by auto
  with s'(2,3) show ?thesis by blast
qed

lemma site_serve_all:
  "ready c \<Longrightarrow> list_all2 (msg_asks t) ms as \<Longrightarrow> site_ready query fetch users s \<Longrightarrow>
     \<forall>f \<in> set (fst (site_run (users (snd s)) as)). has_page fs pages f \<Longrightarrow>
     \<exists>c' s'. site_reads (web_site fs query fetch) t (map msg_text ms) c s = Inr (c', s') \<and> ready c' \<and>
       stream c' = stream c @ concat (map (\<lambda>f. page_text (pages f)) (fst (site_run (users (snd s)) as))) \<and>
       users (snd s') = snd (site_run (users (snd s)) as) \<and> site_ready query fetch users s'"
proof (induction ms arbitrary: c s as)
  case Nil
  then show ?case by (intro exI [of _ c] exI [of _ s]) simp
next
  case (Cons m ms)
  obtain a as' where as: "as = a # as'" "msg_asks t m a" "list_all2 (msg_asks t) ms as'"
    using Cons.prems(2) by (cases as) auto
  have pages: "has_page fs pages (site_page (users (snd s)) a)"
      "\<forall>f \<in> set (fst (site_run (site_users (users (snd s)) a) as')). has_page fs pages f"
    using Cons.prems(4) as(1) by (simp_all add: split_beta)
  obtain c1 s1 where 1: "site_handleRead (web_site fs query fetch) (ReadData (msg_text m)) t c s = Inr (c1, s1)" "ready c1"
      "stream c1 = stream c @ page_text (pages (site_page (users (snd s)) a))"
      "users (snd s1) = site_users (users (snd s)) a" "site_ready query fetch users s1"
    using site_serve_action [OF Cons.prems(1) as(2) Cons.prems(3) pages(1)] by blast
  from Cons.IH [OF 1(2) as(3) 1(5)] pages(2) 1(4) obtain c' s' where
      "site_reads (web_site fs query fetch) t (map msg_text ms) c1 s1 = Inr (c', s')" "ready c'"
      "stream c' = stream c1 @ concat (map (\<lambda>f. page_text (pages f)) (fst (site_run (users (snd s1)) as')))"
      "users (snd s') = snd (site_run (users (snd s1)) as')" "site_ready query fetch users s'"
    by auto
  with 1 show ?case by (intro exI [of _ c'] exI [of _ s']) (simp add: as(1) split_beta)
qed

section \<open>Properties\<close>

text \<open>The whole site, from bytes to bytes: on a new connection, with a database that holds the table of
  users and a free connection to it, a sequence of requests for pages, logins and registrations (names
  of logins without quotes) that each arrive in one read is answered by exactly the pages that the
  abstract site gives for these actions, one after the other with their status lines and lengths, and the
  table of users ends as the abstract site says; the connection is ready for more. In particular a
  registered account can log in, with its password only.\<close>

theorem site_conversation:
  assumes "holds_users query fetch users" "pool_ok p" "connList p \<noteq> []" "list_all2 (msg_asks t) ms as"
    "\<forall>f \<in> set (fst (site_run (users d) as)). has_page fs pages f"
    "WriteErr EPIPE \<notin> set ws" "WriteErr ECONNRESET \<notin> set ws"
  shows "\<exists>c c' p' d'. connectEstablished onConnection (new_connection None a fd pol ws) = Inr c \<and>
    site_reads (web_site fs query fetch) t (map msg_text ms) c (p, d) = Inr (c', (p', d')) \<and>
    stream c' = concat (map (\<lambda>f. page_text (pages f)) (fst (site_run (users d) as))) \<and>
    users d' = snd (site_run (users d) as) \<and> connected c' \<and> cn_context c' = Some new_context"
proof -
  have "site_ready query fetch users (p, d)" using assms(1-3) by (simp add: site_ready_def)
  moreover obtain c where c: "connectEstablished onConnection (new_connection None a fd pol ws) = Inr c" "ready c"
      "stream c = []"
    using established_ready [OF assms(6,7)] by blast
  ultimately obtain c' s' where
      "site_reads (web_site fs query fetch) t (map msg_text ms) c (p, d) = Inr (c', s')" "ready c'"
      "stream c' = concat (map (\<lambda>f. page_text (pages f)) (fst (site_run (users d) as)))"
      "users (snd s') = snd (site_run (users d) as)"
    using site_serve_all [OF c(2) assms(4), of query fetch users "(p, d)" fs pages] assms(5) by auto
  with c(1) show ?thesis
    by (intro exI [of _ c] exI [of _ c'] exI [of _ "fst s'"] exI [of _ "snd s'"])
      (simp add: ready_def connected_def)
qed

definition form_msg :: "string \<Rightarrow> string \<Rightarrow> string \<Rightarrow> http_msg" where
  "form_msg path name pw = (let body = login_form ''username'' name ''password'' pw in
     \<lparr>m_method = kPost, m_path = path, m_query = [], m_version = kHttp11,
      m_headers = [(''Content-Length'', dec (length body))], m_body = body\<rparr>)"

lemma alice_asks:
  assumes "path = ''/register'' \<and> a = Register ''alice'' ''secret'' \<or> path = ''/login'' \<and> a = Login ''alice'' ''secret''"
  shows "msg_asks 3 (form_msg path ''alice'' ''secret'') a"
proof -
  let ?body = "login_form ''username'' ''alice'' ''password'' ''secret''"
  let ?m = "form_msg path ''alice'' ''secret''"
  have n: "length ?body = 30" by (simp add: login_form_def)
  have d: "dec 30 = ''30''" "trim ''30'' = ''30''" by code_simp+
  have ok: "msg_ok ?m"
    using assms by (auto simp: form_msg_def msg_ok_def wf_request_def wf_line_def wf_header_def int_max_def n d Let_def)
  have len: "length (msg_text ?m) \<le> extrabuf_size"
    using assms by (auto simp: form_msg_def msg_text_def print_request_def print_line_def
        n extrabuf_size_def d Let_def)
  have cw: "\<not> close_wanted (msg_request 3 ?m)"
    by (simp add: form_msg_def msg_request_def parsed_request_def close_wanted_def getHeader_def smap_get_def Let_def)
  have "form_of ''alice'' ''secret'' ?body"
    unfolding form_of_def by (intro exI [of _ "''username''"] exI [of _ "''password''"]) (simp add: login_form_def)
  then have "asks_for (msg_request 3 ?m) a"
    using assms by (auto simp: form_msg_def msg_request_def parsed_request_def sql_plain_def Let_def)
  with ok len cw show ?thesis by (simp add: msg_asks_def)
qed

theorem site_conversation_witness:
  "\<exists>c c' p' d'. connectEstablished onConnection (new_connection None 1 7 new_poller [WriteOk 5]) = Inr c \<and>
    site_reads (web_site (\<lambda>f. Some (Mappable f)) small_query (\<lambda>c d. snd d)) 3
      [msg_text (form_msg ''/register'' ''alice'' ''secret''), msg_text (form_msg ''/login'' ''alice'' ''secret'')] c
      ((new_sql_pool 1 0)\<lparr>connList := [7 :: nat], m_FreeConn := 1\<rparr>, (Map.empty, None)) = Inr (c', (p', d')) \<and>
    stream c' = page_text ''../root/registersucceed.html'' @ page_text ''../root/index.html'' \<and>
    fst d' = [''alice'' \<mapsto> ''secret'']"
proof -
  let ?p = "(new_sql_pool 1 0)\<lparr>connList := [7 :: nat], m_FreeConn := 1\<rparr>"
  let ?ms = "[form_msg ''/register'' ''alice'' ''secret'', form_msg ''/login'' ''alice'' ''secret'']"
  let ?as = "[Register ''alice'' ''secret'', Login ''alice'' ''secret'']"
  have p: "pool_ok ?p" "connList ?p \<noteq> []" by (simp_all add: pool_ok_def)
  have ms: "list_all2 (msg_asks 3) ?ms ?as" by (simp add: alice_asks)
  have "account_ok ''alice'' ''secret''" by (simp add: account_ok_def validateString_def word_char_def)
  then have run: "site_run (fst (Map.empty, None)) ?as =
      ([''../root/registersucceed.html'', ''../root/index.html''], [''alice'' \<mapsto> ''secret''])"
    by simp
  have pages: "\<forall>f \<in> set (fst (site_run (fst (Map.empty, None)) ?as)). has_page (\<lambda>f. Some (Mappable f)) id f"
    by (simp add: run has_page_def)
  from site_conversation [OF small_query_holds_users p ms pages, of "[WriteOk 5]" 1 7 new_poller] run show ?thesis by auto
qed

end
