(* ===== verification/SiteClients.thy ===== *)
theory SiteClients
  imports SiteSession
begin

text \<open>
  Many clients at once: the connections of one loop, whose messages arrive in any order and share the pool
  and the database. The loop handles one read after the other, so the clients together see the abstract
  site run on their actions in the order of arrival, and each gets the pages of its own actions.
\<close>

section \<open>The reads of a loop\<close>

text \<open>The connections by the address of their channel, and the reads that the loop dispatches, in order.\<close>

fun site_loop ::
    "'s site_callback \<Rightarrow> int \<Rightarrow> (nat \<times> string) list \<Rightarrow> (nat \<rightharpoonup> http_connection) \<Rightarrow> 's \<Rightarrow>
      ((nat \<rightharpoonup> http_connection) \<times> 's) res" where
  "site_loop httpCallback t [] cs s = Inr (cs, s)"
| "site_loop httpCallback t ((i, x) # xs) cs s =
     (case cs i of
        None \<Rightarrow> Inl UseAfterFree
      | Some c \<Rightarrow>
          bind_res (site_handleRead httpCallback (ReadData x) t c s) (\<lambda>(c1, s1).
            site_loop httpCallback t xs (cs(i \<mapsto> c1)) s1))"

text \<open>The part of a run that one client sees: the pages of the actions that are its own.\<close>

fun own :: "nat \<Rightarrow> nat list \<Rightarrow> 'p list \<Rightarrow> 'p list" where
  "own i (j # js) (p # ps) = (if i = j then p # own i js ps else own i js ps)"
| "own i _ _ = []"

definition served :: "(string \<Rightarrow> string) \<Rightarrow> string list \<Rightarrow> string" where
  "served pages fs = concat (map (\<lambda>f. page_text (pages f)) fs)"

lemma served_simps [simp]:
  "served pages [] = []" "served pages (f # fs) = page_text (pages f) @ served pages fs"
  by (simp_all add: served_def)

text \<open>All connections are ready for requests; \<open>out\<close> gives what they have sent.\<close>

definition clients :: "(nat \<rightharpoonup> http_connection) \<Rightarrow> nat set \<Rightarrow> (nat \<Rightarrow> string) \<Rightarrow> bool" where
  "clients cs I out \<longleftrightarrow> dom cs = I \<and> (\<forall>i c. cs i = Some c \<longrightarrow> ready c \<and> stream c = out i)"

lemma clients_update:
  "clients cs I out \<Longrightarrow> i \<in> I \<Longrightarrow> ready c \<Longrightarrow> stream c = out i @ x \<Longrightarrow> clients (cs(i \<mapsto> c)) I (out(i := out i @ x))"
  by (auto simp: clients_def)

lemma site_loop_serves:
  "clients cs I out \<Longrightarrow> list_all2 (\<lambda>(i, m) a. i \<in> I \<and> msg_asks t m a) ds as \<Longrightarrow> site_ready query fetch users s \<Longrightarrow>
     \<forall>f \<in> set (fst (site_run (users (snd s)) as)). has_page fs pages f \<Longrightarrow>
     \<exists>cs' s'. site_loop (web_site fs query fetch) t (map (\<lambda>(i, m). (i, msg_text m)) ds) cs s = Inr (cs', s') \<and>
       clients cs' I (\<lambda>i. out i @ served pages (own i (map fst ds) (fst (site_run (users (snd s)) as)))) \<and>
       users (snd s') = snd (site_run (users (snd s)) as) \<and> site_ready query fetch users s'"
proof (induction ds arbitrary: cs s as out)
  case Nil
  then show ?case by (intro exI [of _ cs] exI [of _ s]) simp
next
  case (Cons d ds)
  obtain i m where d: "d = (i, m)" by fastforce
  obtain a as' where as: "as = a # as'" "i \<in> I" "msg_asks t m a"
      "list_all2 (\<lambda>(i, m) a. i \<in> I \<and> msg_asks t m a) ds as'"
    using Cons.prems(2) d by (cases as) auto
  let ?f = "site_page (users (snd s)) a" and ?fs = "fst (site_run (site_users (users (snd s)) a) as')"
  have pages: "has_page fs pages ?f" "\<forall>f \<in> set ?fs. has_page fs pages f"
    using Cons.prems(4) as(1) by (simp_all add: split_beta)
  obtain c where c: "cs i = Some c" "ready c" "stream c = out i"
    using Cons.prems(1) as(2) by (auto simp: clients_def)
  obtain c1 s1 where 1: "site_handleRead (web_site fs query fetch) (ReadData (msg_text m)) t c s = Inr (c1, s1)" "ready c1"
      "stream c1 = out i @ page_text (pages ?f)" "users (snd s1) = site_users (users (snd s)) a" "site_ready query fetch users s1"
    using site_serve_action [OF c(2) as(3) Cons.prems(3) pages(1)] c(3) by auto
  let ?out = "out(i := out i @ page_text (pages ?f))"
  have pages1: "\<forall>f \<in> set (fst (site_run (users (snd s1)) as')). has_page fs pages f" using pages(2) 1(4) by simp
  obtain cs' s' where
      rest: "site_loop (web_site fs query fetch) t (map (\<lambda>(i, m). (i, msg_text m)) ds) (cs(i \<mapsto> c1)) s1 = Inr (cs', s')"
        "clients cs' I (\<lambda>k. ?out k @ served pages (own k (map fst ds) ?fs))"
        "users (snd s') = snd (site_run (users (snd s1)) as')" "site_ready query fetch users s'"
    using Cons.IH [OF clients_update [OF Cons.prems(1) as(2) 1(2,3)] as(4) 1(5) pages1] unfolding 1(4) by blast
  have "(\<lambda>k. ?out k @ served pages (own k (map fst ds) ?fs)) =
      (\<lambda>k. out k @ served pages (own k (map fst (d # ds)) (fst (site_run (users (snd s)) as))))"
    by (rule ext) (simp add: d as(1) split_beta)
  with rest(2) have "clients cs' I (\<lambda>k. out k @ served pages (own k (map fst (d # ds)) (fst (site_run (users (snd s)) as))))"
    by simp
  moreover have "site_loop (web_site fs query fetch) t (map (\<lambda>(i, m). (i, msg_text m)) (d # ds)) cs s = Inr (cs', s')"
    using rest(1) 1(1) c(1) by (simp add: d)
  moreover have "users (snd s') = snd (site_run (users (snd s)) as)" using rest(3) 1(4) by (simp add: as(1) split_beta)
  ultimately show ?case using rest(4) by blast
qed

section \<open>The property\<close>



end
